(* ===== verification/Prelude.thy ===== *)
theory Prelude
  imports Main "HOL-Library.Word" "HOL-Library.AList" "HOL-Library.Monad_Syntax"
    "HOL-Library.Multiset"
begin

section \<open>Prelude: loops, association lists and list surgery\<close>

text \<open>
  The vocabulary every component theory shares.
  \<^item> \<open>iter\<close> is the C++ loop whose number of rounds the source does not bound
    (\<open>while\<close>, \<open>for (;;)\<close>): a step function either continues with a new loop state or
    leaves the loop with a result. A loop that runs forever, and a loop whose body lets
    an exception escape, have the value \<open>None\<close>; the rule \<open>iter_total\<close> is how the
    components prove that neither happens.
  \<^item> \<open>emplace\<close> and the library's \<open>AList.update\<close>, \<open>AList.delete\<close> are the
    \<open>std::unordered_map\<close> operations: an association list fixes one iteration order of
    the hash table, and every loop of the source over such a table sorts what it collects.
  \<^item> \<open>erase_at\<close> and \<open>splice_back\<close> are \<open>std::list::erase\<close> and
    \<open>std::list::splice\<close> at an iterator, the iterator being an index.
  \<^item> \<open>cdiv\<close> is C++ integer division (truncation towards zero).
  Quantities and prices (\<open>std::int64_t\<close>, overflow undefined) are \<open>int\<close>, identifiers
  and sequence numbers (\<open>std::uint64_t\<close>, only ever incremented) are \<open>nat\<close>, flag sets
  (\<open>std::uint32_t\<close>) are 32-bit words.
\<close>

named_theorems ladder_simps \<open>rewrite rules of the price ladder\<close>
named_theorems book_defs \<open>definitions of the order book's small operations\<close>
named_theorems frame_simps \<open>fields an operation leaves alone\<close>

subsection \<open>Unbounded loops\<close>

partial_function (option) iter :: "('s \<Rightarrow> ('s + 'r) option) \<Rightarrow> 's \<Rightarrow> 'r option" where
  "iter f s = Option.bind (f s) (\<lambda>x. case x of Inl s' \<Rightarrow> iter f s' | Inr r \<Rightarrow> Some r)"

declare iter.simps [code]

lemma iter_Inl [simp]: "f s = Some (Inl s') \<Longrightarrow> iter f s = iter f s'"
  by (subst iter.simps) simp

lemma iter_Inr [simp]: "f s = Some (Inr r) \<Longrightarrow> iter f s = Some r"
  by (subst iter.simps) simp

text \<open>Total correctness of a loop: an invariant, a measure, and a result predicate.\<close>

lemma iter_total:
  assumes start: "I s"
    and step: "\<And>s. I s \<Longrightarrow> (\<exists>s'. f s = Some (Inl s') \<and> I s' \<and> m s' < (m s :: nat))
                        \<or> (\<exists>r. f s = Some (Inr r) \<and> Q r)"
  shows "\<exists>r. iter f s = Some r \<and> Q r"
  using start
proof (induction s rule: measure_induct_rule [where f = m])
  case (less s)
  from step [OF less.prems] show ?case
  proof
    assume "\<exists>s'. f s = Some (Inl s') \<and> I s' \<and> m s' < m s"
    then obtain s' where s': "f s = Some (Inl s')" "I s'" "m s' < m s" by blast
    with less.IH [of s'] obtain r where "iter f s' = Some r" "Q r" by blast
    with s' show ?thesis by simp
  qed auto
qed

text \<open>Partial correctness: what holds of every result, whether or not the loop stops.\<close>

lemma iter_partial:
  assumes ret: "iter f s = Some r" and start: "I s"
    and cont: "\<And>s s'. I s \<Longrightarrow> f s = Some (Inl s') \<Longrightarrow> I s'"
    and stop: "\<And>s r. I s \<Longrightarrow> f s = Some (Inr r) \<Longrightarrow> Q r"
  shows "Q r"
proof -
  have "I s \<longrightarrow> Q r"
  proof (rule iter.raw_induct [where P = "\<lambda>g s r. g = f \<longrightarrow> I s \<longrightarrow> Q r", THEN mp, OF _ ret refl])
    fix it g s r
    assume IH: "\<And>g s r. it g s = Some r \<Longrightarrow> g = f \<longrightarrow> I s \<longrightarrow> Q r"
      and eq: "Option.bind (g s) (\<lambda>x. case x of Inl s' \<Rightarrow> it g s' | Inr r \<Rightarrow> Some r) = Some r"
    from eq obtain x where x: "g s = Some x"
      and rest: "(case x of Inl s' \<Rightarrow> it g s' | Inr r \<Rightarrow> Some r) = Some r"
      by (auto simp: bind_eq_Some_conv)
    show "g = f \<longrightarrow> I s \<longrightarrow> Q r"
    proof (cases x)
      case (Inl s')
      with rest have "g = f \<longrightarrow> I s' \<longrightarrow> Q r" by (intro IH) simp
      with Inl x cont [of s s'] show ?thesis by blast
    next
      case (Inr r')
      with rest x stop [of s r'] show ?thesis by auto
    qed
  qed
  with start show ?thesis by blast
qed

subsection \<open>Association lists as hash tables\<close>

definition emplace :: "'k \<Rightarrow> 'v \<Rightarrow> ('k \<times> 'v) list \<Rightarrow> ('k \<times> 'v) list" where
  "emplace k v m = (if map_of m k = None then (k, v) # m else m)"

lemma map_of_emplace [simp]:
  "map_of (emplace k v m) = (if map_of m k = None then (map_of m)(k \<mapsto> v) else map_of m)"
  by (simp add: emplace_def)

lemma distinct_emplace [simp]:
  "distinct (map fst m) \<Longrightarrow> distinct (map fst (emplace k v m))"
  by (auto simp: emplace_def map_of_eq_None_iff)

text \<open>Ordered maps (\<open>std::map\<close>): association lists in key order.\<close>

definition map_emplace :: "'k::linorder \<Rightarrow> 'v \<Rightarrow> ('k \<times> 'v) list \<Rightarrow> ('k \<times> 'v) list" where
  "map_emplace k v m = (if map_of m k = None then insort_key fst (k, v) m else m)"

definition map_put :: "'k::linorder \<Rightarrow> 'v \<Rightarrow> ('k \<times> 'v) list \<Rightarrow> ('k \<times> 'v) list" where
  "map_put k v m = (if map_of m k = None then insort_key fst (k, v) m else AList.update k v m)"

lemma map_of_insort: "map_of m k = None \<Longrightarrow> map_of (insort_key fst (k, v) m) = (map_of m)(k \<mapsto> v)"
  by (induction m) (auto simp: fun_eq_iff split: if_splits)

lemma map_of_delete [simp]: "map_of (AList.delete k m) = (map_of m)(k := None)"
  by (simp add: AList.delete_conv')

lemma map_of_update [simp]: "map_of (AList.update k v m) = (map_of m)(k \<mapsto> v)"
  by (simp add: AList.update_conv')

lemma map_of_map_put [simp]: "map_of (map_put k v m) = (map_of m)(k \<mapsto> v)"
  by (simp add: map_put_def map_of_insort)

lemma keys_delete [simp]: "map fst (AList.delete k m) = filter (\<lambda>j. j \<noteq> k) (map fst m)"
  by (induction m) auto

lemma delete_update_eq [simp]: "AList.delete k (AList.update k v m) = AList.delete k m"
  by (induction m) auto

lemma update_update_eq [simp]: "AList.update k v (AList.update k w m) = AList.update k v m"
  by (induction m) auto

lemma keys_map_entry [simp]: "map fst (AList.map_entry k f xs) = map fst xs"
  by (induction xs) auto

lemma keys_update_present [simp]:
  "k \<in> fst ` set m \<Longrightarrow> map fst (AList.update k v m) = map fst m"
  by (induction m) auto

lemma map_of_Some_key [dest]: "map_of m k = Some v \<Longrightarrow> k \<in> fst ` set m"
  by (force dest: map_of_SomeD)

text \<open>Disjointness of the sides of a split when one side shrinks or grows by a fresh element.\<close>

lemma disjoint_shrink:
  "A \<inter> (B \<union> C) = {} \<Longrightarrow> B \<inter> C = {} \<Longrightarrow> B' \<subseteq> B \<Longrightarrow> A \<inter> (B' \<union> C) = {} \<and> B' \<inter> C = {}"
  by blast

lemma disjoint_subset: "A \<inter> B = {} \<Longrightarrow> A' \<subseteq> A \<Longrightarrow> A' \<inter> B = {}"
  by blast

lemma disjoint_insert_subset: "A \<inter> B = {} \<Longrightarrow> A' \<subseteq> insert i A \<Longrightarrow> i \<notin> B \<Longrightarrow> A' \<inter> B = {}"
  by blast

subsection \<open>List surgery at an iterator\<close>

definition erase_at :: "nat \<Rightarrow> 'a list \<Rightarrow> 'a list" where
  "erase_at i xs = take i xs @ drop (Suc i) xs"

definition splice_back :: "nat \<Rightarrow> 'a list \<Rightarrow> 'a list" where
  "splice_back i xs = erase_at i xs @ [xs ! i]"

lemma mset_erase_at: "i < length xs \<Longrightarrow> add_mset (xs ! i) (mset (erase_at i xs)) = mset xs"
  unfolding erase_at_def
  by (metis append_take_drop_id Cons_nth_drop_Suc mset.simps(2) mset_append
      union_mset_add_mset_right)

lemma mset_splice_back: "i < length xs \<Longrightarrow> mset (splice_back i xs) = mset xs"
  by (simp add: splice_back_def mset_erase_at)

lemma length_erase_at [simp]: "i < length xs \<Longrightarrow> length (erase_at i xs) = length xs - 1"
  by (simp add: erase_at_def)

lemma length_splice_back [simp]: "i < length xs \<Longrightarrow> length (splice_back i xs) = length xs"
  by (simp add: splice_back_def)

lemma set_splice_back [simp]: "i < length xs \<Longrightarrow> set (splice_back i xs) = set xs"
  by (metis mset_splice_back set_mset_mset)

lemma distinct_splice_back [simp]: "i < length xs \<Longrightarrow> distinct (splice_back i xs) = distinct xs"
  by (metis mset_splice_back mset_eq_imp_distinct_iff)

lemma erase_at_eq_filter:
  assumes "distinct xs" "i < length xs"
  shows "erase_at i xs = filter (\<lambda>x. x \<noteq> xs ! i) xs"
proof -
  have xs: "xs = take i xs @ xs ! i # drop (Suc i) xs"
    using assms(2) by (simp add: id_take_nth_drop)
  have d: "distinct (take i xs @ xs ! i # drop (Suc i) xs)"
    using assms(1) xs by simp
  have "filter (\<lambda>x. x \<noteq> xs ! i) (take i xs @ xs ! i # drop (Suc i) xs) = take i xs @ drop (Suc i) xs"
    using d by (auto intro!: arg_cong2 [where f = append] filter_True)
  then show ?thesis using xs by (simp add: erase_at_def)
qed

text \<open>Sums over a list of distinct keys when the value of one key changes.\<close>

lemma sum_list_cong_notin:
  assumes "\<And>y. y \<in> set xs \<Longrightarrow> g y = f y"
  shows "sum_list (map g xs) = sum_list (map f xs)"
  using assms by (metis map_cong)

lemma sum_list_upd:
  fixes f :: "'a \<Rightarrow> int"
  assumes "distinct xs" "x \<in> set xs" "\<And>y. y \<noteq> x \<Longrightarrow> g y = f y"
  shows "sum_list (map g xs) = sum_list (map f xs) - f x + g x"
  using assms(1,2)
proof (induction xs)
  case (Cons a xs)
  show ?case
  proof (cases "a = x")
    case True
    with Cons.prems have "sum_list (map g xs) = sum_list (map f xs)"
      by (intro sum_list_cong_notin assms(3)) auto
    with True show ?thesis by simp
  next
    case False
    with Cons assms(3) [of a] show ?thesis by auto
  qed
qed simp

lemma sum_list_filter_neq:
  fixes f :: "'a \<Rightarrow> int"
  assumes "distinct xs" "x \<in> set xs"
  shows "sum_list (map f (filter (\<lambda>y. y \<noteq> x) xs)) = sum_list (map f xs) - f x"
  using assms
proof (induction xs)
  case (Cons a xs)
  show ?case
  proof (cases "a = x")
    case True
    with Cons.prems have "filter (\<lambda>y. y \<noteq> x) xs = xs" by (auto simp: filter_id_conv)
    with True show ?thesis by simp
  qed (use Cons in auto)
qed simp

lemma sum_list_pos:
  fixes f :: "'a \<Rightarrow> int"
  assumes "\<And>x. x \<in> set xs \<Longrightarrow> 0 < f x"
  shows "0 \<le> sum_list (map f xs)" and "0 < sum_list (map f xs) \<longleftrightarrow> xs \<noteq> []"
    and "sum_list (map f xs) = 0 \<longleftrightarrow> xs = []"
proof -
  have ge: "0 \<le> sum_list (map f ys)" if "set ys \<subseteq> set xs" for ys
    using that assms by (intro sum_list_nonneg) (auto intro: less_imp_le)
  show "0 \<le> sum_list (map f xs)" by (rule ge) simp
  have pos: "0 < sum_list (map f xs)" if ne: "xs \<noteq> []"
  proof -
    from ne obtain a ys where "xs = a # ys" by (cases xs) auto
    with assms [of a] ge [of ys] show ?thesis by (auto simp: subset_insertI)
  qed
  then show "0 < sum_list (map f xs) \<longleftrightarrow> xs \<noteq> []" by auto
  with pos show "sum_list (map f xs) = 0 \<longleftrightarrow> xs = []" by auto
qed

text \<open>Sums over the values of a table.\<close>

definition alist_sum :: "('v \<Rightarrow> int) \<Rightarrow> ('k \<times> 'v) list \<Rightarrow> int" where
  "alist_sum f m = sum_list (map (\<lambda>kv. f (snd kv)) m)"

lemma alist_sum_simps [simp]:
  "alist_sum f [] = 0" "alist_sum f (kv # m) = f (snd kv) + alist_sum f m"
  by (simp_all add: alist_sum_def)

lemma alist_sum_delete_absent: "k \<notin> fst ` set m \<Longrightarrow> alist_sum f (AList.delete k m) = alist_sum f m"
  by (induction m) auto

lemma alist_sum_delete:
  "distinct (map fst m) \<Longrightarrow> map_of m k = Some v \<Longrightarrow>
   alist_sum f (AList.delete k m) = alist_sum f m - f v"
  by (induction m) (auto simp: alist_sum_delete_absent)

lemma alist_sum_update:
  "distinct (map fst m) \<Longrightarrow> map_of m k = Some v \<Longrightarrow>
   alist_sum f (AList.update k v' m) = alist_sum f m - f v + f v'"
  by (induction m) auto

lemma alist_sum_emplace: "map_of m k = None \<Longrightarrow> alist_sum f (emplace k v m) = alist_sum f m + f v"
  by (simp add: emplace_def)

lemma alist_sum_ge:
  assumes "distinct (map fst m)" "\<forall>k v. map_of m k = Some v \<longrightarrow> 0 \<le> f v" "map_of m k = Some v"
  shows "f v \<le> alist_sum f m"
proof -
  have "\<forall>w \<in> snd ` set (AList.delete k m). 0 \<le> f w"
    using assms(1,2) by (auto simp: AList.delete_eq map_of_eq_Some_iff)
  then have "0 \<le> alist_sum f (AList.delete k m)"
    unfolding alist_sum_def by (intro sum_list_nonneg) auto
  with alist_sum_delete [OF assms(1,3), of f] show ?thesis by simp
qed

subsection \<open>C++ integer division\<close>

definition cdiv :: "int \<Rightarrow> int \<Rightarrow> int" where
  "cdiv a b = sgn a * sgn b * (\<bar>a\<bar> div \<bar>b\<bar>)"

lemma cdiv_nonneg: "0 \<le> a \<Longrightarrow> 0 < b \<Longrightarrow> cdiv a b = a div b"
  by (cases "a = 0") (auto simp: cdiv_def)

end
