(* ===== verification/Types.thy ===== *)
theory Types
  imports Prelude
begin

unbundle bit_operations_syntax

section \<open>The order model (core/types.h, core/order.h, core/order.cc, core/book\_event.h)\<close>

text \<open>
  The value types of the matching engine: sides, the orthogonal order axes (type,
  time-in-force, flags, trigger, peg, link), executions and book events, and the ingress
  step \<open>Normalize\<close>. Prices and quantities are \<open>int\<close> (\<open>std::int64_t\<close>), identifiers
  and sequence numbers \<open>nat\<close> (\<open>std::uint64_t\<close>), the flag set a 32-bit word.
\<close>

type_synonym Symbol = string
type_synonym Ticks = int
type_synonym Quantity = int
type_synonym OrderId = nat
type_synonym ClientId = nat
type_synonym SeqNo = nat
type_synonym Timestamp = int

datatype Side = Buy | Sell

fun Opposite :: "Side \<Rightarrow> Side" where
  "Opposite Buy = Sell"
| "Opposite Sell = Buy"

datatype OrdType = Market | Limit

datatype Tif = GTC | DAY | GTD | IOC | FOK | GTX

subsection \<open>Flags\<close>

datatype OrderFlag = kHidden | kPostOnly | kReduceOnly | kAon | kIceberg | kDiscretion
  | kMoo | kLoo | kMoc | kLoc | kOpg

fun flag_pos :: "OrderFlag \<Rightarrow> nat" where
  "flag_pos kHidden = 0"
| "flag_pos kPostOnly = 1"
| "flag_pos kReduceOnly = 2"
| "flag_pos kAon = 3"
| "flag_pos kIceberg = 4"
| "flag_pos kDiscretion = 5"
| "flag_pos kMoo = 6"
| "flag_pos kLoo = 7"
| "flag_pos kMoc = 8"
| "flag_pos kLoc = 9"
| "flag_pos kOpg = 10"

definition flag_bit :: "OrderFlag \<Rightarrow> 32 word" where
  "flag_bit f = push_bit (flag_pos f) 1"

definition HasFlag :: "32 word \<Rightarrow> OrderFlag \<Rightarrow> bool" where
  "HasFlag m f \<longleftrightarrow> m AND flag_bit f \<noteq> 0"

definition SetFlag :: "32 word \<Rightarrow> OrderFlag \<Rightarrow> 32 word" where
  "SetFlag m f = m OR flag_bit f"

subsection \<open>Conditional axes\<close>

datatype TriggerKind = Stop | TrailAmount | TrailPercent

record TriggerSpec =
  tr_kind :: TriggerKind
  stop_price :: Ticks
  trail_by :: Ticks
  high_water :: Ticks
  triggered :: bool

datatype PegRef = Primary | MarketRef | Midpoint

record PegSpec =
  peg_ref :: PegRef
  peg_offset :: Ticks
  cap_limit :: Ticks

datatype LinkRole = OcoLeg | OtoParent | OtoChild | BracketParent
  | BracketTakeProfit | BracketStopLoss

record LinkSpec =
  link_role :: LinkRole
  group_id :: nat

subsection \<open>Orders\<close>

record Order =
  oid :: OrderId
  client_id :: ClientId
  side :: Side
  otype :: OrdType
  tif :: Tif
  flags :: "32 word"
  price :: Ticks
  qty :: Quantity
  leaves :: Quantity
  filled :: Quantity
  display_qty :: Quantity
  min_qty :: Quantity
  discretion :: Ticks
  seq :: SeqNo
  rank :: SeqNo
  expiry_ns :: Timestamp
  trigger :: "TriggerSpec option"
  peg :: "PegSpec option"
  link :: "LinkSpec option"

definition default_Order :: Order where
  "default_Order = \<lparr>oid = 0, client_id = 0, side = Buy, otype = Limit, tif = GTC, flags = 0,
     price = 0, qty = 0, leaves = 0, filled = 0, display_qty = 0, min_qty = 0, discretion = 0,
     seq = 0, rank = 0, expiry_ns = 0, trigger = None, peg = None, link = None\<rparr>"

definition Normalize :: "Order \<Rightarrow> Order" where
  "Normalize order =
    (let o1 = (if tif order = GTX
               then order\<lparr>flags := SetFlag (flags order) kPostOnly, tif := GTC\<rparr>
               else if tif order = FOK
               then order\<lparr>flags := SetFlag (flags order) kAon, tif := IOC\<rparr>
               else order);
         o2 = (if leaves o1 = 0 \<and> filled o1 = 0 then o1\<lparr>leaves := qty o1\<rparr> else o1)
     in (if display_qty o2 = 0 then o2\<lparr>display_qty := qty o2\<rparr> else o2))"

subsection \<open>Executions, events, outcomes\<close>

record Trade =
  taker_id :: OrderId
  maker_id :: OrderId
  taker_side :: Side
  t_price :: Ticks
  t_qty :: Quantity

datatype BookEventType = kAdd | kCancel | kTrade | kReprice | kReplenish | kTrigger

record BookEvent =
  ev_seq :: SeqNo
  ev_symbol :: Symbol
  ev_type :: BookEventType
  ev_order_id :: OrderId
  ev_taker_id :: OrderId
  ev_side :: Side
  ev_price :: Ticks
  ev_prev_price :: Ticks
  ev_qty :: Quantity
  ev_displayed :: Quantity

record SubmitOutcome =
  accepted :: bool
  reject_reason :: string
  trades :: "Trade list"
  out_filled :: Quantity
  rested :: bool
  rested_deep :: bool
  pending_trigger :: bool
  held :: bool
  out_order_id :: OrderId
  evicted :: "Order list"
  resting :: Order

definition default_Outcome :: SubmitOutcome where
  "default_Outcome = \<lparr>accepted = True, reject_reason = '''', trades = [], out_filled = 0,
     rested = False, rested_deep = False, pending_trigger = False, held = False,
     out_order_id = 0, evicted = [], resting = default_Order\<rparr>"

datatype StpPolicy = kStpNone | kCancelResting | kCancelAggressor | kCancelBoth

subsection \<open>Flag algebra\<close>

lemma HasFlag_bit: "HasFlag m f \<longleftrightarrow> bit m (flag_pos f)"
  by (simp add: HasFlag_def flag_bit_def push_bit_eq_mult and_exp_eq_0_iff_not_bit)

lemma flag_pos_less: "flag_pos f < 32"
  by (cases f) simp_all

lemma flag_pos_inj [simp]: "flag_pos f = flag_pos g \<longleftrightarrow> f = g"
  by (cases f; cases g) simp_all

lemma HasFlag_SetFlag [simp]: "HasFlag (SetFlag m f) g \<longleftrightarrow> HasFlag m g \<or> f = g"
  using flag_pos_less [of g] flag_pos_inj [of g f]
  by (auto simp: HasFlag_bit SetFlag_def flag_bit_def bit_or_iff push_bit_eq_mult bit_exp_iff)

lemma HasFlag_0 [simp]: "\<not> HasFlag 0 f"
  by (simp add: HasFlag_bit)

lemma Opposite_Opposite [simp]: "Opposite (Opposite s) = s"
  by (cases s) simp_all

lemma Opposite_neq [simp]: "Opposite s \<noteq> s" "s \<noteq> Opposite s"
  by (cases s; simp)+

lemma side_neq_Opposite: "s \<noteq> t \<longleftrightarrow> s = Opposite t"
  by (cases s; cases t) simp_all

subsection \<open>Normalisation\<close>

lemma Normalize_frame [frame_simps]:
  "oid (Normalize x) = oid x" "client_id (Normalize x) = client_id x"
  "side (Normalize x) = side x" "otype (Normalize x) = otype x" "price (Normalize x) = price x"
  "qty (Normalize x) = qty x" "filled (Normalize x) = filled x"
  "min_qty (Normalize x) = min_qty x" "discretion (Normalize x) = discretion x"
  "seq (Normalize x) = seq x" "rank (Normalize x) = rank x" "expiry_ns (Normalize x) = expiry_ns x"
  "trigger (Normalize x) = trigger x" "peg (Normalize x) = peg x" "link (Normalize x) = link x"
  by (simp_all add: Normalize_def Let_def)

lemma Normalize_tif: "tif (Normalize x) = (case tif x of GTX \<Rightarrow> GTC | FOK \<Rightarrow> IOC | t \<Rightarrow> t)"
  by (simp add: Normalize_def Let_def split: Tif.splits)

lemma Normalize_HasFlag: "HasFlag (flags (Normalize x)) f \<longleftrightarrow>
   HasFlag (flags x) f \<or> (tif x = GTX \<and> f = kPostOnly) \<or> (tif x = FOK \<and> f = kAon)"
  by (auto simp: Normalize_def Let_def)

lemma Normalize_leaves:
  "leaves (Normalize x) = (if leaves x = 0 \<and> filled x = 0 then qty x else leaves x)"
  by (auto simp: Normalize_def Let_def)

lemma Normalize_display: "display_qty (Normalize x) = (if display_qty x = 0 then qty x else display_qty x)"
  by (simp add: Normalize_def Let_def)

end
