(* ===== verification/Ladder.thy ===== *)
theory Ladder
  imports Types
begin

section \<open>The dense price ladder (core/order\_book.cc: Level, Ladder)\<close>

text \<open>
  One side of a book is a ladder: a deque of levels in which index \<open>i\<close> is the price
  \<open>base + i\<close>, a flag for the first use, and a cache of the best price. The operations keep
  the source's structure; \<open>level_at\<close> is the abstraction the rest of the development uses,
  the level at any price, empty outside the covered range. The locale \<open>price_levels\<close> is
  the contract of that abstraction, and the ladder is its interpretation.
\<close>

subsection \<open>Levels\<close>

record Level =
  total :: Quantity
  displayed :: Quantity
  fifo :: "OrderId list"

definition empty_Level :: Level where
  "empty_Level = \<lparr>total = 0, displayed = 0, fifo = []\<rparr>"

definition DisplayedOf :: "32 word \<Rightarrow> Quantity \<Rightarrow> Quantity \<Rightarrow> Quantity" where
  "DisplayedOf fl lv sl =
     (if HasFlag fl kHidden then 0 else if HasFlag fl kIceberg then sl else lv)"

subsection \<open>The ladder and its operations\<close>

record Ladder =
  l_side :: Side
  levels :: "Level list"
  base :: Ticks
  has_base :: bool
  best_valid :: bool
  best_price :: Ticks

definition new_Ladder :: "Side \<Rightarrow> Ladder" where
  "new_Ladder s = \<lparr>l_side = s, levels = [], base = 0, has_base = False,
     best_valid = False, best_price = 0\<rparr>"

definition covers :: "Ladder \<Rightarrow> Ticks \<Rightarrow> bool" where
  "covers L p \<longleftrightarrow> has_base L \<and> base L \<le> p \<and> p < base L + int (length (levels L))"

definition index :: "Ladder \<Rightarrow> Ticks \<Rightarrow> nat" where
  "index L p = nat (p - base L)"

definition better :: "Ladder \<Rightarrow> Ticks \<Rightarrow> Ticks \<Rightarrow> bool" where
  "better L a b = (if l_side L = Buy then a > b else a < b)"

definition touch :: "Ladder \<Rightarrow> Ticks \<Rightarrow> Ladder" where
  "touch L p =
     (if \<not> has_base L then L\<lparr>base := p, levels := [empty_Level], has_base := True\<rparr>
      else if p < base L
      then L\<lparr>levels := replicate (nat (base L - p)) empty_Level @ levels L, base := p\<rparr>
      else if p \<ge> base L + int (length (levels L))
      then L\<lparr>levels := levels L @
               replicate (nat (p - base L) + 1 - length (levels L)) empty_Level\<rparr>
      else L)"

definition ladder_at :: "Ladder \<Rightarrow> Ticks \<Rightarrow> Level option" where
  "ladder_at L p = (if covers L p then Some (levels L ! index L p) else None)"

text \<open>Writing through the reference or pointer the source gets from \<open>touch\<close> or \<open>at\<close>.\<close>

definition upd_level :: "Ladder \<Rightarrow> Ticks \<Rightarrow> (Level \<Rightarrow> Level) \<Rightarrow> Ladder" where
  "upd_level L p f = L\<lparr>levels := (levels L)[index L p := f (levels L ! index L p)]\<rparr>"

definition on_added :: "Ladder \<Rightarrow> Ticks \<Rightarrow> Ladder" where
  "on_added L p = (if best_valid L \<and> better L p (best_price L) then L\<lparr>best_price := p\<rparr> else L)"

definition on_removed :: "Ladder \<Rightarrow> Ticks \<Rightarrow> Ladder" where
  "on_removed L p = (if best_valid L \<and> p = best_price L then L\<lparr>best_valid := False\<rparr> else L)"

text \<open>The two scan directions of the source's loops over the levels, with a test on a level.\<close>

definition scan_up :: "(Level \<Rightarrow> bool) \<Rightarrow> Ladder \<Rightarrow> nat option" where
  "scan_up P L = find (\<lambda>i. P (levels L ! i)) [0..<length (levels L)]"

definition scan_down :: "(Level \<Rightarrow> bool) \<Rightarrow> Ladder \<Rightarrow> nat option" where
  "scan_down P L = find (\<lambda>i. P (levels L ! i)) (rev [0..<length (levels L)])"

definition price_of :: "Ladder \<Rightarrow> nat option \<Rightarrow> Ticks option" where
  "price_of L i = map_option (\<lambda>i. base L + int i) i"

definition ladder_best :: "Ladder \<Rightarrow> Ticks option \<times> Ladder" where
  "ladder_best L =
     (if best_valid L then (Some (best_price L), L)
      else if \<not> has_base L then (None, L)
      else (case price_of L (if l_side L = Buy then scan_down (\<lambda>l. total l > 0) L
                             else scan_up (\<lambda>l. total l > 0) L) of
              None \<Rightarrow> (None, L)
            | Some p \<Rightarrow> (Some p, L\<lparr>best_price := p, best_valid := True\<rparr>)))"

definition populated_count :: "Ladder \<Rightarrow> nat" where
  "populated_count L = length (filter (\<lambda>l. total l > 0) (levels L))"

definition worst_price :: "Ladder \<Rightarrow> Ticks option" where
  "worst_price L =
     (if \<not> has_base L then None
      else price_of L (if l_side L = Buy then scan_up (\<lambda>l. total l > 0) L
                       else scan_down (\<lambda>l. total l > 0) L))"

text \<open>The prices of the ladder from the best end outward: the order of the matcher's loops.\<close>

definition walk_prices :: "Ladder \<Rightarrow> Ticks list" where
  "walk_prices L =
     (let is = [0..<length (levels L)]
      in map (\<lambda>i. base L + int i) (if l_side L = Sell then is else rev is))"

subsection \<open>The abstraction: the level at a price\<close>

definition level_at :: "Ladder \<Rightarrow> Ticks \<Rightarrow> Level" where
  "level_at L p = (case ladder_at L p of None \<Rightarrow> empty_Level | Some l \<Rightarrow> l)"

definition ladder_ok :: "Ladder \<Rightarrow> bool" where
  "ladder_ok L \<longleftrightarrow> (has_base L \<longleftrightarrow> levels L \<noteq> [])"

definition is_best :: "Ladder \<Rightarrow> Ticks \<Rightarrow> bool" where
  "is_best L p \<longleftrightarrow> 0 < total (level_at L p) \<and> (\<forall>q. 0 < total (level_at L q) \<longrightarrow> \<not> better L q p)"

definition cache_ok :: "Ladder \<Rightarrow> bool" where
  "cache_ok L \<longleftrightarrow> (best_valid L \<longrightarrow> is_best L (best_price L))"

lemma empty_Level_simps [simp]:
  "total empty_Level = 0" "displayed empty_Level = 0" "fifo empty_Level = []"
  by (simp_all add: empty_Level_def)

lemma ladder_at_eq: "covers L p \<Longrightarrow> ladder_at L p = Some (level_at L p)"
  by (simp add: ladder_at_def level_at_def)

lemma ladder_at_None: "\<not> covers L p \<Longrightarrow> ladder_at L p = None \<and> level_at L p = empty_Level"
  by (simp add: ladder_at_def level_at_def)

lemma level_at_covered: "covers L p \<Longrightarrow> level_at L p = levels L ! index L p"
  by (simp add: level_at_def ladder_at_def)

lemma covers_if_level: "level_at L p \<noteq> empty_Level \<Longrightarrow> covers L p"
  using ladder_at_None by blast

lemma covers_if_total: "0 < total (level_at L p) \<Longrightarrow> covers L p"
  by (rule covers_if_level) auto

lemma covers_if_fifo: "x \<in> set (fifo (level_at L p)) \<Longrightarrow> covers L p"
  by (rule covers_if_level) auto

lemma new_Ladder_ok [simp]: "ladder_ok (new_Ladder s)" "cache_ok (new_Ladder s)"
    "level_at (new_Ladder s) p = empty_Level" "l_side (new_Ladder s) = s"
  by (simp_all add: new_Ladder_def ladder_ok_def cache_ok_def level_at_def ladder_at_def covers_def)

subsection \<open>touch and upd\_level through the abstraction\<close>

lemma touch_ok: "ladder_ok L \<Longrightarrow> ladder_ok (touch L p)"
  by (auto simp: ladder_ok_def touch_def)

lemma covers_touch: "ladder_ok L \<Longrightarrow> covers (touch L p) p"
  by (auto simp: covers_def touch_def)

lemma level_at_touch:
  assumes "ladder_ok L"
  shows "level_at (touch L p) q = level_at L q"
proof (cases "has_base L")
  case False
  with assms show ?thesis
    by (auto simp: touch_def level_at_def ladder_at_def covers_def index_def ladder_ok_def)
next
  case True
  consider (low) "p < base L" | (high) "p \<ge> base L + int (length (levels L))"
    | (mid) "base L \<le> p" "p < base L + int (length (levels L))" by linarith
  then show ?thesis
  proof cases
    case low
    have "nat (q - p) - nat (base L - p) = nat (q - base L)" if "base L \<le> q"
      using low that by simp
    with True low show ?thesis
      by (auto simp: touch_def level_at_def ladder_at_def covers_def index_def nth_append)
  next
    case high
    then have "\<not> p < base L" using of_nat_0_le_iff [of "length (levels L)"] by linarith
    with True high show ?thesis
      by (auto simp: touch_def level_at_def ladder_at_def covers_def index_def nth_append)
  next
    case mid
    with True show ?thesis by (simp add: touch_def)
  qed
qed

lemma touch_frame [frame_simps]:
  "l_side (touch L p) = l_side L" "best_valid (touch L p) = best_valid L"
  "best_price (touch L p) = best_price L"
  by (simp_all add: touch_def)

lemma upd_level_frame [frame_simps]:
  "l_side (upd_level L p f) = l_side L" "best_valid (upd_level L p f) = best_valid L"
  "best_price (upd_level L p f) = best_price L" "base (upd_level L p f) = base L"
  "has_base (upd_level L p f) = has_base L"
  "length (levels (upd_level L p f)) = length (levels L)"
  by (simp_all add: upd_level_def)

lemma covers_upd_level [simp]: "covers (upd_level L p f) q = covers L q"
  by (simp add: covers_def frame_simps)

lemma upd_level_ok: "ladder_ok L \<Longrightarrow> ladder_ok (upd_level L p f)"
  by (simp add: ladder_ok_def upd_level_def)

lemma level_at_upd_level:
  assumes "covers L p"
  shows "level_at (upd_level L p f) q = (if q = p then f (level_at L p) else level_at L q)"
proof (cases "covers L q")
  case True
  have "index L q = index L p \<longleftrightarrow> q = p" "index L p < length (levels L)"
    using assms True by (auto simp: covers_def index_def)
  with True assms show ?thesis
    by (auto simp: level_at_def ladder_at_def frame_simps upd_level_def index_def covers_def)
next
  case False
  with assms have "q \<noteq> p" by auto
  with False show ?thesis by (simp add: level_at_def ladder_at_def)
qed

text \<open>The contract of a price-indexed collection of levels.\<close>

locale price_levels =
  fixes at_price :: "'l \<Rightarrow> Ticks \<Rightarrow> Level"
    and grow :: "'l \<Rightarrow> Ticks \<Rightarrow> 'l"
    and modify :: "'l \<Rightarrow> Ticks \<Rightarrow> (Level \<Rightarrow> Level) \<Rightarrow> 'l"
    and covered :: "'l \<Rightarrow> Ticks \<Rightarrow> bool"
    and ok :: "'l \<Rightarrow> bool"
  assumes at_grow: "ok L \<Longrightarrow> at_price (grow L p) q = at_price L q"
    and covered_grow: "ok L \<Longrightarrow> covered (grow L p) p"
    and ok_grow: "ok L \<Longrightarrow> ok (grow L p)"
    and at_modify: "covered L p \<Longrightarrow>
          at_price (modify L p f) q = (if q = p then f (at_price L p) else at_price L q)"
    and ok_modify: "ok L \<Longrightarrow> ok (modify L p f)"
    and uncovered: "\<not> covered L p \<Longrightarrow> at_price L p = empty_Level"
begin

text \<open>Growing to a price and writing there is a point update, whatever was covered before.\<close>

lemma at_put: "ok L \<Longrightarrow> at_price (modify (grow L p) p f) = (at_price L)(p := f (at_price L p))"
  by (rule ext) (simp add: at_modify covered_grow at_grow)

lemma ok_put: "ok L \<Longrightarrow> ok (modify (grow L p) p f)"
  by (simp add: ok_grow ok_modify)

lemma at_set: "covered L p \<Longrightarrow> at_price (modify L p f) = (at_price L)(p := f (at_price L p))"
  by (rule ext) (simp add: at_modify)

lemma covered_nonempty: "at_price L p \<noteq> empty_Level \<Longrightarrow> covered L p"
  using uncovered by blast

end

interpretation ladder: price_levels level_at touch upd_level covers ladder_ok
  by unfold_locales
    (simp_all add: level_at_touch covers_touch touch_ok level_at_upd_level upd_level_ok ladder_at_None)

subsection \<open>The best-price cache\<close>

lemma better_frame [frame_simps]:
  "better (touch L p) = better L" "better (upd_level L p f) = better L"
  by (simp_all add: better_def fun_eq_iff frame_simps)

lemma level_at_cache [simp]:
  "level_at (L\<lparr>best_price := a\<rparr>) q = level_at L q"
  "level_at (L\<lparr>best_valid := v\<rparr>) q = level_at L q"
  "level_at (L\<lparr>best_price := a, best_valid := v\<rparr>) q = level_at L q"
  by (simp_all add: level_at_def ladder_at_def covers_def index_def)

lemma on_added_frame [frame_simps]:
  "level_at (on_added L p) = level_at L" "l_side (on_added L p) = l_side L"
  "ladder_ok (on_added L p) = ladder_ok L" "covers (on_added L p) q = covers L q"
  by (auto simp: on_added_def fun_eq_iff ladder_ok_def covers_def)

lemma on_removed_frame [frame_simps]:
  "level_at (on_removed L p) = level_at L" "l_side (on_removed L p) = l_side L"
  "ladder_ok (on_removed L p) = ladder_ok L" "covers (on_removed L p) q = covers L q"
  by (auto simp: on_removed_def fun_eq_iff ladder_ok_def covers_def)

lemma price_of_scan_up:
  "price_of L (scan_up P L) = None \<longleftrightarrow> (\<forall>i < length (levels L). \<not> P (levels L ! i))"
  "price_of L (scan_up P L) = Some p \<Longrightarrow> \<exists>i < length (levels L). p = base L + int i \<and>
     P (levels L ! i) \<and> (\<forall>j < i. \<not> P (levels L ! j))"
  by (auto simp: price_of_def scan_up_def find_None_iff find_Some_iff)

lemma rev_upt_nth: "i < n \<Longrightarrow> rev [0..<n] ! i = n - Suc i"
  by (simp add: rev_nth)

lemma price_of_scan_down:
  "price_of L (scan_down P L) = None \<longleftrightarrow> (\<forall>i < length (levels L). \<not> P (levels L ! i))"
  "price_of L (scan_down P L) = Some p \<Longrightarrow> \<exists>i < length (levels L). p = base L + int i \<and>
     P (levels L ! i) \<and> (\<forall>j. i < j \<and> j < length (levels L) \<longrightarrow> \<not> P (levels L ! j))"
proof -
  show "price_of L (scan_down P L) = None \<longleftrightarrow> (\<forall>i < length (levels L). \<not> P (levels L ! i))"
    by (auto simp: price_of_def scan_down_def find_None_iff)
next
  let ?n = "length (levels L)"
  assume "price_of L (scan_down P L) = Some p"
  then obtain k where k: "k < ?n" "P (levels L ! (?n - Suc k))" "p = base L + int (?n - Suc k)"
    and first: "\<forall>j < k. \<not> P (levels L ! (?n - Suc j))"
    by (fastforce simp: price_of_def scan_down_def find_Some_iff rev_upt_nth)
  have "\<not> P (levels L ! j)" if "?n - Suc k < j" "j < ?n" for j
  proof -
    have "?n - Suc j < k" "?n - Suc (?n - Suc j) = j" using that k(1) by auto
    with first show ?thesis by metis
  qed
  with k show "\<exists>i < ?n. p = base L + int i \<and> P (levels L ! i) \<and>
      (\<forall>j. i < j \<and> j < ?n \<longrightarrow> \<not> P (levels L ! j))"
    by (intro exI [of _ "?n - Suc k"]) auto
qed

lemma level_at_index: "has_base L \<Longrightarrow> i < length (levels L) \<Longrightarrow> level_at L (base L + int i) = levels L ! i"
  by (simp add: level_at_def ladder_at_def covers_def index_def)

lemma covers_index:
  assumes "covers L p"
  obtains i where "i < length (levels L)" "p = base L + int i" "level_at L p = levels L ! i" "has_base L"
proof (rule that [of "index L p"])
  show "index L p < length (levels L)" "p = base L + int (index L p)"
    "level_at L p = levels L ! index L p" "has_base L"
    using assms by (auto simp: covers_def index_def level_at_covered)
qed

lemma scan_up_spec:
  assumes "has_base L" "\<not> P empty_Level"
  shows "case price_of L (scan_up P L) of None \<Rightarrow> \<forall>q. \<not> P (level_at L q)
     | Some p \<Rightarrow> P (level_at L p) \<and> (\<forall>q. P (level_at L q) \<longrightarrow> p \<le> q)"
proof (cases "price_of L (scan_up P L)")
  case None
  then have "\<forall>i < length (levels L). \<not> P (levels L ! i)" by (simp only: price_of_scan_up)
  then have "\<not> P (level_at L q)" for q
    using assms by (cases "covers L q") (auto elim!: covers_index simp: ladder_at_None)
  with None show ?thesis by simp
next
  case (Some p)
  from price_of_scan_up(2) [OF this] obtain i where i: "i < length (levels L)"
    "p = base L + int i" "P (levels L ! i)" "\<forall>j < i. \<not> P (levels L ! j)" by blast
  have "p \<le> q" if "P (level_at L q)" for q
  proof -
    from that assms(2) have "covers L q" using ladder_at_None by metis
    then obtain j where "j < length (levels L)" "q = base L + int j" "level_at L q = levels L ! j"
      by (rule covers_index)
    with that i(2,4) show ?thesis by (metis add_left_mono not_less of_nat_le_iff)
  qed
  with Some i assms(1) show ?thesis by (simp add: level_at_index)
qed

lemma scan_down_spec:
  assumes "has_base L" "\<not> P empty_Level"
  shows "case price_of L (scan_down P L) of None \<Rightarrow> \<forall>q. \<not> P (level_at L q)
     | Some p \<Rightarrow> P (level_at L p) \<and> (\<forall>q. P (level_at L q) \<longrightarrow> q \<le> p)"
proof (cases "price_of L (scan_down P L)")
  case None
  then have "\<forall>i < length (levels L). \<not> P (levels L ! i)" by (simp only: price_of_scan_down)
  then have "\<not> P (level_at L q)" for q
    using assms by (cases "covers L q") (auto elim!: covers_index simp: ladder_at_None)
  with None show ?thesis by simp
next
  case (Some p)
  from price_of_scan_down(2) [OF this] obtain i where i: "i < length (levels L)"
    "p = base L + int i" "P (levels L ! i)"
    "\<forall>j. i < j \<and> j < length (levels L) \<longrightarrow> \<not> P (levels L ! j)" by blast
  have "q \<le> p" if "P (level_at L q)" for q
  proof -
    from that assms(2) have "covers L q" using ladder_at_None by metis
    then obtain j where "j < length (levels L)" "q = base L + int j" "level_at L q = levels L ! j"
      by (rule covers_index)
    with that i(2,4) show ?thesis by (metis add_left_mono not_less of_nat_le_iff)
  qed
  with Some i assms(1) show ?thesis by (simp add: level_at_index)
qed

lemma no_base_level: "ladder_ok L \<Longrightarrow> \<not> has_base L \<Longrightarrow> level_at L q = empty_Level"
  by (simp add: ladder_at_None covers_def)

text \<open>The cached lookup refines the abstract best price, and reading it changes no level.\<close>

lemma ladder_best_spec:
  assumes "ladder_ok L" "cache_ok L"
  shows "case fst (ladder_best L) of None \<Rightarrow> \<forall>q. \<not> 0 < total (level_at L q) | Some p \<Rightarrow> is_best L p"
proof (cases "best_valid L \<or> \<not> has_base L")
  case True
  with assms show ?thesis by (auto simp: ladder_best_def cache_ok_def no_base_level)
next
  case False
  with scan_up_spec [of L "\<lambda>l. 0 < total l"] scan_down_spec [of L "\<lambda>l. 0 < total l"] show ?thesis
    by (auto simp: ladder_best_def is_best_def better_def split: option.splits if_splits)
qed

lemma ladder_best_frame [frame_simps]:
  "level_at (snd (ladder_best L)) = level_at L" "l_side (snd (ladder_best L)) = l_side L"
  "ladder_ok (snd (ladder_best L)) = ladder_ok L"
  by (auto simp: ladder_best_def fun_eq_iff ladder_ok_def split: option.splits)

lemma is_best_cong: "level_at L' = level_at L \<Longrightarrow> l_side L' = l_side L \<Longrightarrow> is_best L' p = is_best L p"
  by (simp add: is_best_def better_def)

lemma ladder_best_cache_ok:
  assumes "ladder_ok L" "cache_ok L"
  shows "cache_ok (snd (ladder_best L))"
proof -
  have "best_valid (snd (ladder_best L)) \<longrightarrow> fst (ladder_best L) = Some (best_price (snd (ladder_best L)))"
    by (simp add: ladder_best_def split: option.splits)
  with ladder_best_spec [OF assms] show ?thesis
    by (auto simp: cache_ok_def is_best_cong [OF ladder_best_frame(1,2)])
qed

lemma worst_price_spec:
  assumes "ladder_ok L"
  shows "case worst_price L of None \<Rightarrow> \<forall>q. \<not> 0 < total (level_at L q)
     | Some p \<Rightarrow> 0 < total (level_at L p) \<and> (\<forall>q. 0 < total (level_at L q) \<longrightarrow> \<not> better L p q)"
proof (cases "has_base L")
  case True
  with scan_up_spec [of L "\<lambda>l. 0 < total l"] scan_down_spec [of L "\<lambda>l. 0 < total l"] show ?thesis
    by (auto simp: worst_price_def better_def split: option.splits if_splits)
qed (use assms in \<open>simp add: worst_price_def no_base_level\<close>)

text \<open>A level gains quantity and the cache is told.\<close>

lemma cache_ok_added:
  assumes "cache_ok L" "l_side L' = l_side L" "best_valid L' = best_valid L" "best_price L' = best_price L"
    and "\<And>q. q \<noteq> p \<Longrightarrow> level_at L' q = level_at L q" "0 < total (level_at L' p)"
  shows "cache_ok (on_added L' p)"
  using assms by (auto simp: cache_ok_def is_best_def on_added_def better_def split: if_splits)
    metis+

text \<open>A level loses quantity and, when it runs empty, the cache is told.\<close>

lemma cache_ok_reduced:
  assumes "cache_ok L" "l_side L' = l_side L" "best_valid L' = best_valid L" "best_price L' = best_price L"
    and "\<And>q. q \<noteq> p \<Longrightarrow> level_at L' q = level_at L q" "total (level_at L' p) \<le> total (level_at L p)"
    and "0 \<le> total (level_at L' p)"
  shows "cache_ok (if total (level_at L' p) = 0 then on_removed L' p else L')"
proof (cases "best_valid L \<and> p = best_price L \<and> total (level_at L' p) = 0")
  case True
  then have "\<not> best_valid (on_removed L' p)" using assms(3,4) by (simp add: on_removed_def)
  with True show ?thesis by (auto simp: cache_ok_def)
next
  case False
  have best: "is_best L' (best_price L)" if valid: "best_valid L"
  proof -
    have b: "is_best L (best_price L)" using assms(1) valid by (simp add: cache_ok_def)
    have "0 < total (level_at L' (best_price L))"
      using False valid b assms(5) [of "best_price L"] assms(7)
      by (cases "best_price L = p") (auto simp: is_best_def)
    moreover have "\<not> better L q (best_price L)" if "0 < total (level_at L' q)" for q
      using b that assms(5) [of q] assms(6) by (cases "q = p") (auto simp: is_best_def)
    ultimately show ?thesis using assms(2) by (simp add: is_best_def better_def)
  qed
  show ?thesis
    using False best assms(3,4) by (auto simp: cache_ok_def on_removed_def)
qed

subsection \<open>The matcher's walk\<close>

lemma set_walk_prices: "has_base L \<Longrightarrow> set (walk_prices L) = {p. covers L p}"
proof (intro set_eqI iffI)
  fix p assume "has_base L" "p \<in> {p. covers L p}"
  then obtain i where "i < length (levels L)" "p = base L + int i" by (auto elim: covers_index)
  then show "p \<in> set (walk_prices L)" by (auto simp: walk_prices_def Let_def)
qed (auto simp: walk_prices_def Let_def covers_def split: if_splits)

lemma walk_prices_sorted: "sorted_wrt (better L) (walk_prices L)"
proof -
  have up: "sorted_wrt (\<lambda>a b. a < b) (map (\<lambda>i. base L + int i) [0..<length (levels L)])"
    by (simp add: sorted_wrt_map)
  then have "sorted_wrt (\<lambda>a b. a > b) (map (\<lambda>i. base L + int i) (rev [0..<length (levels L)]))"
    by (simp only: rev_map [symmetric] sorted_wrt_rev)
  with up show ?thesis
    by (cases "l_side L") (simp_all add: walk_prices_def better_def [abs_def] Let_def)
qed

lemma walk_prices_cong:
  "l_side L' = l_side L \<Longrightarrow> base L' = base L \<Longrightarrow> length (levels L') = length (levels L) \<Longrightarrow>
   walk_prices L' = walk_prices L"
  by (simp add: walk_prices_def)

lemma is_best_unique: "is_best L q \<Longrightarrow> is_best L p \<Longrightarrow> p = q"
  by (auto simp: is_best_def better_def split: if_splits) (metis linorder_neqE_linordered_idom)+

lemma ladder_best_iff:
  assumes "ladder_ok L" "cache_ok L"
  shows "fst (ladder_best L) = Some p \<longleftrightarrow> is_best L p"
  using ladder_best_spec [OF assms] is_best_unique by (auto simp: is_best_def split: option.splits)

subsection \<open>Properties\<close>


definition sample_ladder :: Ladder where
  "sample_ladder = upd_level (touch (touch (new_Ladder Sell) 103) 100) 101
     (\<lambda>l. l\<lparr>total := 5, fifo := [7]\<rparr>)"


end
