(* ===== verification/Book.thy ===== *)
theory Book
  imports Ladder
begin

section \<open>The state of one order book (core/order\_book.cc: OrderBook::Impl)\<close>

text \<open>
  \<open>Book\<close> is \<open>OrderBook::Impl\<close>: the two ladders, the resting orders by id, the parked
  stops, the pegged ids, the contingent groups, the reduce-only positions, the auction
  queues and the deep-liquidity summary. \<open>Entry::pos\<close>, the list iterator of an order in
  its level, is implicit: ids are distinct within a level, so erasing at \<open>pos\<close> is removing
  the id. The event sink is a callback: the model keeps whether one is set and the log of
  the calls made to it. The theory has the small operations of \<open>Impl\<close> (events, positions,
  requeueing), the insertion and removal of one resting order, and the invariant
  \<open>book_core\<close> that ties the id table, the level queues and the level totals together.
\<close>

record Entry =
  e_order :: Order
  slice :: Quantity

record Group =
  parent :: OrderId
  oco_legs :: "OrderId list"
  pending_child :: "Order option"
  pending_oco :: "Order list"

record Position =
  net :: Quantity
  reserved_sell :: Quantity
  reserved_buy :: Quantity

record Deep =
  d_has :: bool
  d_boundary :: Ticks

record Book =
  bids :: Ladder
  asks :: Ladder
  orders :: "(OrderId \<times> Entry) list"
  stops :: "(OrderId \<times> Order) list"
  pegged :: "OrderId list"
  groups :: "(nat \<times> Group) list"
  order_group :: "OrderId \<rightharpoonup> nat"
  positions :: "ClientId \<rightharpoonup> Position"
  opening_auction :: "Order list"
  closing_auction :: "Order list"
  mem_levels :: nat
  deep_bid :: Deep
  deep_ask :: Deep
  next_seq :: SeqNo
  stp :: StpPolicy
  have_last :: bool
  last_price :: Ticks
  book_symbol :: Symbol
  event_sink :: bool
  requeued :: "Order list"
  events :: "BookEvent list"

definition new_Book :: "StpPolicy \<Rightarrow> nat \<Rightarrow> Book" where
  "new_Book policy n = \<lparr>bids = new_Ladder Buy, asks = new_Ladder Sell, orders = [], stops = [],
     pegged = [], groups = [], order_group = Map.empty, positions = Map.empty,
     opening_auction = [], closing_auction = [], mem_levels = n,
     deep_bid = \<lparr>d_has = False, d_boundary = 0\<rparr>, deep_ask = \<lparr>d_has = False, d_boundary = 0\<rparr>,
     next_seq = 1, stp = policy, have_last = False, last_price = 0, book_symbol = '''',
     event_sink = False, requeued = [], events = []\<rparr>"

definition new_Group :: Group where
  "new_Group = \<lparr>parent = 0, oco_legs = [], pending_child = None, pending_oco = []\<rparr>"

definition new_Position :: Position where
  "new_Position = \<lparr>net = 0, reserved_sell = 0, reserved_buy = 0\<rparr>"

subsection \<open>Ladders and levels of a book\<close>

definition ladder :: "Book \<Rightarrow> Side \<Rightarrow> Ladder" where
  "ladder b s = (if s = Buy then bids b else asks b)"

definition upd_ladder :: "Book \<Rightarrow> Side \<Rightarrow> (Ladder \<Rightarrow> Ladder) \<Rightarrow> Book" where
  "upd_ladder b s f = (if s = Buy then b\<lparr>bids := f (bids b)\<rparr> else b\<lparr>asks := f (asks b)\<rparr>)"

definition lvl :: "Book \<Rightarrow> Side \<Rightarrow> Ticks \<Rightarrow> Level" where
  "lvl b s = level_at (ladder b s)"

definition deep_of :: "Book \<Rightarrow> Side \<Rightarrow> Deep" where
  "deep_of b s = (if s = Buy then deep_bid b else deep_ask b)"

definition shown :: "Entry \<Rightarrow> Quantity" where
  "shown e = DisplayedOf (flags (e_order e)) (leaves (e_order e)) (slice e)"

subsection \<open>Events and requeueing\<close>

definition requeue_rank :: "Order \<Rightarrow> Book \<Rightarrow> Order" where
  "requeue_rank order b = order\<lparr>rank := next_seq b\<rparr>"

definition requeue :: "Order \<Rightarrow> Book \<Rightarrow> Book" where
  "requeue order b = b\<lparr>next_seq := next_seq b + 1, requeued := requeued b @ [requeue_rank order b]\<rparr>"

definition on_book_event :: "BookEvent \<Rightarrow> Book \<Rightarrow> Book" where
  "on_book_event ev b = (if event_sink b then b\<lparr>events := events b @ [ev]\<rparr> else b)"

definition order_event :: "BookEventType \<Rightarrow> Symbol \<Rightarrow> Order \<Rightarrow> Quantity \<Rightarrow> Quantity \<Rightarrow> BookEvent" where
  "order_event ty sy order q d =
     \<lparr>ev_seq = 0, ev_symbol = sy, ev_type = ty, ev_order_id = oid order,
      ev_taker_id = 0, ev_side = side order, ev_price = price order, ev_prev_price = 0,
      ev_qty = q, ev_displayed = d\<rparr>"

definition trade_event :: "Symbol \<Rightarrow> Trade \<Rightarrow> Quantity \<Rightarrow> BookEvent" where
  "trade_event sy t d =
     \<lparr>ev_seq = 0, ev_symbol = sy, ev_type = kTrade, ev_order_id = maker_id t,
      ev_taker_id = taker_id t, ev_side = taker_side t, ev_price = t_price t, ev_prev_price = 0,
      ev_qty = t_qty t, ev_displayed = d\<rparr>"

definition reprice_event :: "Symbol \<Rightarrow> Order \<Rightarrow> Ticks \<Rightarrow> Ticks \<Rightarrow> Quantity \<Rightarrow> Quantity \<Rightarrow> BookEvent" where
  "reprice_event sy order old_price new_price q d =
     \<lparr>ev_seq = 0, ev_symbol = sy, ev_type = kReprice, ev_order_id = oid order,
      ev_taker_id = 0, ev_side = side order, ev_price = new_price, ev_prev_price = old_price,
      ev_qty = q, ev_displayed = d\<rparr>"

definition emit_event :: "BookEventType \<Rightarrow> Order \<Rightarrow> Quantity \<Rightarrow> Quantity \<Rightarrow> Book \<Rightarrow> Book" where
  "emit_event ty order q d b = on_book_event (order_event ty (book_symbol b) order q d) b"

definition emit_trade :: "Trade \<Rightarrow> Quantity \<Rightarrow> Book \<Rightarrow> Book" where
  "emit_trade t d b = on_book_event (trade_event (book_symbol b) t d) b"

definition emit_reprice :: "Order \<Rightarrow> Ticks \<Rightarrow> Ticks \<Rightarrow> Quantity \<Rightarrow> Quantity \<Rightarrow> Book \<Rightarrow> Book" where
  "emit_reprice order old_price new_price q d b =
     on_book_event (reprice_event (book_symbol b) order old_price new_price q d) b"

subsection \<open>Positions and reduce-only reservations\<close>

definition is_reduce_only :: "Order \<Rightarrow> bool" where
  "is_reduce_only order = HasFlag (flags order) kReduceOnly"

definition position_of :: "Book \<Rightarrow> ClientId \<Rightarrow> Position" where
  "position_of b c = (case positions b c of None \<Rightarrow> new_Position | Some p \<Rightarrow> p)"

definition apply_position :: "ClientId \<Rightarrow> Side \<Rightarrow> Quantity \<Rightarrow> Book \<Rightarrow> Book" where
  "apply_position c s q b =
     (if c = 0 then b
      else let p = position_of b c
           in b\<lparr>positions := (positions b)(c \<mapsto> p\<lparr>net := net p + (if s = Buy then q else - q)\<rparr>)\<rparr>)"

definition reserved_on :: "Position \<Rightarrow> Side \<Rightarrow> Quantity" where
  "reserved_on p s = (if s = Sell then reserved_sell p else reserved_buy p)"

definition add_reserved :: "Side \<Rightarrow> Quantity \<Rightarrow> Position \<Rightarrow> Position" where
  "add_reserved s q p =
     (if s = Sell then p\<lparr>reserved_sell := reserved_sell p + q\<rparr>
      else p\<lparr>reserved_buy := reserved_buy p + q\<rparr>)"

definition release_reserved :: "Order \<Rightarrow> Quantity \<Rightarrow> Book \<Rightarrow> Book" where
  "release_reserved order q b =
     (if \<not> is_reduce_only order \<or> client_id order = 0 then b
      else case positions b (client_id order) of
             None \<Rightarrow> b
           | Some p \<Rightarrow> b\<lparr>positions := (positions b)(client_id order \<mapsto> add_reserved (side order) (- q) p)\<rparr>)"

definition reserve :: "Order \<Rightarrow> Book \<Rightarrow> Book" where
  "reserve order b =
     (if is_reduce_only order \<and> client_id order \<noteq> 0
      then b\<lparr>positions := (positions b)(client_id order \<mapsto>
              add_reserved (side order) (leaves order) (position_of b (client_id order)))\<rparr>
      else b)"

definition reduce_only_capacity :: "Order \<Rightarrow> Book \<Rightarrow> Quantity" where
  "reduce_only_capacity order b =
     (case positions b (client_id order) of
        None \<Rightarrow> 0
      | Some p \<Rightarrow> if side order = Sell then net p - reserved_sell p else - net p - reserved_buy p)"

subsection \<open>Writing to one level, and one resting order in or out\<close>

definition upd_lvl :: "Book \<Rightarrow> Side \<Rightarrow> Ticks \<Rightarrow> (Level \<Rightarrow> Level) \<Rightarrow> Book" where
  "upd_lvl b s p f = upd_ladder b s (\<lambda>L. upd_level L p f)"

definition lvl_push :: "OrderId \<Rightarrow> Quantity \<Rightarrow> Quantity \<Rightarrow> Level \<Rightarrow> Level" where
  "lvl_push i q d l = l\<lparr>fifo := fifo l @ [i], total := total l + q, displayed := displayed l + d\<rparr>"

definition lvl_drop :: "OrderId \<Rightarrow> Quantity \<Rightarrow> Quantity \<Rightarrow> Level \<Rightarrow> Level" where
  "lvl_drop i q d l = l\<lparr>fifo := filter (\<lambda>j. j \<noteq> i) (fifo l), total := total l - q, displayed := displayed l - d\<rparr>"

definition initial_slice :: "Order \<Rightarrow> Quantity" where
  "initial_slice order =
     (if HasFlag (flags order) kIceberg then min (display_qty order) (leaves order) else 0)"

text \<open>
  \<open>touch\<close>, the push to the back of the queue, the totals, \<open>on_added\<close> and the entry:
  the statements \<open>rest\<close> and \<open>insert_resident\<close> share.
\<close>

definition place :: "Order \<Rightarrow> Book \<Rightarrow> Book" where
  "place order b =
     (let s = side order; p = price order; sl = initial_slice order;
          d = DisplayedOf (flags order) (leaves order) sl;
          b1 = upd_ladder b s (\<lambda>L. on_added (upd_level (touch L p) p (lvl_push (oid order) (leaves order) d)) p)
      in b1\<lparr>orders := emplace (oid order) \<lparr>e_order = order, slice = sl\<rparr> (orders b1)\<rparr>)"

text \<open>
  The level loses the order and the best cache is invalidated when the level runs empty:
  the statements \<open>cancel\<close> and \<open>move_pegged\<close> share.
\<close>

definition unlink_level :: "Entry \<Rightarrow> Ladder \<Rightarrow> Ladder" where
  "unlink_level e L =
     (let p = price (e_order e)
      in case ladder_at L p of
           None \<Rightarrow> L
         | Some _ \<Rightarrow>
             let L1 = upd_level L p (lvl_drop (oid (e_order e)) (leaves (e_order e)) (shown e))
             in if total (level_at L1 p) = 0 then on_removed L1 p else L1)"

subsection \<open>The invariant of the id table and the levels\<close>

definition lvl_ok :: "(OrderId \<rightharpoonup> Entry) \<Rightarrow> Side \<Rightarrow> Ticks \<Rightarrow> Level \<Rightarrow> bool" where
  "lvl_ok m s p l \<longleftrightarrow>
     distinct (fifo l)
     \<and> (\<forall>i. i \<in> set (fifo l) \<longleftrightarrow> (\<exists>e. m i = Some e \<and> side (e_order e) = s \<and> price (e_order e) = p))
     \<and> total l = (\<Sum>i\<leftarrow>fifo l. leaves (e_order (the (m i))))
     \<and> displayed l = (\<Sum>i\<leftarrow>fifo l. shown (the (m i)))"

definition lvls_ok :: "(OrderId \<rightharpoonup> Entry) \<Rightarrow> Side \<Rightarrow> (Ticks \<Rightarrow> Level) \<Rightarrow> bool" where
  "lvls_ok m s F \<longleftrightarrow> (\<forall>p. lvl_ok m s p (F p))"

definition admissible :: "Order \<Rightarrow> bool" where
  "admissible order \<longleftrightarrow>
     (HasFlag (flags order) kIceberg \<longrightarrow> 0 < display_qty order \<and> \<not> HasFlag (flags order) kHidden)"

definition entry_ok :: "OrderId \<Rightarrow> Entry \<Rightarrow> bool" where
  "entry_ok i e \<longleftrightarrow> oid (e_order e) = i \<and> 0 < leaves (e_order e) \<and> admissible (e_order e)
     \<and> (if HasFlag (flags (e_order e)) kIceberg then 0 < slice e \<and> slice e \<le> leaves (e_order e)
        else slice e = 0)"

definition pending_orders :: "Book \<Rightarrow> Order list" where
  "pending_orders b = concat (map (\<lambda>(gid, g).
     (case pending_child g of None \<Rightarrow> [] | Some c \<Rightarrow> [c]) @ pending_oco g) (groups b))"

definition waiting :: "Book \<Rightarrow> Order list" where
  "waiting b = map snd (stops b) @ opening_auction b @ closing_auction b @ pending_orders b"

definition pegs_ok :: "(OrderId \<rightharpoonup> Entry) \<Rightarrow> OrderId list \<Rightarrow> bool" where
  "pegs_ok m ids \<longleftrightarrow> (\<forall>i \<in> set ids. \<exists>e. m i = Some e \<and> peg (e_order e) \<noteq> None)"

definition book_core :: "Book \<Rightarrow> bool" where
  "book_core b \<longleftrightarrow>
     (\<forall>s. l_side (ladder b s) = s \<and> ladder_ok (ladder b s) \<and> lvls_ok (map_of (orders b)) s (lvl b s))
     \<and> distinct (map fst (orders b))
     \<and> (\<forall>i e. map_of (orders b) i = Some e \<longrightarrow> entry_ok i e)
     \<and> distinct (pegged b) \<and> pegs_ok (map_of (orders b)) (pegged b)"

definition caches_ok :: "Book \<Rightarrow> bool" where
  "caches_ok b \<longleftrightarrow> (\<forall>s. cache_ok (ladder b s))"

definition pools_ok :: "Book \<Rightarrow> bool" where
  "pools_ok b \<longleftrightarrow>
     (\<forall>order \<in> set (waiting b). 0 < leaves order \<and> admissible order)
     \<and> (\<forall>(i, order) \<in> set (stops b). oid order = i)
     \<and> distinct (map fst (orders b) @ map oid (waiting b))"

definition book_ok :: "Book \<Rightarrow> bool" where
  "book_ok b \<longleftrightarrow> book_core b \<and> caches_ok b \<and> pools_ok b"

subsection \<open>What the small operations leave alone\<close>

lemma upd_ladder_frame [simp]:
  "orders (upd_ladder b s f) = orders b" "stops (upd_ladder b s f) = stops b"
  "pegged (upd_ladder b s f) = pegged b" "groups (upd_ladder b s f) = groups b"
  "order_group (upd_ladder b s f) = order_group b" "positions (upd_ladder b s f) = positions b"
  "opening_auction (upd_ladder b s f) = opening_auction b"
  "closing_auction (upd_ladder b s f) = closing_auction b"
  "mem_levels (upd_ladder b s f) = mem_levels b" "deep_bid (upd_ladder b s f) = deep_bid b"
  "deep_ask (upd_ladder b s f) = deep_ask b" "next_seq (upd_ladder b s f) = next_seq b"
  "stp (upd_ladder b s f) = stp b" "have_last (upd_ladder b s f) = have_last b"
  "last_price (upd_ladder b s f) = last_price b" "book_symbol (upd_ladder b s f) = book_symbol b"
  "event_sink (upd_ladder b s f) = event_sink b" "requeued (upd_ladder b s f) = requeued b"
  "events (upd_ladder b s f) = events b"
  by (simp_all add: upd_ladder_def)

lemma upd_lvl_frame [simp]:
  "orders (upd_lvl b s p f) = orders b" "stops (upd_lvl b s p f) = stops b"
  "pegged (upd_lvl b s p f) = pegged b" "groups (upd_lvl b s p f) = groups b"
  "order_group (upd_lvl b s p f) = order_group b" "positions (upd_lvl b s p f) = positions b"
  "opening_auction (upd_lvl b s p f) = opening_auction b"
  "closing_auction (upd_lvl b s p f) = closing_auction b"
  "mem_levels (upd_lvl b s p f) = mem_levels b" "deep_bid (upd_lvl b s p f) = deep_bid b"
  "deep_ask (upd_lvl b s p f) = deep_ask b" "next_seq (upd_lvl b s p f) = next_seq b"
  "stp (upd_lvl b s p f) = stp b" "have_last (upd_lvl b s p f) = have_last b"
  "last_price (upd_lvl b s p f) = last_price b" "book_symbol (upd_lvl b s p f) = book_symbol b"
  "event_sink (upd_lvl b s p f) = event_sink b" "requeued (upd_lvl b s p f) = requeued b"
  "events (upd_lvl b s p f) = events b"
  by (simp_all add: upd_lvl_def)

lemma on_book_event_frame [simp]:
  "bids (on_book_event ev b) = bids b" "asks (on_book_event ev b) = asks b"
  "orders (on_book_event ev b) = orders b" "stops (on_book_event ev b) = stops b"
  "pegged (on_book_event ev b) = pegged b" "groups (on_book_event ev b) = groups b"
  "order_group (on_book_event ev b) = order_group b"
  "positions (on_book_event ev b) = positions b"
  "opening_auction (on_book_event ev b) = opening_auction b"
  "closing_auction (on_book_event ev b) = closing_auction b"
  "mem_levels (on_book_event ev b) = mem_levels b" "deep_bid (on_book_event ev b) = deep_bid b"
  "deep_ask (on_book_event ev b) = deep_ask b" "next_seq (on_book_event ev b) = next_seq b"
  "stp (on_book_event ev b) = stp b" "have_last (on_book_event ev b) = have_last b"
  "last_price (on_book_event ev b) = last_price b"
  "book_symbol (on_book_event ev b) = book_symbol b"
  "event_sink (on_book_event ev b) = event_sink b" "requeued (on_book_event ev b) = requeued b"
  by (simp_all add: on_book_event_def)

lemma emit_event_frame [simp]:
  "bids (emit_event ty x q d b) = bids b" "asks (emit_event ty x q d b) = asks b"
  "orders (emit_event ty x q d b) = orders b" "stops (emit_event ty x q d b) = stops b"
  "pegged (emit_event ty x q d b) = pegged b" "groups (emit_event ty x q d b) = groups b"
  "order_group (emit_event ty x q d b) = order_group b"
  "positions (emit_event ty x q d b) = positions b"
  "opening_auction (emit_event ty x q d b) = opening_auction b"
  "closing_auction (emit_event ty x q d b) = closing_auction b"
  "mem_levels (emit_event ty x q d b) = mem_levels b"
  "deep_bid (emit_event ty x q d b) = deep_bid b" "deep_ask (emit_event ty x q d b) = deep_ask b"
  "next_seq (emit_event ty x q d b) = next_seq b" "stp (emit_event ty x q d b) = stp b"
  "have_last (emit_event ty x q d b) = have_last b"
  "last_price (emit_event ty x q d b) = last_price b"
  "book_symbol (emit_event ty x q d b) = book_symbol b"
  "event_sink (emit_event ty x q d b) = event_sink b"
  "requeued (emit_event ty x q d b) = requeued b"
  by (simp_all add: emit_event_def)

lemma emit_trade_frame [simp]:
  "bids (emit_trade t d b) = bids b" "asks (emit_trade t d b) = asks b"
  "orders (emit_trade t d b) = orders b" "stops (emit_trade t d b) = stops b"
  "pegged (emit_trade t d b) = pegged b" "groups (emit_trade t d b) = groups b"
  "order_group (emit_trade t d b) = order_group b" "positions (emit_trade t d b) = positions b"
  "opening_auction (emit_trade t d b) = opening_auction b"
  "closing_auction (emit_trade t d b) = closing_auction b"
  "mem_levels (emit_trade t d b) = mem_levels b" "deep_bid (emit_trade t d b) = deep_bid b"
  "deep_ask (emit_trade t d b) = deep_ask b" "next_seq (emit_trade t d b) = next_seq b"
  "stp (emit_trade t d b) = stp b" "have_last (emit_trade t d b) = have_last b"
  "last_price (emit_trade t d b) = last_price b" "book_symbol (emit_trade t d b) = book_symbol b"
  "event_sink (emit_trade t d b) = event_sink b" "requeued (emit_trade t d b) = requeued b"
  by (simp_all add: emit_trade_def)

lemma emit_reprice_frame [simp]:
  "bids (emit_reprice x p p' q d b) = bids b" "asks (emit_reprice x p p' q d b) = asks b"
  "orders (emit_reprice x p p' q d b) = orders b" "stops (emit_reprice x p p' q d b) = stops b"
  "pegged (emit_reprice x p p' q d b) = pegged b" "groups (emit_reprice x p p' q d b) = groups b"
  "order_group (emit_reprice x p p' q d b) = order_group b"
  "positions (emit_reprice x p p' q d b) = positions b"
  "opening_auction (emit_reprice x p p' q d b) = opening_auction b"
  "closing_auction (emit_reprice x p p' q d b) = closing_auction b"
  "mem_levels (emit_reprice x p p' q d b) = mem_levels b"
  "deep_bid (emit_reprice x p p' q d b) = deep_bid b"
  "deep_ask (emit_reprice x p p' q d b) = deep_ask b"
  "next_seq (emit_reprice x p p' q d b) = next_seq b" "stp (emit_reprice x p p' q d b) = stp b"
  "have_last (emit_reprice x p p' q d b) = have_last b"
  "last_price (emit_reprice x p p' q d b) = last_price b"
  "book_symbol (emit_reprice x p p' q d b) = book_symbol b"
  "event_sink (emit_reprice x p p' q d b) = event_sink b"
  "requeued (emit_reprice x p p' q d b) = requeued b"
  by (simp_all add: emit_reprice_def)

lemma apply_position_frame [simp]:
  "bids (apply_position c s q b) = bids b" "asks (apply_position c s q b) = asks b"
  "orders (apply_position c s q b) = orders b" "stops (apply_position c s q b) = stops b"
  "pegged (apply_position c s q b) = pegged b" "groups (apply_position c s q b) = groups b"
  "order_group (apply_position c s q b) = order_group b"
  "opening_auction (apply_position c s q b) = opening_auction b"
  "closing_auction (apply_position c s q b) = closing_auction b"
  "mem_levels (apply_position c s q b) = mem_levels b"
  "deep_bid (apply_position c s q b) = deep_bid b"
  "deep_ask (apply_position c s q b) = deep_ask b"
  "next_seq (apply_position c s q b) = next_seq b" "stp (apply_position c s q b) = stp b"
  "have_last (apply_position c s q b) = have_last b"
  "last_price (apply_position c s q b) = last_price b"
  "book_symbol (apply_position c s q b) = book_symbol b"
  "event_sink (apply_position c s q b) = event_sink b"
  "requeued (apply_position c s q b) = requeued b" "events (apply_position c s q b) = events b"
  by (simp_all add: apply_position_def Let_def)

lemma release_reserved_frame [simp]:
  "bids (release_reserved x q b) = bids b" "asks (release_reserved x q b) = asks b"
  "orders (release_reserved x q b) = orders b" "stops (release_reserved x q b) = stops b"
  "pegged (release_reserved x q b) = pegged b" "groups (release_reserved x q b) = groups b"
  "order_group (release_reserved x q b) = order_group b"
  "opening_auction (release_reserved x q b) = opening_auction b"
  "closing_auction (release_reserved x q b) = closing_auction b"
  "mem_levels (release_reserved x q b) = mem_levels b"
  "deep_bid (release_reserved x q b) = deep_bid b"
  "deep_ask (release_reserved x q b) = deep_ask b"
  "next_seq (release_reserved x q b) = next_seq b" "stp (release_reserved x q b) = stp b"
  "have_last (release_reserved x q b) = have_last b"
  "last_price (release_reserved x q b) = last_price b"
  "book_symbol (release_reserved x q b) = book_symbol b"
  "event_sink (release_reserved x q b) = event_sink b"
  "requeued (release_reserved x q b) = requeued b" "events (release_reserved x q b) = events b"
  by (simp_all add: release_reserved_def split: option.split)

lemma reserve_frame [simp]:
  "bids (reserve x b) = bids b" "asks (reserve x b) = asks b" "orders (reserve x b) = orders b"
  "stops (reserve x b) = stops b" "pegged (reserve x b) = pegged b"
  "groups (reserve x b) = groups b" "order_group (reserve x b) = order_group b"
  "opening_auction (reserve x b) = opening_auction b"
  "closing_auction (reserve x b) = closing_auction b" "mem_levels (reserve x b) = mem_levels b"
  "deep_bid (reserve x b) = deep_bid b" "deep_ask (reserve x b) = deep_ask b"
  "next_seq (reserve x b) = next_seq b" "stp (reserve x b) = stp b"
  "have_last (reserve x b) = have_last b" "last_price (reserve x b) = last_price b"
  "book_symbol (reserve x b) = book_symbol b" "event_sink (reserve x b) = event_sink b"
  "requeued (reserve x b) = requeued b" "events (reserve x b) = events b"
  by (simp_all add: reserve_def)

lemma requeue_frame [simp]:
  "bids (requeue x b) = bids b" "asks (requeue x b) = asks b" "orders (requeue x b) = orders b"
  "stops (requeue x b) = stops b" "pegged (requeue x b) = pegged b"
  "groups (requeue x b) = groups b" "order_group (requeue x b) = order_group b"
  "positions (requeue x b) = positions b" "opening_auction (requeue x b) = opening_auction b"
  "closing_auction (requeue x b) = closing_auction b" "mem_levels (requeue x b) = mem_levels b"
  "deep_bid (requeue x b) = deep_bid b" "deep_ask (requeue x b) = deep_ask b"
  "stp (requeue x b) = stp b" "have_last (requeue x b) = have_last b"
  "last_price (requeue x b) = last_price b" "book_symbol (requeue x b) = book_symbol b"
  "event_sink (requeue x b) = event_sink b" "events (requeue x b) = events b"
  by (simp_all add: requeue_def)

lemma events_emit [simp]:
  "events (on_book_event ev b) = events b @ (if event_sink b then [ev] else [])"
  "events (emit_event ty x q d b) =
     events b @ (if event_sink b then [order_event ty (book_symbol b) x q d] else [])"
  "events (emit_trade t d b) = events b @ (if event_sink b then [trade_event (book_symbol b) t d] else [])"
  "events (emit_reprice x p p' q d b) =
     events b @ (if event_sink b then [reprice_event (book_symbol b) x p p' q d] else [])"
  by (simp_all add: on_book_event_def emit_event_def emit_trade_def emit_reprice_def)

lemma requeue_next_seq [simp]: "next_seq (requeue x b) = Suc (next_seq b)"
  by (simp add: requeue_def)

lemma ladder_upd_ladder [simp]:
  "ladder (upd_ladder b s f) t = (if t = s then f (ladder b s) else ladder b t)"
  by (cases s; cases t) (simp_all add: ladder_def upd_ladder_def)

lemma ladder_upd_lvl [simp]:
  "ladder (upd_lvl b s p f) t = (if t = s then upd_level (ladder b s) p f else ladder b t)"
  by (simp add: upd_lvl_def)

lemma ladder_cong: "bids b' = bids b \<Longrightarrow> asks b' = asks b \<Longrightarrow> ladder b' = ladder b"
  by (simp add: ladder_def fun_eq_iff)

lemma ladder_frame [simp]:
  "ladder (on_book_event ev b) = ladder b"
  "ladder (emit_event ty x q d b) = ladder b"
  "ladder (emit_trade t d b) = ladder b"
  "ladder (emit_reprice x p p' q d b) = ladder b"
  "ladder (apply_position c s q b) = ladder b"
  "ladder (release_reserved x q b) = ladder b"
  "ladder (reserve x b) = ladder b"
  "ladder (requeue x b) = ladder b"
  "ladder (b\<lparr>orders := v_orders\<rparr>) = ladder b"
  "ladder (b\<lparr>stops := v_stops\<rparr>) = ladder b"
  "ladder (b\<lparr>pegged := v_pegged\<rparr>) = ladder b"
  "ladder (b\<lparr>groups := v_groups\<rparr>) = ladder b"
  "ladder (b\<lparr>order_group := v_order_group\<rparr>) = ladder b"
  "ladder (b\<lparr>positions := v_positions\<rparr>) = ladder b"
  "ladder (b\<lparr>opening_auction := v_opening_auction\<rparr>) = ladder b"
  "ladder (b\<lparr>closing_auction := v_closing_auction\<rparr>) = ladder b"
  "ladder (b\<lparr>mem_levels := v_mem_levels\<rparr>) = ladder b"
  "ladder (b\<lparr>deep_bid := v_deep_bid\<rparr>) = ladder b"
  "ladder (b\<lparr>deep_ask := v_deep_ask\<rparr>) = ladder b"
  "ladder (b\<lparr>next_seq := v_next_seq\<rparr>) = ladder b"
  "ladder (b\<lparr>stp := v_stp\<rparr>) = ladder b"
  "ladder (b\<lparr>have_last := v_have_last\<rparr>) = ladder b"
  "ladder (b\<lparr>last_price := v_last_price\<rparr>) = ladder b"
  "ladder (b\<lparr>book_symbol := v_book_symbol\<rparr>) = ladder b"
  "ladder (b\<lparr>event_sink := v_event_sink\<rparr>) = ladder b"
  "ladder (b\<lparr>requeued := v_requeued\<rparr>) = ladder b"
  "ladder (b\<lparr>events := v_events\<rparr>) = ladder b"
  by (simp_all add: ladder_def fun_eq_iff)

lemma lvl_frame [simp]:
  "lvl (on_book_event ev b) = lvl b"
  "lvl (emit_event ty x q d b) = lvl b"
  "lvl (emit_trade t d b) = lvl b"
  "lvl (emit_reprice x p p' q d b) = lvl b"
  "lvl (apply_position c s q b) = lvl b"
  "lvl (release_reserved x q b) = lvl b"
  "lvl (reserve x b) = lvl b"
  "lvl (requeue x b) = lvl b"
  "lvl (b\<lparr>orders := v_orders\<rparr>) = lvl b"
  "lvl (b\<lparr>stops := v_stops\<rparr>) = lvl b"
  "lvl (b\<lparr>pegged := v_pegged\<rparr>) = lvl b"
  "lvl (b\<lparr>groups := v_groups\<rparr>) = lvl b"
  "lvl (b\<lparr>order_group := v_order_group\<rparr>) = lvl b"
  "lvl (b\<lparr>positions := v_positions\<rparr>) = lvl b"
  "lvl (b\<lparr>opening_auction := v_opening_auction\<rparr>) = lvl b"
  "lvl (b\<lparr>closing_auction := v_closing_auction\<rparr>) = lvl b"
  "lvl (b\<lparr>mem_levels := v_mem_levels\<rparr>) = lvl b"
  "lvl (b\<lparr>deep_bid := v_deep_bid\<rparr>) = lvl b"
  "lvl (b\<lparr>deep_ask := v_deep_ask\<rparr>) = lvl b"
  "lvl (b\<lparr>next_seq := v_next_seq\<rparr>) = lvl b"
  "lvl (b\<lparr>stp := v_stp\<rparr>) = lvl b"
  "lvl (b\<lparr>have_last := v_have_last\<rparr>) = lvl b"
  "lvl (b\<lparr>last_price := v_last_price\<rparr>) = lvl b"
  "lvl (b\<lparr>book_symbol := v_book_symbol\<rparr>) = lvl b"
  "lvl (b\<lparr>event_sink := v_event_sink\<rparr>) = lvl b"
  "lvl (b\<lparr>requeued := v_requeued\<rparr>) = lvl b"
  "lvl (b\<lparr>events := v_events\<rparr>) = lvl b"
  by (simp_all add: lvl_def fun_eq_iff)

lemma lvl_upd_ladder [simp]:
  "lvl (upd_ladder b s f) t = (if t = s then level_at (f (ladder b s)) else lvl b t)"
  by (simp add: lvl_def fun_eq_iff)

lemma lvl_upd_lvl:
  "covers (ladder b s) p \<Longrightarrow>
   lvl (upd_lvl b s p f) t = (if t = s then (lvl b s)(p := f (lvl b s p)) else lvl b t)"
  by (simp add: lvl_def upd_lvl_def ladder.at_set)

end
