(* ===== verification/Book_Inv.thy ===== *)
theory Book_Inv
  imports Book
begin

section \<open>The id table and the level queues agree\<close>

text \<open>
  How the invariant \<open>lvls_ok\<close> (every level queue holds exactly the ids resting at its
  price, and its totals are the sums over them) moves with the four elementary changes of a
  book: an order pushed to the back of a level, an order dropped, an order whose quantities
  change in place (with or without going to the back), a whole level cleared. They are
  stated on the id table as a map and the levels as a function of the price, so that every
  operation of the book that is built from them only has to name the change.
\<close>

lemma lvl_ok_cong:
  assumes "\<And>j e. (m' j = Some e \<and> side (e_order e) = s \<and> price (e_order e) = p) \<longleftrightarrow>
                 (m j = Some e \<and> side (e_order e) = s \<and> price (e_order e) = p)"
  shows "lvl_ok m' s p l = lvl_ok m s p l"
proof -
  have dir: "lvl_ok b s p l" if ok: "lvl_ok a s p l"
    and same: "\<And>j e. (b j = Some e \<and> side (e_order e) = s \<and> price (e_order e) = p) \<longleftrightarrow>
                      (a j = Some e \<and> side (e_order e) = s \<and> price (e_order e) = p)" for a b
  proof -
    have eq: "b j = a j" if "j \<in> set (fifo l)" for j
      using ok that same [of j] unfolding lvl_ok_def by metis
    have "(\<Sum>i\<leftarrow>fifo l. leaves (e_order (the (b i)))) = (\<Sum>i\<leftarrow>fifo l. leaves (e_order (the (a i))))"
      "(\<Sum>i\<leftarrow>fifo l. shown (the (b i))) = (\<Sum>i\<leftarrow>fifo l. shown (the (a i)))"
      by (rule sum_list_cong_notin; simp add: eq)+
    with ok same show ?thesis unfolding lvl_ok_def by simp
  qed
  show ?thesis using dir [of m m'] dir [of m' m] assms by blast
qed

lemma lvls_ok_other:
  assumes "lvls_ok m s F" "\<And>e. m i = Some e \<Longrightarrow> side (e_order e) \<noteq> s"
    "\<And>e. x = Some e \<Longrightarrow> side (e_order e) \<noteq> s"
  shows "lvls_ok (m(i := x)) s F"
proof -
  have "lvl_ok (m(i := x)) s p (F p) = lvl_ok m s p (F p)" for p
    by (rule lvl_ok_cong) (use assms(2,3) in auto)
  with assms(1) show ?thesis by (simp add: lvls_ok_def)
qed

text \<open>Changes at price \<open>p\<close> only concern the level of \<open>p\<close>.\<close>

lemma lvls_ok_at:
  assumes "lvls_ok m s F" "lvl_ok m' s p l"
    and "\<And>j e. m j = Some e \<Longrightarrow> m' j \<noteq> Some e \<Longrightarrow> side (e_order e) = s \<Longrightarrow> price (e_order e) = p"
    and "\<And>j e. m' j = Some e \<Longrightarrow> m j \<noteq> Some e \<Longrightarrow> side (e_order e) = s \<Longrightarrow> price (e_order e) = p"
  shows "lvls_ok m' s (F(p := l))"
proof -
  have "lvl_ok m' s q (F q)" if "q \<noteq> p" for q
  proof -
    have "lvl_ok m' s q (F q) = lvl_ok m s q (F q)"
      by (rule lvl_ok_cong) (use assms(3,4) that in blast)
    with assms(1) show ?thesis by (simp add: lvls_ok_def)
  qed
  with assms(2) show ?thesis by (simp add: lvls_ok_def)
qed

lemma lvls_ok_push:
  assumes ok: "lvls_ok m s F" and new: "m i = None"
    and e: "side (e_order e) = s" "price (e_order e) = p"
  shows "lvls_ok (m(i \<mapsto> e)) s (F(p := lvl_push i (leaves (e_order e)) (shown e) (F p)))"
proof (rule lvls_ok_at [OF ok])
  have l: "lvl_ok m s p (F p)" using ok by (simp add: lvls_ok_def)
  then have notin: "i \<notin> set (fifo (F p))" using new by (auto simp: lvl_ok_def)
  have sums: "(\<Sum>j\<leftarrow>fifo (F p). f (the ((m(i \<mapsto> e)) j))) = (\<Sum>j\<leftarrow>fifo (F p). f (the (m j)))"
    for f :: "Entry \<Rightarrow> int"
    by (rule sum_list_cong_notin) (use notin in auto)
  from sums [of "\<lambda>e. leaves (e_order e)"] sums [of shown] l notin e
  show "lvl_ok (m(i \<mapsto> e)) s p (lvl_push i (leaves (e_order e)) (shown e) (F p))"
    unfolding lvl_ok_def lvl_push_def by auto
qed (use new e in \<open>auto split: if_splits\<close>)

lemma lvls_ok_drop:
  assumes ok: "lvls_ok m s F" and old: "m i = Some e"
    and e: "side (e_order e) = s" "price (e_order e) = p"
  shows "lvls_ok (m(i := None)) s (F(p := lvl_drop i (leaves (e_order e)) (shown e) (F p)))"
proof (rule lvls_ok_at [OF ok])
  have l: "lvl_ok m s p (F p)" using ok by (simp add: lvls_ok_def)
  then have d: "distinct (fifo (F p))" and mem: "i \<in> set (fifo (F p))"
    using old e by (auto simp: lvl_ok_def)
  have sums: "(\<Sum>j\<leftarrow>filter (\<lambda>j. j \<noteq> i) (fifo (F p)). f (the ((m(i := None)) j))) =
        (\<Sum>j\<leftarrow>fifo (F p). f (the (m j))) - f e" for f :: "Entry \<Rightarrow> int"
  proof -
    have "(\<Sum>j\<leftarrow>filter (\<lambda>j. j \<noteq> i) (fifo (F p)). f (the ((m(i := None)) j))) =
          (\<Sum>j\<leftarrow>filter (\<lambda>j. j \<noteq> i) (fifo (F p)). f (the (m j)))"
      by (rule sum_list_cong_notin) auto
    with sum_list_filter_neq [OF d mem, of "\<lambda>j. f (the (m j))"] old show ?thesis by simp
  qed
  from sums [of "\<lambda>e. leaves (e_order e)"] sums [of shown] l d
  show "lvl_ok (m(i := None)) s p (lvl_drop i (leaves (e_order e)) (shown e) (F p))"
    unfolding lvl_ok_def lvl_drop_def by auto
qed (use old e in \<open>auto split: if_splits\<close>)

lemma lvls_ok_change:
  assumes ok: "lvls_ok m s F" and old: "m i = Some e"
    and e: "side (e_order e) = s" "price (e_order e) = p"
    and e': "side (e_order e') = s" "price (e_order e') = p"
    and l': "mset (fifo l') = mset (fifo (F p))"
      "total l' = total (F p) - leaves (e_order e) + leaves (e_order e')"
      "displayed l' = displayed (F p) - shown e + shown e'"
  shows "lvls_ok (m(i \<mapsto> e')) s (F(p := l'))"
proof (rule lvls_ok_at [OF ok])
  have l: "lvl_ok m s p (F p)" using ok by (simp add: lvls_ok_def)
  then have d: "distinct (fifo (F p))" and mem: "i \<in> set (fifo (F p))"
    using old e by (auto simp: lvl_ok_def)
  have perm: "set (fifo l') = set (fifo (F p))" "distinct (fifo l')"
    using mset_eq_setD [OF l'(1)] mset_eq_imp_distinct_iff [OF l'(1)] d by simp_all
  have sums: "(\<Sum>j\<leftarrow>fifo l'. f (the ((m(i \<mapsto> e')) j))) = (\<Sum>j\<leftarrow>fifo (F p). f (the (m j))) - f e + f e'"
    for f :: "Entry \<Rightarrow> int"
  proof -
    let ?g = "\<lambda>j. f (the ((m(i \<mapsto> e')) j))"
    have "(\<Sum>j\<leftarrow>fifo l'. ?g j) = (\<Sum>j\<leftarrow>fifo (F p). ?g j)"
      using arg_cong [OF l'(1), of "\<lambda>M. sum_mset (image_mset ?g M)"]
      by (simp only: mset_map [symmetric] sum_mset_sum_list)
    also have "\<dots> = (\<Sum>j\<leftarrow>fifo (F p). f (the (m j))) - f e + f e'"
      using sum_list_upd [OF d mem, of ?g "\<lambda>j. f (the (m j))"] old by simp
    finally show ?thesis .
  qed
  have members: "j \<in> set (fifo l') \<longleftrightarrow>
      (\<exists>x. (m(i \<mapsto> e')) j = Some x \<and> side (e_order x) = s \<and> price (e_order x) = p)" for j
    using l mem e' perm(1) by (cases "j = i") (simp_all add: lvl_ok_def)
  have "total l' = (\<Sum>j\<leftarrow>fifo l'. leaves (e_order (the ((m(i \<mapsto> e')) j))))"
    "displayed l' = (\<Sum>j\<leftarrow>fifo l'. shown (the ((m(i \<mapsto> e')) j)))"
    using l l'(2,3) sums [of "\<lambda>e. leaves (e_order e)"] sums [of shown]
    by (simp_all only: lvl_ok_def)
  with members perm(2) show "lvl_ok (m(i \<mapsto> e')) s p l'"
    unfolding lvl_ok_def by blast
  show "price (e_order x) = p" if "m j = Some x" "(m(i \<mapsto> e')) j \<noteq> Some x" for j x
    using that old e by (cases "j = i") simp_all
  show "price (e_order x) = p" if "(m(i \<mapsto> e')) j = Some x" "m j \<noteq> Some x" for j x
    using that e' by (cases "j = i") simp_all
qed

lemma lvls_ok_clear:
  assumes ok: "lvls_ok m s F"
  shows "lvls_ok (m |` (- set (fifo (F p)))) s (F(p := empty_Level))"
proof (rule lvls_ok_at [OF ok])
  have l: "lvl_ok m s p (F p)" using ok by (simp add: lvls_ok_def)
  then show "lvl_ok (m |` (- set (fifo (F p)))) s p empty_Level"
    unfolding lvl_ok_def by (auto simp: restrict_map_def)
  show "price (e_order e) = p"
    if "m j = Some e" "(m |` (- set (fifo (F p)))) j \<noteq> Some e" for j e
    using l that unfolding lvl_ok_def by (auto simp: restrict_map_def split: if_splits)
qed (auto simp: restrict_map_def split: if_splits)

lemma lvls_ok_clear_other:
  assumes ok: "lvls_ok m s F" and other: "\<And>j e. j \<in> A \<Longrightarrow> m j = Some e \<Longrightarrow> side (e_order e) \<noteq> s"
  shows "lvls_ok (m |` (- A)) s F"
proof -
  have "lvl_ok (m |` (- A)) s p (F p) = lvl_ok m s p (F p)" for p
    by (rule lvl_ok_cong) (use other in \<open>auto simp: restrict_map_def split: if_splits\<close>)
  with ok show ?thesis by (simp add: lvls_ok_def)
qed

subsection \<open>Reading the invariant\<close>

lemma lvls_okD:
  assumes "lvls_ok m s F" "i \<in> set (fifo (F p))"
  obtains e where "m i = Some e" "side (e_order e) = s" "price (e_order e) = p"
  using assms unfolding lvls_ok_def lvl_ok_def by blast

lemma lvls_ok_mem:
  assumes "lvls_ok m s F" "m i = Some e" "side (e_order e) = s" "price (e_order e) = p"
  shows "i \<in> set (fifo (F p))"
  using assms unfolding lvls_ok_def lvl_ok_def by blast

lemma lvls_ok_distinct: "lvls_ok m s F \<Longrightarrow> distinct (fifo (F p))"
  by (simp add: lvls_ok_def lvl_ok_def)

lemma lvls_ok_total:
  assumes "lvls_ok m s F" "\<forall>i e. m i = Some e \<longrightarrow> 0 < leaves (e_order e)"
  shows "0 \<le> total (F p)" "0 < total (F p) \<longleftrightarrow> fifo (F p) \<noteq> []" "total (F p) = 0 \<longleftrightarrow> fifo (F p) = []"
proof -
  have pos: "0 < leaves (e_order (the (m i)))" if "i \<in> set (fifo (F p))" for i
    using assms(2) lvls_okD [OF assms(1) that] by (metis option.sel)
  have t: "total (F p) = (\<Sum>i\<leftarrow>fifo (F p). leaves (e_order (the (m i))))"
    using assms(1) by (simp add: lvls_ok_def lvl_ok_def)
  show "0 \<le> total (F p)" "0 < total (F p) \<longleftrightarrow> fifo (F p) \<noteq> []" "total (F p) = 0 \<longleftrightarrow> fifo (F p) = []"
    unfolding t using sum_list_pos [of "fifo (F p)" "\<lambda>i. leaves (e_order (the (m i)))"] pos by simp_all
qed

lemma lvls_ok_ge:
  assumes "lvls_ok m s F" "\<forall>i e. m i = Some e \<longrightarrow> 0 < leaves (e_order e)"
    "m i = Some e" "side (e_order e) = s" "price (e_order e) = p"
  shows "leaves (e_order e) \<le> total (F p)"
proof -
  have d: "lvls_ok (m(i := None)) s (F(p := lvl_drop i (leaves (e_order e)) (shown e) (F p)))"
    by (rule lvls_ok_drop) (use assms in auto)
  have "\<forall>j e'. (m(i := None)) j = Some e' \<longrightarrow> 0 < leaves (e_order e')"
    using assms(2) by auto
  from lvls_ok_total(1) [OF d this, of p] show ?thesis by (simp add: lvl_drop_def)
qed

subsection \<open>The core invariant of a book\<close>

lemma pegs_ok_delete: "pegs_ok m ids \<Longrightarrow> pegs_ok (m(i := None)) (removeAll i ids)"
  by (auto simp: pegs_ok_def)

lemma pegs_ok_update:
  "pegs_ok m ids \<Longrightarrow> m i = Some e \<Longrightarrow> peg (e_order e') = peg (e_order e) \<Longrightarrow> pegs_ok (m(i \<mapsto> e')) ids"
  unfolding pegs_ok_def by (metis fun_upd_apply option.inject)

lemma pegs_ok_new: "pegs_ok m ids \<Longrightarrow> m i = None \<Longrightarrow> pegs_ok (m(i \<mapsto> e)) ids"
  unfolding pegs_ok_def by (metis fun_upd_apply option.distinct(1))

lemma pegs_ok_filter: "pegs_ok m ids \<Longrightarrow> pegs_ok (m |` (- A)) (filter (\<lambda>j. j \<notin> A) ids)"
  by (auto simp: pegs_ok_def restrict_map_def)

lemma pegs_ok_dom: "pegs_ok m ids \<Longrightarrow> set ids \<subseteq> dom m"
  by (auto simp: pegs_ok_def)

lemma book_coreI:
  assumes "\<And>s. l_side (ladder b s) = s" "\<And>s. ladder_ok (ladder b s)"
    "\<And>s. lvls_ok (map_of (orders b)) s (lvl b s)" "distinct (map fst (orders b))"
    "\<And>i e. map_of (orders b) i = Some e \<Longrightarrow> entry_ok i e"
    "distinct (pegged b)" "pegs_ok (map_of (orders b)) (pegged b)"
  shows "book_core b"
  using assms by (simp add: book_core_def)

lemma book_coreD:
  assumes "book_core b"
  shows "l_side (ladder b s) = s" "ladder_ok (ladder b s)"
    "lvls_ok (map_of (orders b)) s (lvl b s)" "distinct (map fst (orders b))"
    "map_of (orders b) i = Some e \<Longrightarrow> entry_ok i e"
    "distinct (pegged b)" "pegs_ok (map_of (orders b)) (pegged b)"
    "map_of (orders b) i = Some e \<Longrightarrow> 0 < leaves (e_order e)"
    "map_of (orders b) i = Some e \<Longrightarrow> oid (e_order e) = i"
    "map_of (orders b) i = Some e \<Longrightarrow> admissible (e_order e)"
  using assms by (auto simp: book_core_def entry_ok_def)

lemma book_core_cong:
  assumes "book_core b" "ladder b' = ladder b" "orders b' = orders b" "pegged b' = pegged b"
  shows "book_core b'"
  using assms by (simp add: book_core_def lvl_def)

lemma book_core_level:
  assumes "book_core b"
  shows "0 \<le> total (lvl b s p)" "0 < total (lvl b s p) \<longleftrightarrow> fifo (lvl b s p) \<noteq> []"
    "total (lvl b s p) = 0 \<longleftrightarrow> fifo (lvl b s p) = []" "distinct (fifo (lvl b s p))"
proof -
  have "\<forall>i e. map_of (orders b) i = Some e \<longrightarrow> 0 < leaves (e_order e)"
    using book_coreD(8) [OF assms] by blast
  from lvls_ok_total [OF book_coreD(3) [OF assms] this]
  show "0 \<le> total (lvl b s p)" "0 < total (lvl b s p) \<longleftrightarrow> fifo (lvl b s p) \<noteq> []"
    "total (lvl b s p) = 0 \<longleftrightarrow> fifo (lvl b s p) = []" by blast+
  show "distinct (fifo (lvl b s p))" by (rule lvls_ok_distinct [OF book_coreD(3) [OF assms]])
qed

lemma book_core_queue:
  assumes "book_core b" "i \<in> set (fifo (lvl b s p))"
  obtains e where "map_of (orders b) i = Some e" "side (e_order e) = s" "price (e_order e) = p"
    "entry_ok i e" "covers (ladder b s) p"
proof -
  from lvls_okD [OF book_coreD(3) [OF assms(1)] assms(2)] obtain e
    where "map_of (orders b) i = Some e" "side (e_order e) = s" "price (e_order e) = p" .
  moreover from this assms(1) have "entry_ok i e" by (auto dest: book_coreD)
  moreover have "covers (ladder b s) p" using assms(2) by (auto simp: lvl_def intro: covers_if_fifo)
  ultimately show thesis by (rule that)
qed

lemma book_core_mem:
  assumes "book_core b" "map_of (orders b) i = Some e"
  shows "i \<in> set (fifo (lvl b (side (e_order e)) (price (e_order e))))"
    "covers (ladder b (side (e_order e))) (price (e_order e))"
proof -
  show mem: "i \<in> set (fifo (lvl b (side (e_order e)) (price (e_order e))))"
    by (rule lvls_ok_mem [OF book_coreD(3) [OF assms(1)] assms(2) refl refl])
  then show "covers (ladder b (side (e_order e))) (price (e_order e))"
    by (auto simp: lvl_def intro: covers_if_fifo)
qed

lemma ladder_new_Book [simp]: "ladder (new_Book policy n) s = new_Ladder s"
  by (cases s) (simp_all add: ladder_def new_Book_def)

lemma new_Book_ok: "book_ok (new_Book policy n)"
  by (auto simp: book_ok_def book_core_def caches_ok_def pools_ok_def pegs_ok_def lvl_def
      lvls_ok_def lvl_ok_def waiting_def pending_orders_def) (simp_all add: new_Book_def)

end
