(* ===== verification/Book_Steps.thy ===== *)
theory Book_Steps
  imports Book_Inv
begin

section \<open>The atomic changes of a book\<close>

text \<open>
  Every state change of the resting book is one of a few atomic changes: a maker is filled
  (and is erased, replenished or left in place), a maker is cancelled by self-trade
  prevention, an order joins or leaves, a pegged order moves, the worst level is evicted.
  The first half has these changes as the source writes them. The second half is their
  specification: \<open>table_step\<close> is a machine on the bare table of resting orders that emits
  the events of the change, and \<open>evolves\<close> relates two books when the table steps of the
  specification lead from one to the other, with the events in the log and the reduce-only
  reservations still exact. The component theories prove that every operation of the book
  evolves it.
\<close>

subsection \<open>Fills (core/order\_book.cc: match\_level)\<close>

definition is_iceberg :: "Entry \<Rightarrow> bool" where
  "is_iceberg me = HasFlag (flags (e_order me)) kIceberg"

definition is_hidden :: "Entry \<Rightarrow> bool" where
  "is_hidden me = HasFlag (flags (e_order me)) kHidden"

definition exposed :: "Entry \<Rightarrow> Quantity" where
  "exposed me = (if is_iceberg me then slice me else leaves (e_order me))"

definition take_fill :: "Quantity \<Rightarrow> Order \<Rightarrow> Order" where
  "take_fill q order = order\<lparr>leaves := leaves order - q, filled := filled order + q\<rparr>"

definition filled_entry :: "Quantity \<Rightarrow> Entry \<Rightarrow> Entry" where
  "filled_entry q me = me\<lparr>e_order := take_fill q (e_order me),
     slice := (if is_iceberg me then slice me - q else slice me)\<rparr>"

definition fill_trade :: "Order \<Rightarrow> OrderId \<Rightarrow> Ticks \<Rightarrow> Quantity \<Rightarrow> Trade" where
  "fill_trade order mid p q =
     \<lparr>taker_id = oid order, maker_id = mid, taker_side = side order, t_price = p, t_qty = q\<rparr>"

definition lvl_fill :: "Quantity \<Rightarrow> bool \<Rightarrow> Level \<Rightarrow> Level" where
  "lvl_fill q hidden l = l\<lparr>total := total l - q,
     displayed := (if hidden then displayed l else displayed l - q)\<rparr>"

definition fill_maker :: "Order \<Rightarrow> Ticks \<Rightarrow> OrderId \<Rightarrow> Entry \<Rightarrow> Quantity \<Rightarrow> Book \<Rightarrow> Book" where
  "fill_maker order p mid me q b =
     (let s = Opposite (side order);
          b1 = emit_trade (fill_trade order mid p q) (if is_hidden me then 0 else q) b;
          b2 = b1\<lparr>last_price := p, have_last := True\<rparr>;
          b3 = b2\<lparr>orders := AList.update mid (filled_entry q me) (orders b2)\<rparr>;
          b4 = upd_lvl b3 s p (lvl_fill q (is_hidden me));
          b5 = apply_position (client_id order) (side order) q b4;
          b6 = apply_position (client_id (e_order me)) (side (e_order me)) q b5
      in release_reserved (e_order me) q b6)"

definition erase_maker :: "Side \<Rightarrow> Ticks \<Rightarrow> nat \<Rightarrow> OrderId \<Rightarrow> Book \<Rightarrow> Book" where
  "erase_maker s p it mid b =
     (let b1 = upd_lvl b s p (\<lambda>l. l\<lparr>fifo := erase_at it (fifo l)\<rparr>)
      in b1\<lparr>orders := AList.delete mid (orders b1), pegged := removeAll mid (pegged b1)\<rparr>)"

definition replenished :: "Entry \<Rightarrow> SeqNo \<Rightarrow> Entry" where
  "replenished me k = me\<lparr>e_order := (e_order me)\<lparr>rank := k\<rparr>,
     slice := min (display_qty (e_order me)) (leaves (e_order me))\<rparr>"

definition replenish_maker :: "Side \<Rightarrow> Ticks \<Rightarrow> nat \<Rightarrow> OrderId \<Rightarrow> Entry \<Rightarrow> Book \<Rightarrow> Book" where
  "replenish_maker s p it mid me b =
     (let me' = replenished me (next_seq b);
          b1 = upd_lvl b s p (\<lambda>l. l\<lparr>fifo := splice_back it (fifo l), displayed := displayed l + slice me'\<rparr>);
          b2 = requeue (e_order me) b1;
          b3 = b2\<lparr>orders := AList.update mid me' (orders b2)\<rparr>
      in emit_event kReplenish (e_order me') (slice me') (slice me') b3)"

text \<open>What happens to the maker after the fill, and where the iterator stands then.\<close>

definition settle_maker :: "Side \<Rightarrow> Ticks \<Rightarrow> nat \<Rightarrow> OrderId \<Rightarrow> Entry \<Rightarrow> Book \<Rightarrow> Book \<times> nat" where
  "settle_maker s p it mid me b =
     (if leaves (e_order me) = 0 then (erase_maker s p it mid b, it)
      else if is_iceberg me \<and> slice me = 0
      then (replenish_maker s p it mid me b,
            if Suc it = length (fifo (lvl b s p)) then Suc it else it)
      else (b, Suc it))"

definition stp_cancel_maker :: "Side \<Rightarrow> Ticks \<Rightarrow> nat \<Rightarrow> OrderId \<Rightarrow> Entry \<Rightarrow> Book \<Rightarrow> Book" where
  "stp_cancel_maker s p it mid me b =
     (let lv = leaves (e_order me);
          b1 = upd_lvl b s p (\<lambda>l. l\<lparr>total := total l - lv, displayed := displayed l - shown me\<rparr>);
          b2 = release_reserved (e_order me) lv b1;
          b3 = emit_event kCancel (e_order me) lv (shown me) b2
      in erase_maker s p it mid b3)"

subsection \<open>Orders joining and leaving (rest, cancel, move\_pegged, evict\_worst)\<close>

definition rest_resident :: "Order \<Rightarrow> Book \<Rightarrow> Book" where
  "rest_resident order b = reserve order (place order b)"

definition emit_add :: "Order \<Rightarrow> Book \<Rightarrow> Book" where
  "emit_add order b = emit_event kAdd order (leaves order)
     (DisplayedOf (flags order) (leaves order) (initial_slice order)) b"

definition cancel_resting :: "OrderId \<Rightarrow> Entry \<Rightarrow> Book \<Rightarrow> Book" where
  "cancel_resting i e b =
     (let b1 = b\<lparr>pegged := removeAll i (pegged b)\<rparr>;
          b2 = emit_event kCancel (e_order e) (leaves (e_order e)) (shown e) b1;
          b3 = release_reserved (e_order e) (leaves (e_order e)) b2;
          b4 = upd_ladder b3 (side (e_order e)) (unlink_level e)
      in b4\<lparr>orders := AList.delete i (orders b4)\<rparr>)"

definition moved :: "Entry \<Rightarrow> Ticks \<Rightarrow> SeqNo \<Rightarrow> Entry" where
  "moved e new_price k = e\<lparr>e_order := (e_order e)\<lparr>price := new_price, rank := k\<rparr>\<rparr>"

definition move_pegged :: "OrderId \<Rightarrow> Ticks \<Rightarrow> Book \<Rightarrow> Book option" where
  "move_pegged i new_price b = do {
     e \<leftarrow> map_of (orders b) i;
     let s = side (e_order e);
     let e1 = e\<lparr>e_order := (e_order e)\<lparr>price := new_price\<rparr>\<rparr>;
     let b1 = upd_ladder b s (unlink_level e);
     let b2 = upd_ladder b1 s (\<lambda>L. on_added
                (upd_level (touch L new_price) new_price
                   (lvl_push i (leaves (e_order e)) (shown e))) new_price);
     let b3 = requeue (e_order e1) b2;
     let b4 = b3\<lparr>orders := AList.update i (moved e new_price (next_seq b2)) (orders b3)\<rparr>;
     Some (emit_reprice (e_order e1) (price (e_order e)) new_price (leaves (e_order e)) (shown e) b4)
   }"

definition worse_than :: "Side \<Rightarrow> Ticks \<Rightarrow> Ticks \<Rightarrow> bool" where
  "worse_than s p ref = (if s = Buy then p < ref else p > ref)"

definition note_deep :: "Side \<Rightarrow> Ticks \<Rightarrow> Book \<Rightarrow> Book" where
  "note_deep s p b =
     (let d = deep_of b s;
          d' = \<lparr>d_has = True,
                d_boundary = (if \<not> d_has d then p
                              else if s = Buy then max (d_boundary d) p else min (d_boundary d) p)\<rparr>
      in if s = Buy then b\<lparr>deep_bid := d'\<rparr> else b\<lparr>deep_ask := d'\<rparr>)"

definition evict_order :: "OrderId \<Rightarrow> Book \<times> Order list \<Rightarrow> Book \<times> Order list" where
  "evict_order i be =
     (case map_of (orders (fst be)) i of
        None \<Rightarrow> be
      | Some e \<Rightarrow> ((fst be)\<lparr>pegged := removeAll i (pegged (fst be)),
                           orders := AList.delete i (orders (fst be))\<rparr>,
                 snd be @ [e_order e]))"

definition evict_worst :: "Side \<Rightarrow> Book \<Rightarrow> Book \<times> Order list" where
  "evict_worst s b =
     (case worst_price (ladder b s) of
        None \<Rightarrow> (b, [])
      | Some wp \<Rightarrow>
          (case ladder_at (ladder b s) wp of
             None \<Rightarrow> (b, [])
           | Some l \<Rightarrow>
               let (b1, ev) = fold evict_order (fifo l) (b, []);
                   b2 = upd_ladder b1 s (\<lambda>L. on_removed (upd_level L wp (\<lambda>_. empty_Level)) wp)
               in (note_deep s wp b2, ev)))"

subsection \<open>The specification: a machine on the table of resting orders\<close>

type_synonym table = "OrderId \<rightharpoonup> Entry"

abbreviation omap :: "Book \<Rightarrow> table" where
  "omap b \<equiv> map_of (orders b)"

inductive table_step :: "bool \<Rightarrow> Symbol \<Rightarrow> table \<Rightarrow> BookEvent list \<Rightarrow> table \<Rightarrow> bool"
  for windowed :: bool and sy :: Symbol where
  silent: "table_step windowed sy m [] m"
| marker: "table_step windowed sy m [order_event kTrigger sy order q d] m"
| outside_trade: "m (maker_id t) = None \<Longrightarrow> table_step windowed sy m [trade_event sy t d] m"
| join: "m i = None \<Longrightarrow> entry_ok i e \<Longrightarrow>
    table_step windowed sy m [order_event kAdd sy (e_order e) (leaves (e_order e)) (shown e)] (m(i \<mapsto> e))"
| leave: "m i = Some e \<Longrightarrow> entry_ok i e \<Longrightarrow>
    table_step windowed sy m [order_event kCancel sy (e_order e) (leaves (e_order e)) (shown e)] (m(i := None))"
| fill_part: "m i = Some e \<Longrightarrow> entry_ok i e \<Longrightarrow> maker_id t = i \<Longrightarrow> 0 < t_qty t \<Longrightarrow> t_qty t < exposed e \<Longrightarrow>
    table_step windowed sy m [trade_event sy t (if is_hidden e then 0 else t_qty t)]
      (m(i \<mapsto> filled_entry (t_qty t) e))"
| fill_out: "m i = Some e \<Longrightarrow> entry_ok i e \<Longrightarrow> maker_id t = i \<Longrightarrow> t_qty t = leaves (e_order e) \<Longrightarrow>
    t_qty t \<le> exposed e \<Longrightarrow>
    table_step windowed sy m [trade_event sy t (if is_hidden e then 0 else t_qty t)] (m(i := None))"
| fill_replenish: "m i = Some e \<Longrightarrow> entry_ok i e \<Longrightarrow> maker_id t = i \<Longrightarrow> is_iceberg e \<Longrightarrow>
    t_qty t = slice e \<Longrightarrow> slice e < leaves (e_order e) \<Longrightarrow>
    e' = replenished (filled_entry (t_qty t) e) k \<Longrightarrow>
    table_step windowed sy m
      [trade_event sy t (t_qty t), order_event kReplenish sy (e_order e') (slice e') (slice e')]
      (m(i \<mapsto> e'))"
| move: "m i = Some e \<Longrightarrow> entry_ok i e \<Longrightarrow>
    table_step windowed sy m
      [reprice_event sy (e_order e) (price (e_order e)) p (leaves (e_order e)) (shown e)]
      (m(i \<mapsto> moved e p k))"
| evict: "windowed \<Longrightarrow> table_step windowed sy m [] (m |` A)"
| deep: "windowed \<Longrightarrow> table_step windowed sy m [order_event kAdd sy order q d] m"

inductive table_steps :: "bool \<Rightarrow> Symbol \<Rightarrow> table \<Rightarrow> BookEvent list \<Rightarrow> table \<Rightarrow> bool"
  for windowed :: bool and sy :: Symbol where
  none: "table_steps windowed sy m [] m"
| more: "table_step windowed sy m es m' \<Longrightarrow> table_steps windowed sy m' es' m'' \<Longrightarrow>
         table_steps windowed sy m (es @ es') m''"

text \<open>The reservation of an account against the reduce-only orders it has resting.\<close>

definition reserved_leaves :: "ClientId \<Rightarrow> Side \<Rightarrow> Entry \<Rightarrow> Quantity" where
  "reserved_leaves c s e =
     (if is_reduce_only (e_order e) \<and> client_id (e_order e) = c \<and> side (e_order e) = s
      then leaves (e_order e) else 0)"

definition reserved_exact :: "Book \<Rightarrow> bool" where
  "reserved_exact b \<longleftrightarrow>
     (\<forall>c s. c \<noteq> 0 \<longrightarrow> reserved_on (position_of b c) s = alist_sum (reserved_leaves c s) (orders b))"

definition evolves :: "Book \<Rightarrow> Book \<Rightarrow> bool" where
  "evolves b b' \<longleftrightarrow>
     mem_levels b' = mem_levels b \<and> stp b' = stp b \<and> book_symbol b' = book_symbol b
     \<and> event_sink b' = event_sink b \<and> next_seq b \<le> next_seq b'
     \<and> (\<exists>es. table_steps (0 < mem_levels b) (book_symbol b) (omap b) es (omap b')
            \<and> events b' = events b @ (if event_sink b then es else []))
     \<and> (mem_levels b = 0 \<longrightarrow> reserved_exact b \<longrightarrow> reserved_exact b')"

subsection \<open>Evolution composes\<close>

lemma table_steps_trans:
  "table_steps w sy m es m' \<Longrightarrow> table_steps w sy m' es' m'' \<Longrightarrow> table_steps w sy m (es @ es') m''"
  by (induction rule: table_steps.induct) (auto intro: table_steps.more)

lemma table_steps_one: "table_step w sy m es m' \<Longrightarrow> table_steps w sy m es m'"
  using table_steps.more [OF _ table_steps.none] by fastforce

lemma evolves_refl [simp, intro!]: "evolves b b"
  by (auto simp: evolves_def intro: exI [of _ "[]"] table_steps.none)

lemma evolves_trans [trans]: "evolves a b \<Longrightarrow> evolves b c \<Longrightarrow> evolves a c"
  unfolding evolves_def by (auto intro: table_steps_trans order_trans split: if_splits)

lemma evolves_step:
  assumes "table_step (0 < mem_levels b) (book_symbol b) (omap b) es (omap b')"
    "events b' = events b @ (if event_sink b then es else [])"
    "mem_levels b' = mem_levels b" "stp b' = stp b" "book_symbol b' = book_symbol b"
    "event_sink b' = event_sink b" "next_seq b \<le> next_seq b'"
    "mem_levels b = 0 \<Longrightarrow> reserved_exact b \<Longrightarrow> reserved_exact b'"
  shows "evolves b b'"
  using assms table_steps_one unfolding evolves_def by blast

text \<open>Changes the table of resting orders does not see.\<close>

lemma evolves_silent:
  assumes "orders b' = orders b" "events b' = events b" "mem_levels b' = mem_levels b"
    "stp b' = stp b" "book_symbol b' = book_symbol b" "event_sink b' = event_sink b"
    "next_seq b \<le> next_seq b'"
    "\<And>c s. reserved_on (position_of b' c) s = reserved_on (position_of b c) s"
  shows "evolves b b'"
  by (rule evolves_step [where es = "[]"])
    (use assms in \<open>simp_all add: table_step.silent reserved_exact_def\<close>)

subsection \<open>Reservations\<close>

lemma position_of_frame [simp]:
  "position_of (upd_ladder b s f) = position_of b" "position_of (upd_lvl b s p g) = position_of b"
  "position_of (on_book_event ev b) = position_of b" "position_of (emit_event ty x q d b) = position_of b"
  "position_of (emit_trade t d b) = position_of b" "position_of (emit_reprice x p p' q d b) = position_of b"
  "position_of (requeue x b) = position_of b"
  "position_of (b\<lparr>orders := v1\<rparr>) = position_of b" "position_of (b\<lparr>pegged := v2\<rparr>) = position_of b"
  "position_of (b\<lparr>last_price := v3\<rparr>) = position_of b" "position_of (b\<lparr>have_last := v4\<rparr>) = position_of b"
  by (simp_all add: position_of_def fun_eq_iff)

lemma reserved_add [simp]:
  "reserved_on (add_reserved s q p) s' = reserved_on p s' + (if s' = s then q else 0)"
  by (cases s; cases s') (simp_all add: reserved_on_def add_reserved_def)

lemma reserved_apply_position [simp]:
  "reserved_on (position_of (apply_position c q' q b) c') s = reserved_on (position_of b c') s"
  by (simp add: apply_position_def position_of_def Let_def reserved_on_def)

lemma reserved_release:
  assumes "is_reduce_only x \<Longrightarrow> client_id x \<noteq> 0 \<Longrightarrow> positions b (client_id x) \<noteq> None"
  shows "c \<noteq> 0 \<Longrightarrow> reserved_on (position_of (release_reserved x q b) c) s =
    reserved_on (position_of b c) s - (if is_reduce_only x \<and> client_id x = c \<and> side x = s then q else 0)"
  using assms by (auto simp: release_reserved_def position_of_def split: option.split)

lemma reserved_reserve:
  "c \<noteq> 0 \<Longrightarrow> reserved_on (position_of (reserve x b) c) s =
    reserved_on (position_of b c) s + (if is_reduce_only x \<and> client_id x = c \<and> side x = s then leaves x else 0)"
  by (auto simp: reserve_def position_of_def)

lemma apply_position_keeps: "positions b c \<noteq> None \<Longrightarrow> positions (apply_position c' s q b) c \<noteq> None"
  by (simp add: apply_position_def Let_def)

text \<open>An account with a resting reduce-only order has a position record.\<close>

lemma reserved_position:
  assumes "book_core b" "reserved_exact b" "omap b i = Some e"
    "is_reduce_only (e_order e)" "client_id (e_order e) \<noteq> 0"
  shows "positions b (client_id (e_order e)) \<noteq> None"
proof
  let ?c = "client_id (e_order e)" and ?s = "side (e_order e)"
  assume none: "positions b ?c = None"
  have "0 < leaves (e_order e)" using assms(1,3) by (rule book_coreD(8))
  also have "leaves (e_order e) \<le> alist_sum (reserved_leaves ?c ?s) (orders b)"
    using alist_sum_ge [of "orders b" "reserved_leaves ?c ?s" i e] assms book_coreD(4,8) [OF assms(1)]
    by (fastforce simp: reserved_leaves_def)
  also have "\<dots> = reserved_on (position_of b ?c) ?s"
    using assms(2,5) by (simp add: reserved_exact_def)
  also have "\<dots> = 0" using none by (simp add: position_of_def new_Position_def reserved_on_def)
  finally show False by simp
qed

subsection \<open>What the atomic changes leave alone\<close>

definition pools_eq :: "Book \<Rightarrow> Book \<Rightarrow> bool" where
  "pools_eq b b' \<longleftrightarrow> stops b' = stops b \<and> opening_auction b' = opening_auction b
     \<and> closing_auction b' = closing_auction b \<and> groups b' = groups b \<and> order_group b' = order_group b"

definition flags_of :: "Book \<Rightarrow> OrderId \<Rightarrow> 32 word option" where
  "flags_of b i = map_option (\<lambda>e. flags (e_order e)) (omap b i)"

definition keys_le :: "Book \<Rightarrow> Book \<Rightarrow> bool" where
  "keys_le b b' \<longleftrightarrow> fst ` set (orders b') \<subseteq> fst ` set (orders b) \<and> flags_of b' \<subseteq>\<^sub>m flags_of b"

definition same_shape :: "Ladder \<Rightarrow> Ladder \<Rightarrow> bool" where
  "same_shape L L' \<longleftrightarrow> l_side L' = l_side L \<and> base L' = base L \<and> has_base L' = has_base L
     \<and> length (levels L') = length (levels L) \<and> best_valid L' = best_valid L \<and> best_price L' = best_price L"

lemma pools_eq_refl [simp]: "pools_eq b b"
  by (simp add: pools_eq_def)

lemma pools_eq_trans [trans]: "pools_eq a b \<Longrightarrow> pools_eq b c \<Longrightarrow> pools_eq a c"
  by (simp add: pools_eq_def)

lemma keys_le_refl [simp]: "keys_le b b"
  by (simp add: keys_le_def)

lemma keys_le_trans [trans]: "keys_le a b \<Longrightarrow> keys_le b c \<Longrightarrow> keys_le a c"
  unfolding keys_le_def by (meson map_le_trans subset_trans)

lemma keys_le_keys: "keys_le b b' \<Longrightarrow> fst ` set (orders b') \<subseteq> fst ` set (orders b)"
  by (simp add: keys_le_def)

lemma keys_le_delete: "orders b' = AList.delete i (orders b) \<Longrightarrow> keys_le b b'"
  unfolding keys_le_def set_map [symmetric] by (auto simp: map_le_def flags_of_def)

lemma keys_le_same:
  "map fst (orders b') = map fst (orders b) \<Longrightarrow> omap b' = (omap b)(i \<mapsto> e') \<Longrightarrow> omap b i = Some e \<Longrightarrow>
   flags (e_order e') = flags (e_order e) \<Longrightarrow> keys_le b b'"
  unfolding keys_le_def set_map [symmetric] by (simp add: map_le_def flags_of_def)

lemma same_shape_refl [simp]: "same_shape L L"
  by (simp add: same_shape_def)

lemma same_shape_trans [trans]: "same_shape A B \<Longrightarrow> same_shape B C \<Longrightarrow> same_shape A C"
  by (simp add: same_shape_def)

lemma same_shape_upd_level [simp]: "same_shape L (upd_level L p f)"
  by (simp add: same_shape_def frame_simps)

lemma same_shape_covers: "same_shape L L' \<Longrightarrow> covers L' p = covers L p"
  by (simp add: same_shape_def covers_def)

lemma same_shape_ok: "same_shape L L' \<Longrightarrow> ladder_ok L' = ladder_ok L"
  by (auto simp: same_shape_def ladder_ok_def)

lemma waiting_pools_eq: "pools_eq b b' \<Longrightarrow> waiting b' = waiting b"
  by (simp add: pools_eq_def waiting_def pending_orders_def)

lemma pools_ok_shrink:
  assumes "pools_ok b" "waiting b' = waiting b" "stops b' = stops b"
    "distinct (map fst (orders b'))" "keys_le b b'"
  shows "pools_ok b'"
proof -
  have "fst ` set (orders b) \<inter> oid ` set (waiting b) = {}"
    using assms(1) by (simp add: pools_ok_def)
  then have "fst ` set (orders b') \<inter> oid ` set (waiting b) = {}"
    using keys_le_keys [OF assms(5)] by (rule disjoint_subset)
  with assms(1-4) show ?thesis by (simp add: pools_ok_def)
qed

subsection \<open>A fill\<close>

lemma take_fill_sel [simp]:
  "oid (take_fill q x) = oid x" "client_id (take_fill q x) = client_id x" "side (take_fill q x) = side x"
  "otype (take_fill q x) = otype x" "tif (take_fill q x) = tif x" "flags (take_fill q x) = flags x"
  "price (take_fill q x) = price x" "qty (take_fill q x) = qty x"
  "leaves (take_fill q x) = leaves x - q" "filled (take_fill q x) = filled x + q"
  "display_qty (take_fill q x) = display_qty x" "min_qty (take_fill q x) = min_qty x"
  "discretion (take_fill q x) = discretion x" "seq (take_fill q x) = seq x" "rank (take_fill q x) = rank x"
  "expiry_ns (take_fill q x) = expiry_ns x" "trigger (take_fill q x) = trigger x"
  "peg (take_fill q x) = peg x" "link (take_fill q x) = link x"
  by (simp_all add: take_fill_def)

lemma take_fill_0 [simp]: "take_fill 0 x = x"
  by (simp add: take_fill_def)

lemma take_fill_take_fill [simp]: "take_fill r (take_fill q x) = take_fill (q + r) x"
  by (simp add: take_fill_def algebra_simps)

lemma filled_entry_sel [simp]:
  "e_order (filled_entry q e) = take_fill q (e_order e)"
  "slice (filled_entry q e) = (if is_iceberg e then slice e - q else slice e)"
  "is_iceberg (filled_entry q e) = is_iceberg e" "is_hidden (filled_entry q e) = is_hidden e"
  by (simp_all add: filled_entry_def is_iceberg_def is_hidden_def)

lemma shown_alt: "shown e = (if is_hidden e then 0 else if is_iceberg e then slice e else leaves (e_order e))"
  by (simp add: shown_def DisplayedOf_def is_hidden_def is_iceberg_def)

lemma shown_filled: "shown (filled_entry q e) = (if is_hidden e then 0 else shown e - q)"
  by (simp add: shown_alt)

lemma entry_ok_alt:
  "entry_ok i e \<longleftrightarrow> oid (e_order e) = i \<and> 0 < leaves (e_order e)
     \<and> (is_iceberg e \<longrightarrow> 0 < display_qty (e_order e) \<and> \<not> is_hidden e)
     \<and> (if is_iceberg e then 0 < slice e \<and> slice e \<le> leaves (e_order e) else slice e = 0)"
  by (simp add: entry_ok_def admissible_def is_iceberg_def is_hidden_def)

lemma exposed_bounds: "entry_ok i e \<Longrightarrow> 0 < exposed e \<and> exposed e \<le> leaves (e_order e)"
  by (auto simp: entry_ok_alt exposed_def split: if_splits)

lemma fill_maker_frame [simp]:
  "orders (fill_maker x p mid me q b) = AList.update mid (filled_entry q me) (orders b)"
  "stops (fill_maker x p mid me q b) = stops b" "pegged (fill_maker x p mid me q b) = pegged b"
  "groups (fill_maker x p mid me q b) = groups b" "order_group (fill_maker x p mid me q b) = order_group b"
  "opening_auction (fill_maker x p mid me q b) = opening_auction b"
  "closing_auction (fill_maker x p mid me q b) = closing_auction b"
  "mem_levels (fill_maker x p mid me q b) = mem_levels b" "stp (fill_maker x p mid me q b) = stp b"
  "deep_bid (fill_maker x p mid me q b) = deep_bid b" "deep_ask (fill_maker x p mid me q b) = deep_ask b"
  "next_seq (fill_maker x p mid me q b) = next_seq b" "requeued (fill_maker x p mid me q b) = requeued b"
  "book_symbol (fill_maker x p mid me q b) = book_symbol b" "event_sink (fill_maker x p mid me q b) = event_sink b"
  "last_price (fill_maker x p mid me q b) = p" "have_last (fill_maker x p mid me q b)"
  "events (fill_maker x p mid me q b) = events b @ (if event_sink b
     then [trade_event (book_symbol b) (fill_trade x mid p q) (if is_hidden me then 0 else q)] else [])"
  "ladder (fill_maker x p mid me q b) t = (if t = Opposite (side x)
     then upd_level (ladder b t) p (lvl_fill q (is_hidden me)) else ladder b t)"
  by (simp_all add: fill_maker_def Let_def)

lemma erase_maker_frame [simp]:
  "orders (erase_maker s p it mid b) = AList.delete mid (orders b)"
  "stops (erase_maker s p it mid b) = stops b" "pegged (erase_maker s p it mid b) = removeAll mid (pegged b)"
  "groups (erase_maker s p it mid b) = groups b" "order_group (erase_maker s p it mid b) = order_group b"
  "positions (erase_maker s p it mid b) = positions b"
  "opening_auction (erase_maker s p it mid b) = opening_auction b"
  "closing_auction (erase_maker s p it mid b) = closing_auction b"
  "mem_levels (erase_maker s p it mid b) = mem_levels b" "stp (erase_maker s p it mid b) = stp b"
  "deep_bid (erase_maker s p it mid b) = deep_bid b" "deep_ask (erase_maker s p it mid b) = deep_ask b"
  "next_seq (erase_maker s p it mid b) = next_seq b" "requeued (erase_maker s p it mid b) = requeued b"
  "book_symbol (erase_maker s p it mid b) = book_symbol b" "event_sink (erase_maker s p it mid b) = event_sink b"
  "events (erase_maker s p it mid b) = events b" "last_price (erase_maker s p it mid b) = last_price b"
  "have_last (erase_maker s p it mid b) = have_last b"
  "ladder (erase_maker s p it mid b) t = (if t = s
     then upd_level (ladder b s) p (\<lambda>l. l\<lparr>fifo := erase_at it (fifo l)\<rparr>) else ladder b t)"
  by (simp_all add: erase_maker_def Let_def)

lemma position_of_erase [simp]: "position_of (erase_maker s p it mid b) = position_of b"
  by (simp add: position_of_def fun_eq_iff)

lemma replenish_maker_frame [simp]:
  "orders (replenish_maker s p it mid me b) = AList.update mid (replenished me (next_seq b)) (orders b)"
  "stops (replenish_maker s p it mid me b) = stops b" "pegged (replenish_maker s p it mid me b) = pegged b"
  "groups (replenish_maker s p it mid me b) = groups b" "order_group (replenish_maker s p it mid me b) = order_group b"
  "positions (replenish_maker s p it mid me b) = positions b"
  "opening_auction (replenish_maker s p it mid me b) = opening_auction b"
  "closing_auction (replenish_maker s p it mid me b) = closing_auction b"
  "mem_levels (replenish_maker s p it mid me b) = mem_levels b" "stp (replenish_maker s p it mid me b) = stp b"
  "deep_bid (replenish_maker s p it mid me b) = deep_bid b" "deep_ask (replenish_maker s p it mid me b) = deep_ask b"
  "next_seq (replenish_maker s p it mid me b) = Suc (next_seq b)"
  "book_symbol (replenish_maker s p it mid me b) = book_symbol b"
  "event_sink (replenish_maker s p it mid me b) = event_sink b"
  "last_price (replenish_maker s p it mid me b) = last_price b"
  "have_last (replenish_maker s p it mid me b) = have_last b"
  "events (replenish_maker s p it mid me b) = events b @ (if event_sink b
     then [let e = replenished me (next_seq b) in order_event kReplenish (book_symbol b) (e_order e) (slice e) (slice e)]
     else [])"
  "ladder (replenish_maker s p it mid me b) t = (if t = s then upd_level (ladder b s) p
     (\<lambda>l. l\<lparr>fifo := splice_back it (fifo l),
       displayed := displayed l + slice (replenished me (next_seq b))\<rparr>) else ladder b t)"
  by (simp_all add: replenish_maker_def Let_def)

lemma position_of_replenish [simp]: "position_of (replenish_maker s p it mid me b) = position_of b"
  by (simp add: position_of_def fun_eq_iff)

text \<open>The core invariant after one entry is dropped or changed in place on one side.\<close>

lemma book_core_drop:
  assumes core: "book_core b" and e: "omap b i = Some e" "side (e_order e) = s" "price (e_order e) = p"
    and b': "orders b' = AList.delete i (orders b)" "pegged b' = removeAll i (pegged b)"
      "\<And>t. l_side (ladder b' t) = t" "\<And>t. ladder_ok (ladder b' t)"
      "lvl b' s = (lvl b s)(p := lvl_drop i (leaves (e_order e)) (shown e) (lvl b s p))"
      "\<And>t. t \<noteq> s \<Longrightarrow> lvl b' t = lvl b t"
  shows "book_core b'"
proof (rule book_coreI)
  fix t
  show "lvls_ok (omap b') t (lvl b' t)"
  proof (cases "t = s")
    case True
    then show ?thesis
      using lvls_ok_drop [OF book_coreD(3) [OF core] e] b'(1,5) by simp
  next
    case False
    then show ?thesis
      using lvls_ok_other [OF book_coreD(3) [OF core], where x = None and i = i] e b'(1,6) by simp
  qed
  show "l_side (ladder b' t) = t" "ladder_ok (ladder b' t)" by (fact b'(3) b'(4))+
next
  show "distinct (map fst (orders b'))" using b'(1) book_coreD(4) [OF core] by simp
  show "distinct (pegged b')" using b'(2) book_coreD(6) [OF core] by (simp add: distinct_removeAll)
  show "pegs_ok (omap b') (pegged b')" using b'(1,2) pegs_ok_delete [OF book_coreD(7) [OF core]] by simp
  show "entry_ok j e'" if "omap b' j = Some e'" for j e'
    using that b'(1) book_coreD(5) [OF core] by (auto split: if_splits)
qed

lemma book_core_change:
  assumes core: "book_core b" and e: "omap b i = Some e" "side (e_order e) = s" "price (e_order e) = p"
    and e': "side (e_order e') = s" "price (e_order e') = p" "entry_ok i e'"
      "peg (e_order e') = peg (e_order e)"
    and b': "omap b' = (omap b)(i \<mapsto> e')" "map fst (orders b') = map fst (orders b)" "pegged b' = pegged b"
      "\<And>t. l_side (ladder b' t) = t" "\<And>t. ladder_ok (ladder b' t)"
      "lvl b' s = (lvl b s)(p := l')" "\<And>t. t \<noteq> s \<Longrightarrow> lvl b' t = lvl b t"
    and l': "mset (fifo l') = mset (fifo (lvl b s p))"
      "total l' = total (lvl b s p) - leaves (e_order e) + leaves (e_order e')"
      "displayed l' = displayed (lvl b s p) - shown e + shown e'"
  shows "book_core b'"
proof (rule book_coreI)
  fix t
  show "lvls_ok (omap b') t (lvl b' t)"
  proof (cases "t = s")
    case True
    then show ?thesis
      using lvls_ok_change [OF book_coreD(3) [OF core] e e'(1,2) l'] b'(1,6) by simp
  next
    case False
    then show ?thesis
      using lvls_ok_other [OF book_coreD(3) [OF core], where x = "Some e'" and i = i] e e' b'(1,7) by simp
  qed
  show "l_side (ladder b' t) = t" "ladder_ok (ladder b' t)" by (fact b'(4) b'(5))+
next
  show "distinct (map fst (orders b'))" using b'(2) book_coreD(4) [OF core] by simp
  show "distinct (pegged b')" using b'(3) book_coreD(6) [OF core] by simp
  show "pegs_ok (omap b') (pegged b')"
    using b'(1,3) pegs_ok_update [OF book_coreD(7) [OF core] e(1) e'(4)] by simp
  show "entry_ok j x" if "omap b' j = Some x" for j x
    using that b'(1) e'(3) book_coreD(5) [OF core] by (cases "j = i") auto
qed

text \<open>The reservation stays exact when an entry of the table shrinks by what is released.\<close>

lemma reserved_exact_shrink:
  assumes "book_core b" "reserved_exact b" "omap b i = Some e"
    "\<And>c s. alist_sum (reserved_leaves c s) (orders b') = alist_sum (reserved_leaves c s) (orders b)
        - (if is_reduce_only (e_order e) \<and> client_id (e_order e) = c \<and> side (e_order e) = s then q else 0)"
    "\<And>c s. c \<noteq> 0 \<Longrightarrow>
        (is_reduce_only (e_order e) \<Longrightarrow> client_id (e_order e) \<noteq> 0 \<Longrightarrow> positions b (client_id (e_order e)) \<noteq> None) \<Longrightarrow>
        reserved_on (position_of b' c) s = reserved_on (position_of b c) s
        - (if is_reduce_only (e_order e) \<and> client_id (e_order e) = c \<and> side (e_order e) = s then q else 0)"
  shows "reserved_exact b'"
  using assms(2) assms(5) [OF _ reserved_position [OF assms(1,2,3)]]
  by (simp add: reserved_exact_def assms(4))

lemma reserved_fill_maker:
  assumes "is_reduce_only (e_order me) \<Longrightarrow> client_id (e_order me) \<noteq> 0 \<Longrightarrow> positions b (client_id (e_order me)) \<noteq> None"
    and "c \<noteq> 0"
  shows "reserved_on (position_of (fill_maker x p mid me q b) c) s = reserved_on (position_of b c) s
      - (if is_reduce_only (e_order me) \<and> client_id (e_order me) = c \<and> side (e_order me) = s then q else 0)"
  unfolding fill_maker_def Let_def
  by (subst reserved_release) (use assms in \<open>simp_all add: apply_position_keeps\<close>)

text \<open>What the matcher's loop needs to know of a change at price \<open>p\<close> of side \<open>s\<close>.\<close>

definition level_change :: "Side \<Rightarrow> Ticks \<Rightarrow> Book \<Rightarrow> Book \<Rightarrow> bool" where
  "level_change s p b b' \<longleftrightarrow> book_core b' \<and> evolves b b' \<and> pools_eq b b'
     \<and> deep_bid b' = deep_bid b \<and> deep_ask b' = deep_ask b
     \<and> same_shape (ladder b s) (ladder b' s) \<and> (\<forall>t. t \<noteq> s \<longrightarrow> ladder b' t = ladder b t)
     \<and> (\<forall>r. r \<noteq> p \<longrightarrow> lvl b' s r = lvl b s r) \<and> keys_le b b'
     \<and> (\<forall>i. i \<notin> set (fifo (lvl b s p)) \<longrightarrow> omap b' i = omap b i)
     \<and> set (fifo (lvl b' s p)) \<subseteq> set (fifo (lvl b s p))"

lemma level_change_trans [trans]:
  assumes "level_change s p a b" "level_change s p b c"
  shows "level_change s p a c"
proof -
  have "omap c i = omap a i" if "i \<notin> set (fifo (lvl a s p))" for i
    using assms that unfolding level_change_def by (metis subsetD)
  moreover have "set (fifo (lvl c s p)) \<subseteq> set (fifo (lvl a s p))"
    using assms unfolding level_change_def by blast
  moreover have "evolves a c" "pools_eq a c" "same_shape (ladder a s) (ladder c s)" "keys_le a c"
    using assms unfolding level_change_def
    by (metis evolves_trans, metis pools_eq_trans, metis same_shape_trans, metis keys_le_trans)
  ultimately show ?thesis
    using assms unfolding level_change_def by simp
qed

lemma level_change_refl: "book_core b \<Longrightarrow> level_change s p b b"
  by (simp add: level_change_def)

lemma queue_entry:
  assumes "book_core b" "it < length (fifo (lvl b s p))" "mid = fifo (lvl b s p) ! it" "omap b mid = Some me"
  shows "side (e_order me) = s" "price (e_order me) = p" "entry_ok mid me" "covers (ladder b s) p"
proof -
  have "mid \<in> set (fifo (lvl b s p))" using assms(2,3) by simp
  from book_core_queue [OF assms(1) this] assms(4)
  show "side (e_order me) = s" "price (e_order me) = p" "entry_ok mid me" "covers (ladder b s) p"
    by (metis option.inject)+
qed

lemma queue_mem: "it < length (fifo l) \<Longrightarrow> mid = fifo l ! it \<Longrightarrow> mid \<in> set (fifo l)"
  by simp

lemma fill_out_step:
  assumes core: "book_core b" and s: "s = Opposite (side x)" and it: "it < length (fifo (lvl b s p))"
    and mid: "mid = fifo (lvl b s p) ! it" and me: "omap b mid = Some me" and q: "q = leaves (e_order me)"
    and ex: "q \<le> exposed me"
    and b': "b' = erase_maker s p it mid (fill_maker x p mid me q b)"
  shows "level_change s p b b'" "total (lvl b' s p) = total (lvl b s p) - q"
    "fifo (lvl b' s p) = erase_at it (fifo (lvl b s p))"
    "omap b' = (omap b)(mid := None)"
proof -
  note sp = queue_entry(1,2) [OF core it mid me] and ok = queue_entry(3) [OF core it mid me]
    and cov = queue_entry(4) [OF core it mid me]
  have d: "distinct (fifo (lvl b s p))" by (rule book_core_level(4) [OF core])
  have shown: "shown me = (if is_hidden me then 0 else q)"
    using ok ex q by (auto simp: shown_alt entry_ok_alt exposed_def)
  have lv: "lvl b' t = (if t = s then (lvl b s)(p := lvl_drop mid q (shown me) (lvl b s p)) else lvl b t)" for t
    using cov erase_at_eq_filter [OF d it] mid s
    by (auto simp: b' lvl_def fun_eq_iff level_at_upd_level lvl_fill_def lvl_drop_def shown)
  show map: "omap b' = (omap b)(mid := None)" by (auto simp: b')
  have core': "book_core b'"
    by (rule book_core_drop [OF core me sp])
      (use lv q book_coreD [OF core] s in \<open>auto simp: b' frame_simps upd_level_ok\<close>)
  moreover have "evolves b b'"
  proof (rule evolves_step)
    show "table_step (0 < mem_levels b) (book_symbol b) (omap b)
       [trade_event (book_symbol b) (fill_trade x mid p q) (if is_hidden me then 0 else t_qty (fill_trade x mid p q))] (omap b')"
      unfolding map using ok me q ex by (intro table_step.fill_out) (auto simp: fill_trade_def)
    show "reserved_exact b'" if "reserved_exact b"
    proof (rule reserved_exact_shrink [OF core that me])
      show "alist_sum (reserved_leaves c t) (orders b') = alist_sum (reserved_leaves c t) (orders b) -
        (if is_reduce_only (e_order me) \<and> client_id (e_order me) = c \<and> side (e_order me) = t then q else 0)" for c t
        using alist_sum_delete [OF book_coreD(4) [OF core] me, of "reserved_leaves c t"] q
        by (simp add: b' reserved_leaves_def)
    qed (simp add: b' reserved_fill_maker)
  qed (auto simp: b' fill_trade_def)
  ultimately show "level_change s p b b'"
    using lv s keys_le_delete [of b' mid b] queue_mem [OF it mid]
    by (auto simp: level_change_def b' pools_eq_def same_shape_def frame_simps lvl_drop_def)
  show "total (lvl b' s p) = total (lvl b s p) - q" "fifo (lvl b' s p) = erase_at it (fifo (lvl b s p))"
    using lv erase_at_eq_filter [OF d it] mid by (simp_all add: lvl_drop_def)
qed

lemma fill_part_step:
  assumes core: "book_core b" and s: "s = Opposite (side x)" and it: "it < length (fifo (lvl b s p))"
    and mid: "mid = fifo (lvl b s p) ! it" and me: "omap b mid = Some me" and q: "0 < q" "q < exposed me"
    and b': "b' = fill_maker x p mid me q b"
  shows "level_change s p b b'" "total (lvl b' s p) = total (lvl b s p) - q"
    "fifo (lvl b' s p) = fifo (lvl b s p)" "omap b' = (omap b)(mid \<mapsto> filled_entry q me)"
proof -
  note sp = queue_entry(1,2) [OF core it mid me] and ok = queue_entry(3) [OF core it mid me]
    and cov = queue_entry(4) [OF core it mid me]
  have lv: "lvl b' t = (if t = s then (lvl b s)(p := lvl_fill q (is_hidden me) (lvl b s p)) else lvl b t)" for t
    using cov s by (auto simp: b' lvl_def fun_eq_iff level_at_upd_level)
  show map: "omap b' = (omap b)(mid \<mapsto> filled_entry q me)" by (simp add: b')
  have ok': "entry_ok mid (filled_entry q me)"
    using ok q by (auto simp: entry_ok_alt exposed_def split: if_splits)
  have keys: "map fst (orders b') = map fst (orders b)" using me by (simp add: b' map_of_Some_key)
  have "book_core b'"
    by (rule book_core_change [OF core me sp _ _ ok' _ map keys,
          where l' = "lvl_fill q (is_hidden me) (lvl b s p)"])
      (use lv s sp book_coreD [OF core] in \<open>auto simp: b' frame_simps upd_level_ok lvl_fill_def shown_filled shown_alt\<close>)
  moreover have "evolves b b'"
  proof (rule evolves_step)
    show "table_step (0 < mem_levels b) (book_symbol b) (omap b)
       [trade_event (book_symbol b) (fill_trade x mid p q) (if is_hidden me then 0 else t_qty (fill_trade x mid p q))] (omap b')"
      using table_step.fill_part [of "omap b" mid me "fill_trade x mid p q"] ok me q
      by (simp add: map fill_trade_def)
    show "reserved_exact b'" if "reserved_exact b"
    proof (rule reserved_exact_shrink [OF core that me])
      show "alist_sum (reserved_leaves c t) (orders b') = alist_sum (reserved_leaves c t) (orders b) -
        (if is_reduce_only (e_order me) \<and> client_id (e_order me) = c \<and> side (e_order me) = t then q else 0)" for c t
        using alist_sum_update [OF book_coreD(4) [OF core] me, of "reserved_leaves c t" "filled_entry q me"]
        by (simp add: b' reserved_leaves_def is_reduce_only_def)
    qed (simp add: b' reserved_fill_maker)
  qed (auto simp: b' fill_trade_def)
  ultimately show "level_change s p b b'"
    using lv s keys_le_same [OF keys map me] queue_mem [OF it mid]
    by (auto simp: level_change_def b' pools_eq_def same_shape_def frame_simps lvl_fill_def)
  show "total (lvl b' s p) = total (lvl b s p) - q" "fifo (lvl b' s p) = fifo (lvl b s p)"
    using lv by (simp_all add: lvl_fill_def)
qed

lemma replenished_sel [simp]:
  "e_order (replenished e k) = (e_order e)\<lparr>rank := k\<rparr>"
  "slice (replenished e k) = min (display_qty (e_order e)) (leaves (e_order e))"
  "is_iceberg (replenished e k) = is_iceberg e" "is_hidden (replenished e k) = is_hidden e"
  by (simp_all add: replenished_def is_iceberg_def is_hidden_def)

lemma fill_replenish_step:
  assumes core: "book_core b" and s: "s = Opposite (side x)" and it: "it < length (fifo (lvl b s p))"
    and mid: "mid = fifo (lvl b s p) ! it" and me: "omap b mid = Some me"
    and ice: "is_iceberg me" "q = slice me" "q < leaves (e_order me)"
    and b': "b' = replenish_maker s p it mid (filled_entry q me) (fill_maker x p mid me q b)"
  shows "level_change s p b b'" "total (lvl b' s p) = total (lvl b s p) - q"
    "fifo (lvl b' s p) = splice_back it (fifo (lvl b s p))"
    "omap b' = (omap b)(mid \<mapsto> replenished (filled_entry q me) (next_seq b))"
proof -
  let ?e = "replenished (filled_entry q me) (next_seq b)"
  note sp = queue_entry(1,2) [OF core it mid me] and ok = queue_entry(3) [OF core it mid me]
    and cov = queue_entry(4) [OF core it mid me]
  have nh: "\<not> is_hidden me" using ok ice(1) by (simp add: entry_ok_alt)
  have lv: "lvl b' t = (if t = s then (lvl b s)(p := (lvl b s p)\<lparr>total := total (lvl b s p) - q,
      displayed := displayed (lvl b s p) - q + slice ?e, fifo := splice_back it (fifo (lvl b s p))\<rparr>) else lvl b t)" for t
    using cov s nh by (auto simp: b' lvl_def fun_eq_iff level_at_upd_level lvl_fill_def)
  show map: "omap b' = (omap b)(mid \<mapsto> ?e)" by (simp add: b')
  have ok': "entry_ok mid ?e" using ok ice by (auto simp: entry_ok_alt)
  have keys: "map fst (orders b') = map fst (orders b)" using me by (simp add: b' map_of_Some_key)
  have "book_core b'"
    by (rule book_core_change [OF core me sp _ _ ok' _ map keys,
          where l' = "(lvl b s p)\<lparr>total := total (lvl b s p) - q, displayed := displayed (lvl b s p) - q + slice ?e,
            fifo := splice_back it (fifo (lvl b s p))\<rparr>"])
      (use lv s sp ice nh it book_coreD [OF core] in
        \<open>auto simp: b' frame_simps upd_level_ok mset_splice_back shown_alt\<close>)
  moreover have "evolves b b'"
  proof (rule evolves_step)
    show "table_step (0 < mem_levels b) (book_symbol b) (omap b)
       [trade_event (book_symbol b) (fill_trade x mid p q) (t_qty (fill_trade x mid p q)),
        order_event kReplenish (book_symbol b) (e_order ?e) (slice ?e) (slice ?e)] (omap b')"
      using table_step.fill_replenish [of "omap b" mid me "fill_trade x mid p q" ?e "next_seq b"] ok me ice
      by (simp add: map fill_trade_def)
    show "reserved_exact b'" if "reserved_exact b"
    proof (rule reserved_exact_shrink [OF core that me])
      show "alist_sum (reserved_leaves c t) (orders b') = alist_sum (reserved_leaves c t) (orders b) -
        (if is_reduce_only (e_order me) \<and> client_id (e_order me) = c \<and> side (e_order me) = t then q else 0)" for c t
        using alist_sum_update [OF book_coreD(4) [OF core] me, of "reserved_leaves c t" ?e]
        by (simp add: b' reserved_leaves_def is_reduce_only_def)
    qed (simp add: b' reserved_fill_maker)
  qed (use nh in \<open>auto simp: b' fill_trade_def Let_def\<close>)
  ultimately show "level_change s p b b'"
    using lv s keys_le_same [OF keys map me] queue_mem [OF it mid] it
    by (auto simp: level_change_def b' pools_eq_def same_shape_def frame_simps)
  show "total (lvl b' s p) = total (lvl b s p) - q" "fifo (lvl b' s p) = splice_back it (fifo (lvl b s p))"
    using lv by simp_all
qed

text \<open>One fill, whatever becomes of the maker.\<close>

lemma fill_step:
  assumes core: "book_core b" and s: "s = Opposite (side x)" and it: "it < length (fifo (lvl b s p))"
    and mid: "mid = fifo (lvl b s p) ! it" and me: "omap b mid = Some me" and q: "0 < q" "q \<le> exposed me"
    and st: "settle_maker s p it mid (filled_entry q me) (fill_maker x p mid me q b) = (b', it')"
  shows "level_change s p b b'" "total (lvl b' s p) = total (lvl b s p) - q"
    "length (fifo (lvl b' s p)) \<le> length (fifo (lvl b s p))" "it \<le> it'" "it' \<le> length (fifo (lvl b' s p))"
    "set (fifo (lvl b' s p)) \<subseteq> set (fifo (lvl b s p))"
proof -
  note ok = queue_entry(3) [OF core it mid me] and cov = queue_entry(4) [OF core it mid me]
  consider (out) "q = leaves (e_order me)"
    | (replenish) "is_iceberg me" "q = slice me" "q < leaves (e_order me)"
    | (part) "q < exposed me" "q < leaves (e_order me)" "is_iceberg me \<Longrightarrow> q < slice me"
    using q ok by (fastforce simp: entry_ok_alt exposed_def split: if_splits)
  then have "level_change s p b b' \<and> total (lvl b' s p) = total (lvl b s p) - q
    \<and> length (fifo (lvl b' s p)) \<le> length (fifo (lvl b s p)) \<and> it \<le> it' \<and> it' \<le> length (fifo (lvl b' s p))
    \<and> set (fifo (lvl b' s p)) \<subseteq> set (fifo (lvl b s p))"
  proof cases
    case out
    with st have b': "b' = erase_maker s p it mid (fill_maker x p mid me q b)" "it' = it"
      by (auto simp: settle_maker_def)
    from fill_out_step [OF core s it mid me out q(2) b'(1)] b'(2) it show ?thesis
      by (auto simp: erase_at_def dest: in_set_takeD in_set_dropD)
  next
    case replenish
    have "lvl (fill_maker x p mid me q b) s p = lvl_fill q (is_hidden me) (lvl b s p)"
      using cov s by (simp add: lvl_def level_at_upd_level)
    with replenish st have b': "b' = replenish_maker s p it mid (filled_entry q me) (fill_maker x p mid me q b)"
      "it' = (if Suc it = length (fifo (lvl b s p)) then Suc it else it)"
      by (auto simp: settle_maker_def lvl_fill_def)
    from fill_replenish_step [OF core s it mid me replenish b'(1)] b'(2) it show ?thesis by auto
  next
    case part
    with st have b': "b' = fill_maker x p mid me q b" "it' = Suc it"
      by (auto simp: settle_maker_def split: if_splits)
    from fill_part_step [OF core s it mid me q(1) part(1) b'(1)] b'(2) it show ?thesis by auto
  qed
  then show "level_change s p b b'" "total (lvl b' s p) = total (lvl b s p) - q"
    "length (fifo (lvl b' s p)) \<le> length (fifo (lvl b s p))" "it \<le> it'" "it' \<le> length (fifo (lvl b' s p))"
    "set (fifo (lvl b' s p)) \<subseteq> set (fifo (lvl b s p))" by blast+
qed

subsection \<open>A cancel by self-trade prevention\<close>

lemma stp_cancel_maker_frame [simp]:
  "orders (stp_cancel_maker s p it mid me b) = AList.delete mid (orders b)"
  "pegged (stp_cancel_maker s p it mid me b) = removeAll mid (pegged b)"
  "pools_eq b (stp_cancel_maker s p it mid me b)"
  "mem_levels (stp_cancel_maker s p it mid me b) = mem_levels b" "stp (stp_cancel_maker s p it mid me b) = stp b"
  "deep_bid (stp_cancel_maker s p it mid me b) = deep_bid b" "deep_ask (stp_cancel_maker s p it mid me b) = deep_ask b"
  "next_seq (stp_cancel_maker s p it mid me b) = next_seq b"
  "book_symbol (stp_cancel_maker s p it mid me b) = book_symbol b"
  "event_sink (stp_cancel_maker s p it mid me b) = event_sink b"
  "last_price (stp_cancel_maker s p it mid me b) = last_price b"
  "have_last (stp_cancel_maker s p it mid me b) = have_last b"
  "events (stp_cancel_maker s p it mid me b) = events b @ (if event_sink b
     then [order_event kCancel (book_symbol b) (e_order me) (leaves (e_order me)) (shown me)] else [])"
  "ladder (stp_cancel_maker s p it mid me b) t = (if t = s then upd_level (upd_level (ladder b s) p
      (\<lambda>l. l\<lparr>total := total l - leaves (e_order me), displayed := displayed l - shown me\<rparr>)) p
      (\<lambda>l. l\<lparr>fifo := erase_at it (fifo l)\<rparr>) else ladder b t)"
  by (simp_all add: stp_cancel_maker_def Let_def pools_eq_def)

lemma stp_cancel_step:
  assumes core: "book_core b" and it: "it < length (fifo (lvl b s p))"
    and mid: "mid = fifo (lvl b s p) ! it" and me: "omap b mid = Some me"
    and b': "b' = stp_cancel_maker s p it mid me b"
  shows "level_change s p b b'" "total (lvl b' s p) = total (lvl b s p) - leaves (e_order me)"
    "fifo (lvl b' s p) = erase_at it (fifo (lvl b s p))" "omap b' = (omap b)(mid := None)"
proof -
  note sp = queue_entry(1,2) [OF core it mid me] and ok = queue_entry(3) [OF core it mid me]
    and cov = queue_entry(4) [OF core it mid me]
  have d: "distinct (fifo (lvl b s p))" by (rule book_core_level(4) [OF core])
  have lv: "lvl b' t = (if t = s then (lvl b s)(p := lvl_drop mid (leaves (e_order me)) (shown me) (lvl b s p)) else lvl b t)" for t
    using cov erase_at_eq_filter [OF d it] mid
    by (auto simp: b' lvl_def fun_eq_iff level_at_upd_level lvl_drop_def)
  show map: "omap b' = (omap b)(mid := None)" by (simp add: b')
  have "book_core b'"
    by (rule book_core_drop [OF core me sp])
      (use lv book_coreD [OF core] in \<open>auto simp: b' frame_simps upd_level_ok\<close>)
  moreover have "evolves b b'"
  proof (rule evolves_step)
    show "table_step (0 < mem_levels b) (book_symbol b) (omap b)
       [order_event kCancel (book_symbol b) (e_order me) (leaves (e_order me)) (shown me)] (omap b')"
      unfolding map using ok me by (intro table_step.leave)
    show "reserved_exact b'" if "reserved_exact b"
    proof (rule reserved_exact_shrink [OF core that me])
      show "alist_sum (reserved_leaves c t) (orders b') = alist_sum (reserved_leaves c t) (orders b) -
        (if is_reduce_only (e_order me) \<and> client_id (e_order me) = c \<and> side (e_order me) = t
         then leaves (e_order me) else 0)" for c t
        using alist_sum_delete [OF book_coreD(4) [OF core] me, of "reserved_leaves c t"]
        by (simp add: b' reserved_leaves_def)
    qed (simp add: b' stp_cancel_maker_def Let_def reserved_release)
  qed (auto simp: b')
  ultimately show "level_change s p b b'"
    using lv keys_le_delete [of b' mid b] queue_mem [OF it mid]
    by (auto simp: level_change_def b' same_shape_def frame_simps lvl_drop_def)
  show "total (lvl b' s p) = total (lvl b s p) - leaves (e_order me)"
    "fifo (lvl b' s p) = erase_at it (fifo (lvl b s p))"
    using lv erase_at_eq_filter [OF d it] mid by (simp_all add: lvl_drop_def)
qed

subsection \<open>An order leaves\<close>

lemma unlink_level_spec:
  assumes "covers L (price (e_order e))"
  shows "level_at (unlink_level e L) = (level_at L)(price (e_order e) :=
      lvl_drop (oid (e_order e)) (leaves (e_order e)) (shown e) (level_at L (price (e_order e))))"
    "l_side (unlink_level e L) = l_side L" "ladder_ok L \<Longrightarrow> ladder_ok (unlink_level e L)"
  using assms by (simp_all add: unlink_level_def Let_def ladder_at_eq frame_simps ladder.at_set upd_level_ok)

lemma unlink_level_cache:
  assumes "covers L p" "cache_ok L" "p = price (e_order e)" "0 < leaves (e_order e)"
    "leaves (e_order e) \<le> total (level_at L p)"
  shows "cache_ok (unlink_level e L)"
proof -
  let ?L = "upd_level L p (lvl_drop (oid (e_order e)) (leaves (e_order e)) (shown e))"
  have "cache_ok (if total (level_at ?L p) = 0 then on_removed ?L p else ?L)"
    by (rule cache_ok_reduced [OF assms(2)])
      (use assms in \<open>simp_all add: frame_simps level_at_upd_level lvl_drop_def\<close>)
  with assms(1) show ?thesis
    by (simp only: unlink_level_def Let_def ladder_at_eq option.case flip: assms(3))
qed

lemma entry_le_total:
  assumes "book_core b" "omap b i = Some e"
  shows "leaves (e_order e) \<le> total (lvl b (side (e_order e)) (price (e_order e)))"
proof (rule lvls_ok_ge [OF book_coreD(3) [OF assms(1)] _ assms(2) refl refl])
  show "\<forall>i e. omap b i = Some e \<longrightarrow> 0 < leaves (e_order e)" using book_coreD(8) [OF assms(1)] by blast
qed

lemma cancel_resting_frame [simp]:
  "orders (cancel_resting i e b) = AList.delete i (orders b)"
  "pegged (cancel_resting i e b) = removeAll i (pegged b)"
  "pools_eq b (cancel_resting i e b)" "mem_levels (cancel_resting i e b) = mem_levels b"
  "stp (cancel_resting i e b) = stp b" "deep_bid (cancel_resting i e b) = deep_bid b"
  "deep_ask (cancel_resting i e b) = deep_ask b" "next_seq (cancel_resting i e b) = next_seq b"
  "book_symbol (cancel_resting i e b) = book_symbol b" "event_sink (cancel_resting i e b) = event_sink b"
  "last_price (cancel_resting i e b) = last_price b" "have_last (cancel_resting i e b) = have_last b"
  "requeued (cancel_resting i e b) = requeued b"
  "events (cancel_resting i e b) = events b @ (if event_sink b
     then [order_event kCancel (book_symbol b) (e_order e) (leaves (e_order e)) (shown e)] else [])"
  "ladder (cancel_resting i e b) t =
     (if t = side (e_order e) then unlink_level e (ladder b t) else ladder b t)"
  by (simp_all add: cancel_resting_def Let_def pools_eq_def)

lemma cancel_resting_step:
  assumes core: "book_core b" and e: "omap b i = Some e" and b': "b' = cancel_resting i e b"
  shows "book_core b'" "evolves b b'" "caches_ok b \<Longrightarrow> caches_ok b'" "keys_le b b'"
    "lvl b' t = (if t = side (e_order e) then (lvl b t)(price (e_order e) :=
       lvl_drop i (leaves (e_order e)) (shown e) (lvl b t (price (e_order e)))) else lvl b t)"
    "omap b' = (omap b)(i := None)"
proof -
  have ok: "entry_ok i e" by (rule book_coreD(5) [OF core e])
  then have i: "oid (e_order e) = i" and lv0: "0 < leaves (e_order e)" by (simp_all add: entry_ok_def)
  note cov = book_core_mem(2) [OF core e]
  show lv: "lvl b' t = (if t = side (e_order e) then (lvl b t)(price (e_order e) :=
       lvl_drop i (leaves (e_order e)) (shown e) (lvl b t (price (e_order e)))) else lvl b t)" for t
    using unlink_level_spec(1) [OF cov] i by (simp add: b' lvl_def)
  show map: "omap b' = (omap b)(i := None)" by (simp add: b')
  show "book_core b'"
    by (rule book_core_drop [OF core e refl refl])
      (use lv book_coreD [OF core] unlink_level_spec(2,3) [OF cov] in \<open>auto simp: b'\<close>)
  show "evolves b b'"
  proof (rule evolves_step)
    show "table_step (0 < mem_levels b) (book_symbol b) (omap b)
       [order_event kCancel (book_symbol b) (e_order e) (leaves (e_order e)) (shown e)] (omap b')"
      unfolding map using ok e by (intro table_step.leave)
    show "reserved_exact b'" if "reserved_exact b"
    proof (rule reserved_exact_shrink [OF core that e])
      show "alist_sum (reserved_leaves c t) (orders b') = alist_sum (reserved_leaves c t) (orders b) -
        (if is_reduce_only (e_order e) \<and> client_id (e_order e) = c \<and> side (e_order e) = t
         then leaves (e_order e) else 0)" for c t
        using alist_sum_delete [OF book_coreD(4) [OF core] e, of "reserved_leaves c t"]
        by (simp add: b' reserved_leaves_def)
    qed (simp add: b' cancel_resting_def Let_def reserved_release)
  qed (auto simp: b')
  show "keys_le b b'" by (rule keys_le_delete) (simp add: b')
  show "caches_ok b'" if "caches_ok b"
    using that entry_le_total [OF core e] unlink_level_cache [OF cov _ refl lv0]
    by (auto simp: caches_ok_def b' lvl_def)
qed

subsection \<open>An order joins\<close>

lemma place_frame [simp]:
  "orders (place x b) = emplace (oid x) \<lparr>e_order = x, slice = initial_slice x\<rparr> (orders b)"
  "pegged (place x b) = pegged b" "pools_eq b (place x b)" "mem_levels (place x b) = mem_levels b"
  "positions (place x b) = positions b"
  "stp (place x b) = stp b" "deep_bid (place x b) = deep_bid b" "deep_ask (place x b) = deep_ask b"
  "next_seq (place x b) = next_seq b" "book_symbol (place x b) = book_symbol b"
  "event_sink (place x b) = event_sink b" "last_price (place x b) = last_price b"
  "have_last (place x b) = have_last b" "requeued (place x b) = requeued b" "events (place x b) = events b"
  "ladder (place x b) t = (if t = side x
     then on_added (upd_level (touch (ladder b t) (price x)) (price x)
       (lvl_push (oid x) (leaves x) (DisplayedOf (flags x) (leaves x) (initial_slice x)))) (price x)
     else ladder b t)"
  by (simp_all add: place_def Let_def pools_eq_def)

lemma shown_new: "shown \<lparr>e_order = x, slice = initial_slice x\<rparr> = DisplayedOf (flags x) (leaves x) (initial_slice x)"
  by (simp add: shown_def)

lemma entry_ok_new:
  "0 < leaves x \<Longrightarrow> admissible x \<Longrightarrow> entry_ok (oid x) \<lparr>e_order = x, slice = initial_slice x\<rparr>"
  by (simp add: entry_ok_def initial_slice_def admissible_def)

lemma book_core_place:
  assumes core: "book_core b" and new: "omap b (oid x) = None" and x: "0 < leaves x" "admissible x"
    and b': "b' = place x b"
  shows "book_core b'" "omap b' = (omap b)(oid x \<mapsto> \<lparr>e_order = x, slice = initial_slice x\<rparr>)"
    "lvl b' t = (if t = side x then (lvl b t)(price x := lvl_push (oid x) (leaves x)
       (DisplayedOf (flags x) (leaves x) (initial_slice x)) (lvl b t (price x))) else lvl b t)"
    "caches_ok b \<Longrightarrow> caches_ok b'"
proof -
  let ?e = "\<lparr>e_order = x, slice = initial_slice x\<rparr>"
  let ?push = "lvl_push (oid x) (leaves x) (DisplayedOf (flags x) (leaves x) (initial_slice x))"
  show lv: "lvl b' t = (if t = side x then (lvl b t)(price x := ?push (lvl b t (price x))) else lvl b t)" for t
    using ladder.at_put [OF book_coreD(2) [OF core]] by (simp add: b' lvl_def frame_simps)
  show map: "omap b' = (omap b)(oid x \<mapsto> ?e)" using new by (simp add: b')
  show "book_core b'"
  proof (rule book_coreI)
    fix t
    show "lvls_ok (omap b') t (lvl b' t)"
    proof (cases "t = side x")
      case True
      then show ?thesis
        using lvls_ok_push [OF book_coreD(3) [OF core] new, of ?e t "price x"] lv map by (simp add: shown_new)
    next
      case False
      then show ?thesis
        using lvls_ok_other [OF book_coreD(3) [OF core], where x = "Some ?e" and i = "oid x"] new lv map by simp
    qed
    show "l_side (ladder b' t) = t" "ladder_ok (ladder b' t)"
      using book_coreD(1,2) [OF core] by (simp_all add: b' frame_simps touch_ok upd_level_ok)
  next
    show "distinct (map fst (orders b'))" using book_coreD(4) [OF core] by (simp add: b')
    show "distinct (pegged b')" using book_coreD(6) [OF core] by (simp add: b')
    show "pegs_ok (omap b') (pegged b')"
      using pegs_ok_new [OF book_coreD(7) [OF core] new] map by (simp add: b')
    show "entry_ok j e" if "omap b' j = Some e" for j e
      using that map entry_ok_new [OF x] book_coreD(5) [OF core] by (cases "j = oid x") auto
  qed
  show "caches_ok b'" if ok: "caches_ok b"
  proof -
    have "cache_ok (on_added (upd_level (touch (ladder b (side x)) (price x)) (price x) ?push) (price x))"
    proof (rule cache_ok_added)
      show "cache_ok (ladder b (side x))" using ok by (simp add: caches_ok_def)
      have "level_at (upd_level (touch (ladder b (side x)) (price x)) (price x) ?push) =
          (lvl b (side x))(price x := ?push (lvl b (side x) (price x)))"
        using ladder.at_put [OF book_coreD(2) [OF core]] by (simp add: lvl_def)
      with x(1) book_core_level(1) [OF core, of "side x" "price x"]
      show "0 < total (level_at (upd_level (touch (ladder b (side x)) (price x)) (price x) ?push) (price x))"
        "\<And>q. q \<noteq> price x \<Longrightarrow> level_at (upd_level (touch (ladder b (side x)) (price x)) (price x) ?push) q =
          level_at (ladder b (side x)) q"
        by (simp_all add: lvl_push_def lvl_def)
    qed (simp_all add: frame_simps)
    with ok show ?thesis by (simp add: caches_ok_def b')
  qed
qed

end
