(* ===== verification/Resting.thy ===== *)
theory Resting
  imports Book_Steps
begin

section \<open>Resting an order and the resident window (core/order\_book.cc: rest, evict\_worst)\<close>

text \<open>
  \<open>rest\<close> puts the remainder of an order on its own side. With a bounded window
  (\<open>mem_levels > 0\<close>) an order that would open a level beyond a full window rests deep, and
  an order that opens a better level pushes the worst resident level out. \<open>rest\<close> returns
  whether the order is resident, the evicted orders, and the book.
\<close>

definition opens_level :: "Order \<Rightarrow> Book \<Rightarrow> bool" where
  "opens_level order b =
     (mem_levels b > 0 \<longrightarrow>
       (case ladder_at (ladder b (side order)) (price order) of None \<Rightarrow> True | Some l \<Rightarrow> total l = 0))"

definition beyond_window :: "Order \<Rightarrow> Book \<Rightarrow> bool" where
  "beyond_window order b =
     (mem_levels b > 0 \<and> opens_level order b \<and>
       (case worst_price (ladder b (side order)) of
          None \<Rightarrow> False
        | Some worst \<Rightarrow> populated_count (ladder b (side order)) \<ge> mem_levels b
                       \<and> worse_than (side order) (price order) worst))"

definition rest :: "Order \<Rightarrow> Book \<Rightarrow> bool \<times> Order list \<times> Book" where
  "rest order b =
     (if beyond_window order b
      then (False, [], emit_add order (note_deep (side order) (price order) b))
      else let b1 = rest_resident order b;
               (b2, ev) = (if mem_levels b > 0 \<and> opens_level order b
                              \<and> populated_count (ladder b1 (side order)) > mem_levels b
                           then evict_worst (side order) b1 else (b1, []))
           in (True, ev, emit_add order b2))"

definition insert_resident :: "Order \<Rightarrow> Book \<Rightarrow> Book" where
  "insert_resident order b = place order b"

subsection \<open>Populated levels\<close>

lemma populated_count_card:
  assumes "ladder_ok L"
  shows "populated_count L = card {p. 0 < total (level_at L p)}"
proof (cases "has_base L")
  case False
  with assms show ?thesis by (simp add: populated_count_def ladder_ok_def no_base_level)
next
  case True
  let ?I = "{i. i < length (levels L) \<and> 0 < total (levels L ! i)}"
  have "{p. 0 < total (level_at L p)} = (\<lambda>i. base L + int i) ` ?I"
  proof (intro set_eqI iffI)
    fix p assume "p \<in> {p. 0 < total (level_at L p)}"
    then have pos: "0 < total (level_at L p)" by simp
    then obtain i where "i < length (levels L)" "p = base L + int i" "level_at L p = levels L ! i"
      using covers_if_total covers_index by metis
    with pos show "p \<in> (\<lambda>i. base L + int i) ` ?I" by auto
  qed (auto simp: level_at_index [OF True])
  moreover have "inj_on (\<lambda>i. base L + int i) ?I" by (simp add: inj_on_def)
  ultimately show ?thesis
    by (simp add: populated_count_def length_filter_conv_card card_image)
qed

lemma finite_populated: "finite {p. 0 < total (level_at L p)}"
proof (rule finite_subset)
  show "{p. 0 < total (level_at L p)} \<subseteq> {base L ..< base L + int (length (levels L))}"
    using covers_if_total by (fastforce simp: covers_def)
qed simp

subsection \<open>note\_deep and evict\_worst\<close>

lemma note_deep_frame [simp]:
  "orders (note_deep s p b) = orders b" "pegged (note_deep s p b) = pegged b"
  "pools_eq b (note_deep s p b)" "positions (note_deep s p b) = positions b"
  "mem_levels (note_deep s p b) = mem_levels b" "stp (note_deep s p b) = stp b"
  "next_seq (note_deep s p b) = next_seq b" "book_symbol (note_deep s p b) = book_symbol b"
  "event_sink (note_deep s p b) = event_sink b" "events (note_deep s p b) = events b"
  "last_price (note_deep s p b) = last_price b" "have_last (note_deep s p b) = have_last b"
  "ladder (note_deep s p b) = ladder b" "requeued (note_deep s p b) = requeued b"
  by (simp_all add: note_deep_def Let_def pools_eq_def)

lemma deep_of_note_deep:
  "deep_of (note_deep s p b) t = (if t = s then \<lparr>d_has = True, d_boundary =
     (if d_has (deep_of b s) then (if s = Buy then max (d_boundary (deep_of b s)) p
        else min (d_boundary (deep_of b s)) p) else p)\<rparr> else deep_of b t)"
  by (cases s; cases t) (simp_all add: note_deep_def deep_of_def Let_def)

lemma lvl_note_deep [simp]: "lvl (note_deep s p b) = lvl b"
  by (simp add: lvl_def fun_eq_iff)

lemma map_of_filter_key: "map_of (filter (\<lambda>kv. fst kv \<notin> A) m) = map_of m |` (- A)"
  by (induction m) (auto simp: restrict_map_def fun_eq_iff)

lemma delete_filter: "AList.delete i m = filter (\<lambda>kv. fst kv \<noteq> i) m"
  by (induction m) auto

lemma fold_evict_order:
  assumes "distinct is" "set is \<subseteq> dom (omap b)"
  shows "fold evict_order is (b, ev) =
    (b\<lparr>pegged := filter (\<lambda>j. j \<notin> set is) (pegged b), orders := filter (\<lambda>kv. fst kv \<notin> set is) (orders b)\<rparr>,
     ev @ map (\<lambda>i. e_order (the (omap b i))) is)"
  using assms
proof (induction "is" arbitrary: b ev)
  case (Cons i "is")
  from Cons.prems obtain e where e: "omap b i = Some e" by auto
  let ?b = "b\<lparr>pegged := removeAll i (pegged b), orders := AList.delete i (orders b)\<rparr>"
  have step: "evict_order i (b, ev) = (?b, ev @ [e_order e])"
    using e by (simp add: evict_order_def)
  have "set is \<subseteq> dom (omap ?b)" using Cons.prems by auto
  from Cons.IH [OF _ this, of "ev @ [e_order e]"] Cons.prems(1)
  have "fold evict_order (i # is) (b, ev) =
    (?b\<lparr>pegged := filter (\<lambda>j. j \<notin> set is) (pegged ?b), orders := filter (\<lambda>kv. fst kv \<notin> set is) (orders ?b)\<rparr>,
     (ev @ [e_order e]) @ map (\<lambda>i. e_order (the (omap ?b i))) is)"
    by (simp add: step)
  moreover have "map (\<lambda>j. e_order (the (omap ?b j))) is = map (\<lambda>j. e_order (the (omap b j))) is"
    using Cons.prems(1) by auto
  moreover have "filter (\<lambda>kv. fst kv \<notin> set is) (AList.delete i (orders b)) =
      filter (\<lambda>kv. fst kv \<notin> set (i # is)) (orders b)"
    "filter (\<lambda>j. j \<notin> set is) (removeAll i (pegged b)) = filter (\<lambda>j. j \<notin> set (i # is)) (pegged b)"
    by (simp_all add: delete_filter removeAll_filter_not_eq conj_commute eq_commute)
  ultimately show ?case using e by simp
qed simp

lemma worst_price_level:
  assumes "book_core b" "worst_price (ladder b s) = Some wp"
  shows "0 < total (lvl b s wp)" "covers (ladder b s) wp"
    "0 < total (lvl b s q) \<Longrightarrow> \<not> better (ladder b s) wp q"
  using worst_price_spec [OF book_coreD(2) [OF assms(1)], of s] assms(2) covers_if_total
  by (auto simp: lvl_def)

lemma evict_worst_eq:
  assumes core: "book_core b" and wp: "worst_price (ladder b s) = Some wp"
    and ids: "ids = fifo (lvl b s wp)"
  shows "evict_worst s b =
    (note_deep s wp (upd_ladder (b\<lparr>pegged := filter (\<lambda>j. j \<notin> set ids) (pegged b),
        orders := filter (\<lambda>kv. fst kv \<notin> set ids) (orders b)\<rparr>) s
        (\<lambda>L. on_removed (upd_level L wp (\<lambda>_. empty_Level)) wp)),
     map (\<lambda>i. e_order (the (omap b i))) ids)"
proof -
  have "distinct ids" "set ids \<subseteq> dom (omap b)"
    using book_core_level(4) [OF core] book_core_queue [OF core] unfolding ids by (blast, blast)
  from fold_evict_order [OF this, of "[]"] worst_price_level(2) [OF core wp] wp ids
  show ?thesis by (simp add: evict_worst_def ladder_at_eq lvl_def)
qed

lemma evict_worst_step:
  assumes core: "book_core b" and wp: "worst_price (ladder b s) = Some wp"
    and ev: "evict_worst s b = (b', ev)"
  shows "book_core b'" "caches_ok b \<Longrightarrow> caches_ok b'" "pools_eq b b'"
    "omap b' = omap b |` (- set (fifo (lvl b s wp)))"
    "lvl b' t = (if t = s then (lvl b s)(wp := empty_Level) else lvl b t)"
    "mem_levels b' = mem_levels b" "stp b' = stp b" "book_symbol b' = book_symbol b"
    "event_sink b' = event_sink b" "events b' = events b" "next_seq b' = next_seq b"
    "set (map fst (orders b')) \<subseteq> set (map fst (orders b))"
    "ev = map (\<lambda>i. e_order (the (omap b i))) (fifo (lvl b s wp))"
    "deep_of b' s = deep_of (note_deep s wp b) s"
    "last_price b' = last_price b" "have_last b' = have_last b"
proof -
  let ?ids = "fifo (lvl b s wp)"
  have b': "b' = note_deep s wp (upd_ladder (b\<lparr>pegged := filter (\<lambda>j. j \<notin> set ?ids) (pegged b),
        orders := filter (\<lambda>kv. fst kv \<notin> set ?ids) (orders b)\<rparr>) s
        (\<lambda>L. on_removed (upd_level L wp (\<lambda>_. empty_Level)) wp))"
    and "ev = map (\<lambda>i. e_order (the (omap b i))) ?ids"
    using evict_worst_eq [OF core wp refl] ev by simp_all
  then show "ev = map (\<lambda>i. e_order (the (omap b i))) ?ids" by simp
  note cov = worst_price_level(2) [OF core wp]
  show map: "omap b' = omap b |` (- set ?ids)" by (simp add: b' map_of_filter_key)
  show lv: "lvl b' t = (if t = s then (lvl b s)(wp := empty_Level) else lvl b t)" for t
    using cov by (simp add: b' lvl_def frame_simps ladder.at_set)
  show "pools_eq b b'" by (simp add: b' pools_eq_def note_deep_def Let_def)
  show "mem_levels b' = mem_levels b" "stp b' = stp b" "book_symbol b' = book_symbol b"
    "event_sink b' = event_sink b" "events b' = events b" "next_seq b' = next_seq b"
    "set (map fst (orders b')) \<subseteq> set (map fst (orders b))"
    "last_price b' = last_price b" "have_last b' = have_last b" by (auto simp: b')
  show "deep_of b' s = deep_of (note_deep s wp b) s"
    by (simp add: b' deep_of_note_deep) (simp add: deep_of_def)
  show "book_core b'"
  proof (rule book_coreI)
    fix t
    show "lvls_ok (omap b') t (lvl b' t)"
    proof (cases "t = s")
      case True
      then show ?thesis using lvls_ok_clear [OF book_coreD(3) [OF core]] lv map by simp
    next
      case False
      have "lvls_ok (omap b |` (- set ?ids)) t (lvl b t)"
        by (rule lvls_ok_clear_other [OF book_coreD(3) [OF core]])
          (use False book_core_queue [OF core] in \<open>metis option.inject\<close>)
      with False lv map show ?thesis by simp
    qed
    show "l_side (ladder b' t) = t" "ladder_ok (ladder b' t)"
      using book_coreD(1,2) [OF core] by (simp_all add: b' frame_simps upd_level_ok)
  next
    show "distinct (map fst (orders b'))"
      using book_coreD(4) [OF core] by (simp add: b' distinct_map_filter)
    show "distinct (pegged b')" using book_coreD(6) [OF core] by (simp add: b')
    show "pegs_ok (omap b') (pegged b')"
      unfolding map using pegs_ok_filter [OF book_coreD(7) [OF core]] by (simp add: b')
    show "entry_ok i e" if "omap b' i = Some e" for i e
      using that book_coreD(5) [OF core] unfolding map by (auto simp: restrict_map_def split: if_splits)
  qed
  show "caches_ok b'" if ok: "caches_ok b"
  proof -
    let ?L = "upd_level (ladder b s) wp (\<lambda>_. empty_Level)"
    have at: "level_at ?L wp = empty_Level" "\<And>q. q \<noteq> wp \<Longrightarrow> level_at ?L q = level_at (ladder b s) q"
      using cov by (simp_all add: level_at_upd_level)
    have "cache_ok (if total (level_at ?L wp) = 0 then on_removed ?L wp else ?L)"
      by (rule cache_ok_reduced [of "ladder b s"])
        (use ok at worst_price_level(1) [OF core wp] in \<open>auto simp: caches_ok_def frame_simps lvl_def\<close>)
    with ok at(1) show ?thesis by (simp add: caches_ok_def b')
  qed
qed

subsection \<open>rest\<close>

lemma position_of_place [simp]: "position_of (place x b) = position_of b"
  by (simp add: position_of_def fun_eq_iff)

lemma rest_resident_frame [simp]:
  "orders (rest_resident x b) = orders (place x b)" "pegged (rest_resident x b) = pegged b"
  "pools_eq b (rest_resident x b)" "mem_levels (rest_resident x b) = mem_levels b"
  "stp (rest_resident x b) = stp b" "next_seq (rest_resident x b) = next_seq b"
  "book_symbol (rest_resident x b) = book_symbol b" "event_sink (rest_resident x b) = event_sink b"
  "events (rest_resident x b) = events b" "last_price (rest_resident x b) = last_price b"
  "have_last (rest_resident x b) = have_last b" "ladder (rest_resident x b) = ladder (place x b)"
  "deep_bid (rest_resident x b) = deep_bid b" "deep_ask (rest_resident x b) = deep_ask b"
  by (simp_all add: rest_resident_def fun_eq_iff) (simp add: pools_eq_def place_def Let_def)

lemma book_core_rest_resident:
  assumes "book_core b" "omap b (oid x) = None" "0 < leaves x" "admissible x"
  shows "book_core (rest_resident x b)" "caches_ok b \<Longrightarrow> caches_ok (rest_resident x b)"
    "lvl (rest_resident x b) = lvl (place x b)"
proof -
  show "book_core (rest_resident x b)"
    by (rule book_core_cong [OF book_core_place(1) [OF assms refl]]) (simp_all add: fun_eq_iff)
  show "caches_ok (rest_resident x b)" if "caches_ok b"
    using book_core_place(4) [OF assms refl that] by (simp add: caches_ok_def)
  show "lvl (rest_resident x b) = lvl (place x b)" by (simp add: lvl_def fun_eq_iff)
qed

lemma emit_add_frame [simp]:
  "orders (emit_add x b) = orders b" "pegged (emit_add x b) = pegged b" "ladder (emit_add x b) = ladder b"
  "pools_eq b (emit_add x b)" "mem_levels (emit_add x b) = mem_levels b" "stp (emit_add x b) = stp b"
  "next_seq (emit_add x b) = next_seq b" "book_symbol (emit_add x b) = book_symbol b"
  "event_sink (emit_add x b) = event_sink b" "last_price (emit_add x b) = last_price b"
  "have_last (emit_add x b) = have_last b" "position_of (emit_add x b) = position_of b" "lvl (emit_add x b) = lvl b"
  "deep_bid (emit_add x b) = deep_bid b" "deep_ask (emit_add x b) = deep_ask b"
  "events (emit_add x b) = events b @ (if event_sink b then [order_event kAdd (book_symbol b) x (leaves x)
     (DisplayedOf (flags x) (leaves x) (initial_slice x))] else [])"
  by (simp_all add: emit_add_def pools_eq_def)

lemma join_step:
  assumes "omap b (oid x) = None" "0 < leaves x" "admissible x"
  shows "table_step w sy (omap b)
    [order_event kAdd sy x (leaves x) (DisplayedOf (flags x) (leaves x) (initial_slice x))] (omap (place x b))"
  using table_step.join [of "omap b" "oid x" "\<lparr>e_order = x, slice = initial_slice x\<rparr>"]
    entry_ok_new [OF assms(2,3)] assms(1) by (simp add: shown_new)

lemma rest_resident_evolves:
  assumes core: "book_core b" and x: "omap b (oid x) = None" "0 < leaves x" "admissible x"
  shows "evolves b (emit_add x (rest_resident x b))"
proof (rule evolves_step)
  let ?b = "emit_add x (rest_resident x b)" and ?e = "\<lparr>e_order = x, slice = initial_slice x\<rparr>"
  show "table_step (0 < mem_levels b) (book_symbol b) (omap b)
      [order_event kAdd (book_symbol b) x (leaves x) (DisplayedOf (flags x) (leaves x) (initial_slice x))] (omap ?b)"
    using join_step [OF x] by simp
  show "events ?b = events b @ (if event_sink b then [order_event kAdd (book_symbol b) x (leaves x)
      (DisplayedOf (flags x) (leaves x) (initial_slice x))] else [])" by simp
  show "reserved_exact ?b" if "reserved_exact b"
    unfolding reserved_exact_def
  proof (intro allI impI)
    fix c :: ClientId and t assume c: "c \<noteq> 0"
    have "alist_sum (reserved_leaves c t) (orders ?b) =
        alist_sum (reserved_leaves c t) (orders b) + reserved_leaves c t ?e"
      using alist_sum_emplace [OF x(1)] by simp
    with that c show "reserved_on (position_of ?b c) t = alist_sum (reserved_leaves c t) (orders ?b)"
      by (simp add: reserved_exact_def rest_resident_def reserved_reserve reserved_leaves_def)
  qed
qed simp_all

lemma opens_level_empty:
  "mem_levels b > 0 \<Longrightarrow> opens_level x b \<longleftrightarrow> total (lvl b (side x) (price x)) = 0"
  by (auto simp: opens_level_def lvl_def level_at_def split: option.splits)

lemma populated_place:
  assumes core: "book_core b" and x: "omap b (oid x) = None" "0 < leaves x" "admissible x"
  shows "{p. 0 < total (lvl (place x b) (side x) p)} = insert (price x) {p. 0 < total (lvl b (side x) p)}"
  using book_core_place(3) [OF core x refl, of "side x"] book_core_level(1) [OF core, of "side x" "price x"] x(2)
  by (auto simp: lvl_push_def)

text \<open>The order that overgrows the window is not the one that is pushed out.\<close>

lemma evicted_is_other:
  assumes core: "book_core b" and x: "omap b (oid x) = None" "0 < leaves x" "admissible x"
    and opens: "mem_levels b > 0" "opens_level x b" "\<not> beyond_window x b"
    and over: "populated_count (ladder (rest_resident x b) (side x)) > mem_levels b"
  obtains wp where "worst_price (ladder (rest_resident x b) (side x)) = Some wp" "wp \<noteq> price x"
proof -
  let ?b = "rest_resident x b" and ?s = "side x"
  note core1 = book_core_rest_resident(1) [OF core x]
  let ?P = "\<lambda>b. {p. 0 < total (lvl b ?s p)}"
  have fresh: "price x \<notin> ?P b" using opens by (simp add: opens_level_empty)
  have P1: "?P ?b = insert (price x) (?P b)"
    using populated_place [OF core x] book_core_rest_resident(3) [OF core x] by simp
  have fin: "finite (?P b)" using finite_populated by (simp add: lvl_def)
  have "mem_levels b < card (?P ?b)"
    using over populated_count_card [OF book_coreD(2) [OF core1, of ?s]] by (simp only: lvl_def)
  then have full: "mem_levels b \<le> card (?P b)" unfolding P1 using fin fresh by simp
  then have "?P b \<noteq> {}" using opens(1) by (metis card.empty le_zero_eq less_irrefl)
  then obtain w where w: "worst_price (ladder b ?s) = Some w"
    using worst_price_spec [OF book_coreD(2) [OF core], of ?s] by (auto simp: lvl_def split: option.splits)
  have "\<not> worse_than ?s (price x) w"
    using opens full w populated_count_card [OF book_coreD(2) [OF core]]
    by (simp add: beyond_window_def lvl_def)
  moreover have wpop: "0 < total (lvl b ?s w)" by (rule worst_price_level(1) [OF core w])
  moreover have "w \<noteq> price x" using wpop fresh by auto
  ultimately have better: "better (ladder ?b ?s) (price x) w"
    using book_coreD(1) [OF core1, of ?s] by (auto simp: worse_than_def better_def split: if_splits)
  obtain wp where wp: "worst_price (ladder ?b ?s) = Some wp"
    using worst_price_spec [OF book_coreD(2) [OF core1], of ?s] P1
    by (auto simp: lvl_def split: option.splits)
  have "0 < total (lvl ?b ?s w)" using wpop P1 by blast
  from worst_price_level(3) [OF core1 wp this] better have "wp \<noteq> price x" by blast
  with wp show thesis by (rule that)
qed

lemma rest_step:
  assumes core: "book_core b" and x: "omap b (oid x) = None" "0 < leaves x" "admissible x"
    and r: "rest x b = (resident, ev, b')"
  shows "book_core b' \<and> evolves b b' \<and> pools_eq b b' \<and> (caches_ok b \<longrightarrow> caches_ok b')
    \<and> omap b' (oid x) = (if resident then Some \<lparr>e_order = x, slice = initial_slice x\<rparr> else None)
    \<and> set (map fst (orders b')) \<subseteq> insert (oid x) (set (map fst (orders b)))
    \<and> have_last b' = have_last b \<and> last_price b' = last_price b \<and> next_seq b' = next_seq b"
proof (cases "beyond_window x b")
  case True
  then have w: "0 < mem_levels b" by (simp add: beyond_window_def)
  from True r have b': "b' = emit_add x (note_deep (side x) (price x) b)" and res: "\<not> resident"
    by (simp_all add: rest_def)
  have "evolves b b'"
    by (rule evolves_step [where es = "[order_event kAdd (book_symbol b) x (leaves x)
        (DisplayedOf (flags x) (leaves x) (initial_slice x))]"])
      (use w in \<open>simp_all add: b' table_step.deep\<close>)
  moreover have "book_core b'" by (rule book_core_cong [OF core]) (simp_all add: b')
  moreover have "pools_eq b b'" unfolding b' by (rule pools_eq_trans [OF note_deep_frame(3) emit_add_frame(4)])
  ultimately show ?thesis using x(1) res by (auto simp: b' caches_ok_def)
next
  case False
  note core1 = book_core_rest_resident(1) [OF core x]
  show ?thesis
  proof (cases "mem_levels b > 0 \<and> opens_level x b \<and>
      populated_count (ladder (rest_resident x b) (side x)) > mem_levels b")
    case over: True
    then obtain wp where wp: "worst_price (ladder (rest_resident x b) (side x)) = Some wp" "wp \<noteq> price x"
      using evicted_is_other [OF core x _ _ False] by blast
    obtain b2 where b2: "evict_worst (side x) (rest_resident x b) = (b2, ev)"
      and b': "b' = emit_add x b2" and res: "resident"
      using r False over by (auto simp: rest_def Let_def split: prod.splits)
    note ev = evict_worst_step [OF core1 wp(1) b2]
    have "oid x \<notin> set (fifo (lvl (rest_resident x b) (side x) wp))"
    proof
      assume "oid x \<in> set (fifo (lvl (rest_resident x b) (side x) wp))"
      from book_core_queue [OF core1 this] obtain e
        where "omap (rest_resident x b) (oid x) = Some e" "price (e_order e) = wp" by metis
      with wp(2) x(1) show False by auto
    qed
    then have mine: "omap b' (oid x) = Some \<lparr>e_order = x, slice = initial_slice x\<rparr>"
      using ev(4) x(1) by (simp add: b')
    have "table_steps (0 < mem_levels b) (book_symbol b) (omap b)
      ([order_event kAdd (book_symbol b) x (leaves x) (DisplayedOf (flags x) (leaves x) (initial_slice x))] @ [])
      (omap b')"
    proof (intro table_steps.more [OF join_step [OF x]] table_steps_one)
      have "omap b' = omap (place x b) |` (- set (fifo (lvl (rest_resident x b) (side x) wp)))"
        using ev(4) by (simp only: b' emit_add_frame rest_resident_frame)
      then show "table_step (0 < mem_levels b) (book_symbol b) (omap (place x b)) [] (omap b')"
        using over by (simp only: table_step.evict)
    qed
    then have "evolves b b'" using over ev(6-11) by (auto simp: evolves_def b')
    moreover have "book_core b'" by (rule book_core_cong [OF ev(1)]) (simp_all add: b')
    moreover have "pools_eq b b'"
      unfolding b' using ev(3) by (metis pools_eq_trans rest_resident_frame(3) emit_add_frame(4))
    moreover have "set (map fst (orders b')) \<subseteq> insert (oid x) (set (map fst (orders b)))"
      using ev(12) by (auto simp: b' emplace_def split: if_splits)
    moreover have "caches_ok b'" if "caches_ok b"
      using ev(2) [OF book_core_rest_resident(2) [OF core x that]] by (simp add: b' caches_ok_def)
    ultimately show ?thesis using mine res ev(11,15,16) by (simp add: b')
  next
    case under: False
    with r False have b': "b' = emit_add x (rest_resident x b)" and res: "resident"
      by (auto simp: rest_def Let_def)
    have "book_core b'" by (rule book_core_cong [OF core1]) (simp_all add: b')
    moreover have "pools_eq b b'"
      unfolding b' by (rule pools_eq_trans [OF rest_resident_frame(3) emit_add_frame(4)])
    moreover have "caches_ok b'" if "caches_ok b"
      using book_core_rest_resident(2) [OF core x that] by (simp add: b' caches_ok_def)
    ultimately show ?thesis
      using rest_resident_evolves [OF core x] x(1) res by (auto simp: b' emplace_def)
  qed
qed

end
