(* ===== verification/Matching.thy ===== *)
theory Matching
  imports Resting
begin

section \<open>Matching an aggressor (core/order\_book.cc: crosses, available\_fill, match\_level, match)\<close>

text \<open>
  The aggressor walks the opposite ladder from the best price outward while its limit still
  accepts the price, and fills the queue of each level in time priority. \<open>match_level\<close> is
  the source's \<open>while\<close> loop over the queue with its iterator: makers it must not trade with
  are cancelled or stop the matching (self-trade prevention), all-or-none makers that cannot
  be filled in full are skipped, an exhausted iceberg slice goes to the back, and a pass over
  the queue that fills nothing ends the level. A looked-up maker that is missing
  (\<open>orders.at\<close> throws) and a loop that does not stop are the value \<open>None\<close>; the theorems
  show that neither happens. The result is whether self-trade prevention cancelled the
  aggressor, the aggressor, the book and the trades.
\<close>

definition effective_limit :: "Order \<Rightarrow> Ticks" where
  "effective_limit order =
     (if \<not> HasFlag (flags order) kDiscretion \<or> discretion order \<le> 0 then price order
      else if side order = Buy then price order + discretion order
      else price order - discretion order)"

definition acceptable :: "Order \<Rightarrow> Ticks \<Rightarrow> bool" where
  "acceptable order p =
     (if otype order = Market then True
      else if side order = Buy then effective_limit order \<ge> p else effective_limit order \<le> p)"

definition crosses :: "Order \<Rightarrow> Book \<Rightarrow> bool \<times> Book" where
  "crosses order b =
     (let s = Opposite (side order); (best, L) = ladder_best (ladder b s);
          b' = upd_ladder b s (\<lambda>_. L)
      in (case best of None \<Rightarrow> (False, b') | Some bp \<Rightarrow> (acceptable order bp, b')))"

fun avail_walk :: "Order \<Rightarrow> Ladder \<Rightarrow> Ticks list \<Rightarrow> Quantity \<Rightarrow> Quantity" where
  "avail_walk order L [] avail = avail"
| "avail_walk order L (p # ps) avail =
     (if \<not> avail < leaves order then avail
      else if total (level_at L p) > 0 \<and> acceptable order p
      then avail_walk order L ps (avail + total (level_at L p))
      else if total (level_at L p) > 0 \<and> \<not> acceptable order p then avail
      else avail_walk order L ps avail)"

definition available_fill :: "Order \<Rightarrow> Book \<Rightarrow> Quantity" where
  "available_fill order b =
     (let opp = ladder b (Opposite (side order))
      in if \<not> has_base opp then 0
         else min (avail_walk order opp (walk_prices opp) 0) (leaves order))"

subsection \<open>One level\<close>

type_synonym level_state = "Order \<times> Book \<times> nat \<times> bool \<times> Trade list"
type_synonym match_result = "bool \<times> Order \<times> Book \<times> Trade list"

definition stp_hit :: "Order \<Rightarrow> Entry \<Rightarrow> Book \<Rightarrow> bool" where
  "stp_hit order me b \<longleftrightarrow>
     stp b \<noteq> kStpNone \<and> client_id order \<noteq> 0 \<and> client_id (e_order me) = client_id order"

definition close_level :: "Side \<Rightarrow> Ticks \<Rightarrow> Book \<Rightarrow> Book" where
  "close_level s p b = (if total (lvl b s p) = 0 then upd_ladder b s (\<lambda>L. on_removed L p) else b)"

definition match_level_step :: "Ticks \<Rightarrow> level_state \<Rightarrow> (level_state + match_result) option" where
  "match_level_step p = (\<lambda>(order, b, it, progressed, ts).
     let s = Opposite (side order); queue = fifo (lvl b s p)
     in if \<not> leaves order > 0 then Some (Inr (False, order, close_level s p b, ts))
        else if it = length queue
        then (if \<not> progressed then Some (Inr (False, order, close_level s p b, ts))
              else Some (Inl (order, b, 0, False, ts)))
        else do {
          let mid = queue ! it;
          me \<leftarrow> map_of (orders b) mid;
          if stp_hit order me b
          then (let cancel_resting = (stp b = kCancelResting \<or> stp b = kCancelBoth);
                    cancel_aggressor = (stp b = kCancelAggressor \<or> stp b = kCancelBoth);
                    b1 = (if cancel_resting then stp_cancel_maker s p it mid me b else b);
                    progressed1 = (cancel_resting \<or> progressed)
                in if cancel_aggressor then Some (Inr (True, order, close_level s p b1, ts))
                   else Some (Inl (order, b1, it, progressed1, ts)))
          else if HasFlag (flags (e_order me)) kAon \<and> leaves order < leaves (e_order me)
          then Some (Inl (order, b, Suc it, progressed, ts))
          else (let q = min (leaves order) (exposed me);
                    b1 = fill_maker order p mid me q b;
                    (b2, it') = settle_maker s p it mid (filled_entry q me) b1
                in Some (Inl (take_fill q order, b2, it', True, ts @ [fill_trade order mid p q])))
        })"

definition match_level :: "Ticks \<Rightarrow> Order \<Rightarrow> Book \<Rightarrow> Trade list \<Rightarrow> match_result option" where
  "match_level p order b ts = iter (match_level_step p) (order, b, 0, False, ts)"

subsection \<open>The walk over the levels\<close>

fun match_walk :: "Ticks list \<Rightarrow> Order \<Rightarrow> Book \<Rightarrow> Trade list \<Rightarrow> match_result option" where
  "match_walk [] order b ts = Some (False, order, b, ts)"
| "match_walk (p # ps) order b ts =
     (if \<not> leaves order > 0 then Some (False, order, b, ts)
      else if total (lvl b (Opposite (side order)) p) = 0 then match_walk ps order b ts
      else if \<not> acceptable order p then Some (False, order, b, ts)
      else do {
        (cancelled, order', b', ts') \<leftarrow> match_level p order b ts;
        if cancelled then Some (True, order', b', ts') else match_walk ps order' b' ts'
      })"

definition match_order :: "Order \<Rightarrow> Book \<Rightarrow> Trade list \<Rightarrow> match_result option" where
  "match_order order b ts =
     (let opp = ladder b (Opposite (side order))
      in if \<not> has_base opp then Some (False, order, b, ts)
         else match_walk (walk_prices opp) order b ts)"

subsection \<open>What a sequence of fills does to the aggressor\<close>

definition executed :: "Trade list \<Rightarrow> Quantity" where
  "executed ts = sum_list (map t_qty ts)"

definition fills :: "(Ticks \<Rightarrow> bool) \<Rightarrow> Order \<Rightarrow> Trade list \<Rightarrow> Order \<Rightarrow> bool" where
  "fills P order new order' \<longleftrightarrow> order' = take_fill (executed new) order \<and> 0 \<le> leaves order'
     \<and> (\<forall>t \<in> set new. 0 < t_qty t \<and> taker_id t = oid order \<and> taker_side t = side order \<and> P (t_price t))"

lemma executed_simps [simp]:
  "executed [] = 0" "executed (t # ts) = t_qty t + executed ts" "executed (ts @ us) = executed ts + executed us"
  by (simp_all add: executed_def)

lemma fills_refl: "0 \<le> leaves x \<Longrightarrow> fills P x [] x"
  by (simp add: fills_def)

lemma fills_trans: "fills P x new y \<Longrightarrow> fills P y new' z \<Longrightarrow> fills P x (new @ new') z"
  by (auto simp: fills_def)

lemma fills_mono: "fills P x new y \<Longrightarrow> (\<And>p. P p \<Longrightarrow> Q p) \<Longrightarrow> fills Q x new y"
  by (auto simp: fills_def)

lemma fills_frame:
  assumes "fills P x new y"
  shows "side y = side x" "oid y = oid x" "acceptable y = acceptable x" "leaves y = leaves x - executed new"
    "filled y = filled x + executed new" "0 \<le> executed new" "tif y = tif x" "otype y = otype x" "0 \<le> leaves y"
    "client_id y = client_id x" "flags y = flags x" "price y = price x" "display_qty y = display_qty x"
    "link y = link x" "leaves y \<le> leaves x" "peg y = peg x" "seq y = seq x"
proof -
  have e: "y = take_fill (executed new) x" using assms by (simp add: fills_def)
  show "0 \<le> executed new"
    unfolding executed_def by (rule sum_list_nonneg) (use assms in \<open>auto simp: fills_def less_imp_le\<close>)
  then show "leaves y \<le> leaves x" by (simp add: e)
  show "acceptable y = acceptable x" by (simp add: e acceptable_def effective_limit_def fun_eq_iff)
qed (use assms in \<open>auto simp: fills_def\<close>)

lemma fills_admissible: "fills P x new y \<Longrightarrow> admissible y = admissible x"
  by (simp add: admissible_def fills_frame)

text \<open>Makers the aggressor cannot take: all-or-none orders larger than its remainder.\<close>

definition stuck :: "Order \<Rightarrow> Book \<Rightarrow> OrderId \<Rightarrow> bool" where
  "stuck order b i \<longleftrightarrow> (\<exists>e. omap b i = Some e \<and> HasFlag (flags (e_order e)) kAon
     \<and> leaves order < leaves (e_order e))"

lemma stuck_mono: "stuck x b i \<Longrightarrow> leaves y \<le> leaves x \<Longrightarrow> omap b' i = omap b i \<Longrightarrow> stuck y b' i"
  by (auto simp: stuck_def)

text \<open>What matching on side \<open>s\<close> guarantees of the book.\<close>

definition match_ok :: "Side \<Rightarrow> Book \<Rightarrow> Book \<Rightarrow> bool" where
  "match_ok s b b' \<longleftrightarrow> book_core b' \<and> evolves b b' \<and> pools_eq b b'
     \<and> deep_bid b' = deep_bid b \<and> deep_ask b' = deep_ask b
     \<and> (caches_ok b \<longrightarrow> caches_ok b') \<and> keys_le b b' \<and> (\<forall>t. t \<noteq> s \<longrightarrow> ladder b' t = ladder b t)"

lemma match_ok_refl: "book_core b \<Longrightarrow> match_ok s b b"
  by (simp add: match_ok_def)

lemma match_ok_trans [trans]:
  assumes "match_ok s a b" "match_ok s b c"
  shows "match_ok s a c"
proof -
  have "evolves a c" "pools_eq a c" "keys_le a c"
    using assms unfolding match_ok_def by (metis evolves_trans, metis pools_eq_trans, metis keys_le_trans)
  then show ?thesis using assms by (simp add: match_ok_def)
qed

lemma close_level_frame [simp]:
  "orders (close_level s p b) = orders b" "pegged (close_level s p b) = pegged b"
  "lvl (close_level s p b) = lvl b" "pools_eq b (close_level s p b)" "keys_le b (close_level s p b)"
  "stp (close_level s p b) = stp b" "have_last (close_level s p b) = have_last b"
  "last_price (close_level s p b) = last_price b" "next_seq (close_level s p b) = next_seq b"
  "deep_bid (close_level s p b) = deep_bid b" "deep_ask (close_level s p b) = deep_ask b"
  by (auto simp: close_level_def pools_eq_def keys_le_def map_le_def flags_of_def fun_eq_iff frame_simps)
    (simp_all add: lvl_def)

lemma close_level_evolves: "evolves b (close_level s p b)"
  by (rule evolves_silent) (simp_all add: close_level_def)

lemma close_level_core: "book_core b \<Longrightarrow> book_core (close_level s p b)"
  by (rule book_coreI) (auto simp: book_coreD, simp_all add: close_level_def frame_simps book_coreD)

lemma close_level_ok:
  assumes core: "book_core b" and ch: "level_change s p b b1" and le: "total (lvl b1 s p) \<le> total (lvl b s p)"
  shows "match_ok s b (close_level s p b1)"
proof -
  have core1: "book_core b1" using ch by (simp add: level_change_def)
  have "caches_ok (close_level s p b1)" if ok: "caches_ok b"
  proof -
    have "cache_ok (if total (level_at (ladder b1 s) p) = 0 then on_removed (ladder b1 s) p else ladder b1 s)"
      by (rule cache_ok_reduced [of "ladder b s"])
        (use ch ok le book_core_level(1) [OF core1, of s p] in
          \<open>auto simp: level_change_def same_shape_def caches_ok_def lvl_def\<close>)
    moreover have "cache_ok (ladder b1 t)" if "t \<noteq> s" for t
      using ch ok that by (simp add: level_change_def caches_ok_def)
    ultimately show ?thesis by (simp add: caches_ok_def close_level_def lvl_def) metis
  qed
  moreover have "evolves b (close_level s p b1)" "pools_eq b (close_level s p b1)" "keys_le b (close_level s p b1)"
    using ch close_level_evolves close_level_frame(4,5) unfolding level_change_def
    by (metis evolves_trans, metis pools_eq_trans, metis keys_le_trans)
  moreover have "\<forall>t. t \<noteq> s \<longrightarrow> ladder (close_level s p b1) t = ladder b t"
    using ch by (simp add: level_change_def close_level_def)
  ultimately show ?thesis
    using ch close_level_core [OF core1] by (simp add: match_ok_def level_change_def)
qed

subsection \<open>The loop over one level\<close>

definition level_fills :: "Ticks \<Rightarrow> Order \<Rightarrow> Book \<Rightarrow> Trade list \<Rightarrow> Order \<Rightarrow> Book \<Rightarrow> Trade list \<Rightarrow> bool" where
  "level_fills p x0 b0 ts0 x b ts \<longleftrightarrow>
     (\<exists>new. ts = ts0 @ new \<and> fills (\<lambda>r. r = p) x0 new x
        \<and> (stp b0 = kStpNone \<longrightarrow>
             total (lvl b (Opposite (side x0)) p) = total (lvl b0 (Opposite (side x0)) p) - executed new)
        \<and> (if new = [] then have_last b = have_last b0 \<and> last_price b = last_price b0
           else have_last b \<and> last_price b = p))"

definition level_inv :: "Ticks \<Rightarrow> Order \<Rightarrow> Book \<Rightarrow> Trade list \<Rightarrow> level_state \<Rightarrow> bool" where
  "level_inv p x0 b0 ts0 = (\<lambda>(x, b, it, progressed, ts).
     let s = Opposite (side x0); queue = fifo (lvl b s p)
     in level_change s p b0 b \<and> it \<le> length queue \<and> length queue \<le> length (fifo (lvl b0 s p))
      \<and> total (lvl b s p) \<le> total (lvl b0 s p)
      \<and> level_fills p x0 b0 ts0 x b ts
      \<and> (\<not> progressed \<longrightarrow> (\<forall>i \<in> set (take it queue). stuck x b i)))"

definition level_measure :: "nat \<Rightarrow> Ticks \<Rightarrow> level_state \<Rightarrow> nat" where
  "level_measure n p = (\<lambda>(x, b, it, progressed, ts).
     (nat (leaves x) + length (fifo (lvl b (Opposite (side x)) p))) * (2 * n + 4)
       + (if progressed then n + 2 else 0) + (n - it))"

definition level_post :: "Ticks \<Rightarrow> Order \<Rightarrow> Book \<Rightarrow> Trade list \<Rightarrow> match_result \<Rightarrow> bool" where
  "level_post p x0 b0 ts0 = (\<lambda>(cancelled, x, b, ts).
     let s = Opposite (side x0)
     in match_ok s b0 b \<and> (\<forall>r. r \<noteq> p \<longrightarrow> lvl b s r = lvl b0 s r)
      \<and> (\<forall>i. i \<notin> set (fifo (lvl b0 s p)) \<longrightarrow> omap b i = omap b0 i)
      \<and> set (fifo (lvl b s p)) \<subseteq> set (fifo (lvl b0 s p))
      \<and> level_fills p x0 b0 ts0 x b ts
      \<and> (if cancelled then stp b0 = kCancelAggressor \<or> stp b0 = kCancelBoth
         else leaves x = 0 \<or> (\<forall>i \<in> set (fifo (lvl b s p)). stuck x b i)))"

lemma level_inv_start:
  "book_core b \<Longrightarrow> 0 \<le> leaves x \<Longrightarrow> level_inv p x b ts (x, b, 0, False, ts)"
  by (auto simp: level_inv_def level_fills_def Let_def level_change_refl fills_refl intro!: exI [of _ "[]"])

lemma level_fills_frame:
  assumes "level_fills p x0 b0 ts0 x b ts"
  shows "side x = side x0" "0 \<le> leaves x" "oid x = oid x0"
proof -
  from assms obtain new where "fills (\<lambda>r. r = p) x0 new x" unfolding level_fills_def by blast
  from fills_frame [OF this] show "side x = side x0" "0 \<le> leaves x" "oid x = oid x0" by simp_all
qed

lemma level_fills_cong:
  assumes "level_fills p x0 b0 ts0 x b ts" "have_last b' = have_last b" "last_price b' = last_price b"
    "stp b0 = kStpNone \<Longrightarrow> lvl b' (Opposite (side x0)) p = lvl b (Opposite (side x0)) p"
  shows "level_fills p x0 b0 ts0 x b' ts"
proof (cases "stp b0 = kStpNone")
  case True
  show ?thesis using assms(1) unfolding level_fills_def by (simp only: assms(2,3) assms(4) [OF True])
next
  case False
  show ?thesis using assms(1) False unfolding level_fills_def by (simp only: assms(2,3)) simp
qed

lemma level_fills_step:
  assumes "level_fills p x0 b0 ts0 x b ts" "0 < q" "q \<le> leaves x"
    "have_last b'" "last_price b' = p"
    "total (lvl b' (Opposite (side x0)) p) = total (lvl b (Opposite (side x0)) p) - q"
  shows "level_fills p x0 b0 ts0 (take_fill q x) b' (ts @ [fill_trade x mid p q])"
proof -
  from assms(1) obtain new where new: "ts = ts0 @ new" "fills (\<lambda>r. r = p) x0 new x"
    and tot: "stp b0 = kStpNone \<longrightarrow>
      total (lvl b (Opposite (side x0)) p) = total (lvl b0 (Opposite (side x0)) p) - executed new"
    unfolding level_fills_def by blast
  have "fills (\<lambda>r. r = p) x0 (new @ [fill_trade x mid p q]) (take_fill q x)"
    by (rule fills_trans [OF new(2)]) (use assms(2,3) in \<open>simp add: fills_def fill_trade_def\<close>)
  with new(1) tot assms(4-6) show ?thesis
    unfolding level_fills_def
    by (intro exI [of _ "new @ [fill_trade x mid p q]"]) (simp add: fill_trade_def)
qed

lemma level_inv_fills: "level_inv p x0 b0 ts0 (x, b, it, pr, ts) \<Longrightarrow> level_fills p x0 b0 ts0 x b ts"
  by (simp add: level_inv_def Let_def)

lemma level_inv_side: "level_inv p x0 b0 ts0 (x, b, it, pr, ts) \<Longrightarrow> side x = side x0"
  using level_fills_frame(1) level_inv_fills by blast

lemma level_inv_stp: "level_inv p x0 b0 ts0 (x, b, it, pr, ts) \<Longrightarrow> stp b = stp b0"
  by (auto simp: level_inv_def Let_def level_change_def evolves_def)

text \<open>Leaving the loop.\<close>

lemma level_post_close:
  assumes core: "book_core b0" and inv: "level_inv p x0 b0 ts0 (x, b, it, pr, ts)"
    and "if cancelled then stp b0 = kCancelAggressor \<or> stp b0 = kCancelBoth
         else leaves x = 0 \<or> (\<forall>i \<in> set (fifo (lvl b (Opposite (side x0)) p)). stuck x b i)"
  shows "level_post p x0 b0 ts0 (cancelled, x, close_level (Opposite (side x0)) p b, ts)"
proof -
  have ch: "level_change (Opposite (side x0)) p b0 b"
    "total (lvl b (Opposite (side x0)) p) \<le> total (lvl b0 (Opposite (side x0)) p)"
    using inv by (simp_all add: level_inv_def Let_def)
  have "stuck x (close_level s q b) = stuck x b" for s q by (simp add: stuck_def fun_eq_iff)
  moreover have "level_fills p x0 b0 ts0 x (close_level (Opposite (side x0)) p b) ts"
    by (rule level_fills_cong [OF level_inv_fills [OF inv]]) simp_all
  ultimately show ?thesis using close_level_ok [OF core ch] ch assms(3)
    by (simp add: level_post_def level_change_def Let_def)
qed

text \<open>The measure falls whenever the remainder or the queue shrinks, on a skip, and on a new pass.\<close>

lemma level_measure_shrink:
  assumes "a' + 1 \<le> (a :: nat)" "n - it' \<le> n"
  shows "a' * (2 * n + 4) + (if pr' then n + 2 else 0) + (n - it') < a * (2 * n + 4) + (if pr then n + 2 else 0) + (n - it)"
proof -
  have "(a' + 1) * (2 * n + 4) \<le> a * (2 * n + 4)" using assms(1) by (rule mult_right_mono) simp
  with assms(2) show ?thesis by (auto simp: algebra_simps)
qed

lemma level_step_fill:
  assumes core: "book_core b0" and inv: "level_inv p x0 b0 ts0 (x, b, it, pr, ts)"
    and s: "s = Opposite (side x0)" and pos: "0 < leaves x" and it: "it < length (fifo (lvl b s p))"
    and mid: "mid = fifo (lvl b s p) ! it" and me: "omap b mid = Some me"
    and q: "q = min (leaves x) (exposed me)"
    and st: "settle_maker s p it mid (filled_entry q me) (fill_maker x p mid me q b) = (b', it')"
  shows "level_inv p x0 b0 ts0 (take_fill q x, b', it', True, ts @ [fill_trade x mid p q])"
    "level_measure (length (fifo (lvl b0 s p))) p (take_fill q x, b', it', True, ts @ [fill_trade x mid p q]) <
     level_measure (length (fifo (lvl b0 s p))) p (x, b, it, pr, ts)"
proof -
  have side: "side x = side x0" by (rule level_inv_side [OF inv])
  with s have s': "s = Opposite (side x)" by simp
  have core': "book_core b" using inv by (simp add: level_inv_def level_change_def Let_def)
  have q': "0 < q" "q \<le> exposed me" "q \<le> leaves x"
    using q pos exposed_bounds [OF queue_entry(3) [OF core' it mid me]] by simp_all
  note f = fill_step [OF core' s' it mid me q'(1,2) st]
  have last: "have_last b' \<and> last_price b' = p"
    using st by (auto simp: settle_maker_def split: if_splits)
  have fl: "level_fills p x0 b0 ts0 (take_fill q x) b' (ts @ [fill_trade x mid p q])"
    by (rule level_fills_step [OF level_inv_fills [OF inv] q'(1,3)]) (use last f(2) s in auto)
  show "level_inv p x0 b0 ts0 (take_fill q x, b', it', True, ts @ [fill_trade x mid p q])"
    using inv f fl q'(1) level_change_trans s unfolding level_inv_def Let_def
    by simp metis
  have "nat (leaves (take_fill q x)) + length (fifo (lvl b' s p)) + 1 \<le> nat (leaves x) + length (fifo (lvl b s p))"
    using f(3) q'(1,3) pos by simp
  then show "level_measure (length (fifo (lvl b0 s p))) p (take_fill q x, b', it', True, ts @ [fill_trade x mid p q]) <
     level_measure (length (fifo (lvl b0 s p))) p (x, b, it, pr, ts)"
    using level_measure_shrink [where pr' = True] s' by (simp add: level_measure_def)
qed

lemma level_step_stp:
  assumes core: "book_core b0" and inv: "level_inv p x0 b0 ts0 (x, b, it, pr, ts)"
    and s: "s = Opposite (side x0)" and pos: "0 < leaves x" and it: "it < length (fifo (lvl b s p))"
    and mid: "mid = fifo (lvl b s p) ! it" and me: "omap b mid = Some me" and stp: "stp b0 \<noteq> kStpNone"
    and b': "b' = stp_cancel_maker s p it mid me b"
  shows "level_inv p x0 b0 ts0 (x, b', it, True, ts)"
    "level_measure (length (fifo (lvl b0 s p))) p (x, b', it, True, ts) <
     level_measure (length (fifo (lvl b0 s p))) p (x, b, it, pr, ts)"
proof -
  have side: "side x = side x0" by (rule level_inv_side [OF inv])
  have core': "book_core b" using inv by (simp add: level_inv_def level_change_def Let_def)
  note f = stp_cancel_step [OF core' it mid me b']
  have lv: "0 < leaves (e_order me)" using queue_entry(3) [OF core' it mid me] by (simp add: entry_ok_def)
  have fl: "level_fills p x0 b0 ts0 x b' ts"
    by (rule level_fills_cong [OF level_inv_fills [OF inv]]) (use stp in \<open>simp_all add: b'\<close>)
  have "level_change s p b0 b'"
    using inv s f(1) level_change_trans unfolding level_inv_def Let_def by blast
  moreover have "length (fifo (lvl b' s p)) = length (fifo (lvl b s p)) - 1" "it \<le> length (fifo (lvl b' s p))"
    using f(3) it by simp_all
  ultimately show "level_inv p x0 b0 ts0 (x, b', it, True, ts)"
    using inv f(2) fl lv s unfolding level_inv_def Let_def by auto
  have "nat (leaves x) + length (fifo (lvl b' s p)) + 1 \<le> nat (leaves x) + length (fifo (lvl b s p))"
    using f(3) it by simp
  then show "level_measure (length (fifo (lvl b0 s p))) p (x, b', it, True, ts) <
     level_measure (length (fifo (lvl b0 s p))) p (x, b, it, pr, ts)"
    using level_measure_shrink [where pr' = True] side s by (simp add: level_measure_def)
qed

lemma level_step_skip:
  assumes inv: "level_inv p x0 b0 ts0 (x, b, it, pr, ts)"
    and s: "s = Opposite (side x0)" and it: "it < length (fifo (lvl b s p))"
    and st: "stuck x b (fifo (lvl b s p) ! it)"
  shows "level_inv p x0 b0 ts0 (x, b, Suc it, pr, ts)"
    "level_measure (length (fifo (lvl b0 s p))) p (x, b, Suc it, pr, ts) <
     level_measure (length (fifo (lvl b0 s p))) p (x, b, it, pr, ts)"
proof -
  show "level_inv p x0 b0 ts0 (x, b, Suc it, pr, ts)"
    using inv s it st by (auto simp: level_inv_def Let_def take_Suc_conv_app_nth)
  have "length (fifo (lvl b s p)) \<le> length (fifo (lvl b0 s p))" using inv s by (simp add: level_inv_def Let_def)
  with it show "level_measure (length (fifo (lvl b0 s p))) p (x, b, Suc it, pr, ts) <
     level_measure (length (fifo (lvl b0 s p))) p (x, b, it, pr, ts)"
    by (simp add: level_measure_def)
qed

lemma level_step_progress:
  assumes core: "book_core b0" and inv: "level_inv p x0 b0 ts0 st"
  shows "(\<exists>st'. match_level_step p st = Some (Inl st') \<and> level_inv p x0 b0 ts0 st' \<and>
           level_measure (length (fifo (lvl b0 (Opposite (side x0)) p))) p st' <
           level_measure (length (fifo (lvl b0 (Opposite (side x0)) p))) p st)
       \<or> (\<exists>r. match_level_step p st = Some (Inr r) \<and> level_post p x0 b0 ts0 r)"
proof -
  obtain x b it pr ts where st: "st = (x, b, it, pr, ts)" by (cases st)
  note inv = inv [unfolded st]
  let ?s = "Opposite (side x0)" and ?q = "fifo (lvl b (Opposite (side x0)) p)"
  let ?n = "length (fifo (lvl b0 (Opposite (side x0)) p))"
  have side: "side x = side x0" by (rule level_inv_side [OF inv])
  have stp: "stp b = stp b0" by (rule level_inv_stp [OF inv])
  have core': "book_core b" and le: "it \<le> length ?q" "length ?q \<le> ?n"
    using inv by (simp_all add: level_inv_def level_change_def Let_def)
  have nn: "0 \<le> leaves x" by (rule level_fills_frame(2) [OF level_inv_fills [OF inv]])
  consider (finished) "leaves x = 0" | (stuck) "0 < leaves x" "it = length ?q" "\<not> pr"
    | (again) "0 < leaves x" "it = length ?q" "pr" | (maker) "0 < leaves x" "it < length ?q"
    using nn le(1) by linarith
  then show ?thesis
  proof cases
    case finished
    with side show ?thesis
      using level_post_close [OF core inv, of False] by (simp add: match_level_step_def st)
  next
    case stuck
    then have "\<forall>i \<in> set ?q. Matching.stuck x b i" using inv by (simp add: level_inv_def Let_def)
    with stuck side show ?thesis
      using level_post_close [OF core inv, of False] by (simp add: match_level_step_def st)
  next
    case again
    then have "level_inv p x0 b0 ts0 (x, b, 0, False, ts)" using inv by (simp add: level_inv_def Let_def)
    moreover have "level_measure ?n p (x, b, 0, False, ts) < level_measure ?n p st"
      using again le(2) by (simp add: level_measure_def st)
    ultimately show ?thesis using again side by (simp add: match_level_step_def st)
  next
    case maker
    define mid where "mid = ?q ! it"
    obtain me where me: "omap b mid = Some me"
      using book_core_queue [OF core' nth_mem [OF maker(2)]] mid_def by blast
    show ?thesis
    proof (cases "stp_hit x me b")
      case hit: True
      then have on: "stp b0 \<noteq> kStpNone" using stp by (simp add: stp_hit_def)
      note cancel = level_step_stp [OF core inv refl maker mid_def me on refl]
      show ?thesis
        using level_post_close [OF core inv, of True] level_post_close [OF core cancel(1), of True] cancel
          hit on maker me side stp
        by (cases "stp b0") (auto simp: match_level_step_def st Let_def mid_def [symmetric])
    next
      case miss: False
      show ?thesis
      proof (cases "HasFlag (flags (e_order me)) kAon \<and> leaves x < leaves (e_order me)")
        case True
        with me have "Matching.stuck x b (?q ! it)" by (auto simp: stuck_def mid_def)
        from level_step_skip [OF inv refl maker(2) this] True miss maker me side show ?thesis
          by (auto simp: match_level_step_def st Let_def mid_def [symmetric])
      next
        case False
        let ?fill = "min (leaves x) (exposed me)"
        obtain b' it' where settle:
          "settle_maker ?s p it mid (filled_entry ?fill me) (fill_maker x p mid me ?fill b) = (b', it')"
          by (metis surj_pair)
        from level_step_fill [OF core inv refl maker mid_def me refl settle] False miss maker me side settle
        show ?thesis
          by (auto simp: match_level_step_def st Let_def mid_def [symmetric])
      qed
    qed
  qed
qed

theorem match_level_ok:
  assumes "book_core b" "0 \<le> leaves x"
  shows "\<exists>r. match_level p x b ts = Some r \<and> level_post p x b ts r"
  unfolding match_level_def
  by (rule iter_total [where I = "level_inv p x b ts"
        and m = "level_measure (length (fifo (lvl b (Opposite (side x)) p))) p"])
    (use level_inv_start [OF assms] level_step_progress [OF assms(1)] in auto)

subsection \<open>The walk\<close>

definition outward :: "Side \<Rightarrow> Ticks \<Rightarrow> Ticks \<Rightarrow> bool" where
  "outward taker a b = (if taker = Buy then a < b else a > b)"

definition walk_post :: "Ticks list \<Rightarrow> Order \<Rightarrow> Book \<Rightarrow> Trade list \<Rightarrow> bool \<times> Order \<times> Book \<Rightarrow> bool" where
  "walk_post ps x0 b0 new = (\<lambda>(cancelled, x, b).
     let s = Opposite (side x0)
     in match_ok s b0 b
      \<and> (\<forall>r. r \<notin> set ps \<longrightarrow> lvl b s r = lvl b0 s r \<and> (\<forall>i \<in> set (fifo (lvl b0 s r)). omap b i = omap b0 i))
      \<and> fills (\<lambda>r. r \<in> set ps \<and> acceptable x0 r) x0 new x
      \<and> sorted_wrt (\<lambda>t u. \<not> outward (side x0) (t_price u) (t_price t)) new
      \<and> (stp b0 = kStpNone \<longrightarrow> (\<forall>r. total (lvl b s r) =
             total (lvl b0 s r) - executed (filter (\<lambda>t. t_price t = r) new)))
      \<and> (if new = [] then have_last b = have_last b0 \<and> last_price b = last_price b0
         else have_last b \<and> last_price b = t_price (last new))
      \<and> (if cancelled then stp b0 = kCancelAggressor \<or> stp b0 = kCancelBoth
         else leaves x = 0 \<or>
              (\<forall>r \<in> set ps. acceptable x0 r \<longrightarrow> (\<forall>i \<in> set (fifo (lvl b s r)). stuck x b i))))"

lemma acceptable_outward: "outward (side x) a b \<Longrightarrow> acceptable x b \<Longrightarrow> acceptable x a"
  by (auto simp: outward_def acceptable_def split: if_splits)

lemma fifo_disjoint:
  assumes "book_core b" "i \<in> set (fifo (lvl b s p))" "i \<in> set (fifo (lvl b s r))"
  shows "p = r"
  using assms by (metis book_core_queue option.inject)

lemma walk_post_stop:
  assumes "book_core b" "0 \<le> leaves x" "leaves x = 0 \<or> (\<forall>r \<in> set ps. acceptable x r \<longrightarrow> fifo (lvl b (Opposite (side x)) r) = [])"
  shows "walk_post ps x b [] (False, x, b)"
  using assms by (auto simp: walk_post_def Let_def match_ok_refl fills_refl)

text \<open>Trades at one price, and the trades of two stages.\<close>

lemma executed_filter_at: "\<forall>t \<in> set new. t_price t = p \<Longrightarrow>
   executed (filter (\<lambda>t. t_price t = r) new) = (if r = p then executed new else 0)"
  by (induction new) auto

lemma sorted_outward_level:
  assumes "\<forall>t \<in> set new. t_price t = p" "\<forall>t \<in> set new'. outward sd p (t_price t)"
    "sorted_wrt (\<lambda>t u. \<not> outward sd (t_price u) (t_price t)) new'"
  shows "sorted_wrt (\<lambda>t u. \<not> outward sd (t_price u) (t_price t)) (new @ new')"
proof -
  have irrefl: "\<not> outward sd a a" for a by (simp add: outward_def)
  have asym: "outward sd a b \<Longrightarrow> \<not> outward sd b a" for a b by (auto simp: outward_def split: if_splits)
  have "sorted_wrt (\<lambda>t u. \<not> outward sd (t_price u) (t_price t)) new"
    using assms(1) irrefl by (induction new) auto
  with assms asym show ?thesis by (auto simp: sorted_wrt_append)
qed

text \<open>One level, then the rest of the walk.\<close>

lemma walk_post_level:
  assumes core: "book_core b0" and lp: "level_post p x0 b0 ts0 (False, x1, b1, ts0 @ new1)"
    and fl: "fills (\<lambda>r. r = p) x0 new1 x1"
    and acc: "acceptable x0 p" and sorted: "\<forall>r \<in> set ps. outward (side x0) p r"
    and wp: "walk_post ps x1 b1 new2 (cancelled, x, b)"
  shows "walk_post (p # ps) x0 b0 (new1 @ new2) (cancelled, x, b)"
proof -
  let ?s = "Opposite (side x0)"
  have side: "side x1 = side x0" and acc1: "acceptable x1 = acceptable x0" and le1: "leaves x1 \<le> leaves x0"
    using fills_frame [OF fl] by simp_all
  have notin: "p \<notin> set ps" using sorted by (auto simp: outward_def split: if_splits)
  note L = lp [unfolded level_post_def, simplified Let_def prod.case]
  note W = wp [unfolded walk_post_def Let_def prod.case side acc1]
  have core1: "book_core b1" using L by (simp add: match_ok_def)
  have stp: "stp b1 = stp b0" using L by (simp add: match_ok_def evolves_def)
  have f2: "fills (\<lambda>r. r \<in> set ps \<and> acceptable x0 r) x1 new2 x" using W by blast
  have new1: "\<forall>t \<in> set new1. t_price t = p" using fl by (auto simp: fills_def)
  have new2: "\<forall>t \<in> set new2. outward (side x0) p (t_price t)" using f2 sorted by (auto simp: fills_def)
  have lvl_fl: "stp b0 = kStpNone \<longrightarrow> total (lvl b1 ?s p) = total (lvl b0 ?s p) - executed new1"
    "if new1 = [] then have_last b1 = have_last b0 \<and> last_price b1 = last_price b0 else have_last b1 \<and> last_price b1 = p"
    using L unfolding level_fills_def by auto
  have "match_ok ?s b0 b" using L W match_ok_trans by blast
  moreover have "lvl b ?s r = lvl b0 ?s r \<and> (\<forall>i \<in> set (fifo (lvl b0 ?s r)). omap b i = omap b0 i)"
    if "r \<notin> set (p # ps)" for r
  proof -
    have r: "r \<noteq> p" "r \<notin> set ps" using that by auto
    then have "lvl b1 ?s r = lvl b0 ?s r" "lvl b ?s r = lvl b1 ?s r"
      "\<forall>i \<in> set (fifo (lvl b1 ?s r)). omap b i = omap b1 i" using L W by blast+
    moreover have "i \<notin> set (fifo (lvl b0 ?s p))" if "i \<in> set (fifo (lvl b0 ?s r))" for i
      using fifo_disjoint [OF core that] r(1) by blast
    ultimately show ?thesis using L by metis
  qed
  moreover have "fills (\<lambda>r. r \<in> set (p # ps) \<and> acceptable x0 r) x0 (new1 @ new2) x"
    by (rule fills_trans [OF fills_mono [OF fl] fills_mono [OF f2]]) (use acc in auto)
  moreover have "sorted_wrt (\<lambda>t u. \<not> outward (side x0) (t_price u) (t_price t)) (new1 @ new2)"
    using W by (intro sorted_outward_level [OF new1 new2]) blast
  moreover have "total (lvl b ?s r) = total (lvl b0 ?s r) - executed (filter (\<lambda>t. t_price t = r) (new1 @ new2))"
    if "stp b0 = kStpNone" for r
  proof -
    have "total (lvl b ?s r) = total (lvl b1 ?s r) - executed (filter (\<lambda>t. t_price t = r) new2)"
      using W stp that by simp
    moreover have "total (lvl b1 ?s r) = total (lvl b0 ?s r) - executed (filter (\<lambda>t. t_price t = r) new1)"
      using L lvl_fl(1) that executed_filter_at [OF new1, of r] by (cases "r = p") simp_all
    ultimately show ?thesis by simp
  qed
  moreover have "if new1 @ new2 = [] then have_last b = have_last b0 \<and> last_price b = last_price b0
         else have_last b \<and> last_price b = t_price (last (new1 @ new2))"
    using W lvl_fl(2) new1 by (cases "new2 = []"; cases "new1 = []") auto
  moreover have "if cancelled then stp b0 = kCancelAggressor \<or> stp b0 = kCancelBoth
     else leaves x = 0 \<or> (\<forall>r \<in> set (p # ps). acceptable x0 r \<longrightarrow> (\<forall>i \<in> set (fifo (lvl b ?s r)). stuck x b i))"
  proof (cases cancelled)
    case False
    have "stuck x b i" if nz: "leaves x \<noteq> 0" and i: "i \<in> set (fifo (lvl b ?s p))" for i
    proof -
      have same: "lvl b ?s p = lvl b1 ?s p" "\<forall>i \<in> set (fifo (lvl b1 ?s p)). omap b i = omap b1 i"
        using W notin by blast+
      have "leaves x1 \<noteq> 0" using fills_frame(4,6,9) [OF f2] nz by linarith
      then have "stuck x1 b1 i" using L i same(1) by auto
      then show ?thesis by (rule stuck_mono) (use fills_frame(15) [OF f2] same i in auto)
    qed
    with False W show ?thesis by auto
  qed (use W stp in auto)
  ultimately show ?thesis unfolding walk_post_def Let_def by simp
qed

lemma walk_post_cancel:
  assumes lp: "level_post p x0 b0 ts0 (True, x, b, ts0 @ new)" and fl: "fills (\<lambda>r. r = p) x0 new x"
    and core: "book_core b0" and acc: "acceptable x0 p"
  shows "walk_post (p # ps) x0 b0 new (True, x, b)"
proof -
  let ?s = "Opposite (side x0)"
  note L = lp [unfolded level_post_def, simplified Let_def prod.case]
  have new: "\<forall>t \<in> set new. t_price t = p" using fl by (auto simp: fills_def)
  have lvl_fl: "stp b0 = kStpNone \<longrightarrow> total (lvl b ?s p) = total (lvl b0 ?s p) - executed new"
    "if new = [] then have_last b = have_last b0 \<and> last_price b = last_price b0 else have_last b \<and> last_price b = p"
    using L unfolding level_fills_def by auto
  have "lvl b ?s r = lvl b0 ?s r \<and> (\<forall>i \<in> set (fifo (lvl b0 ?s r)). omap b i = omap b0 i)" if "r \<noteq> p" for r
    using L that fifo_disjoint [OF core] by metis
  moreover have "sorted_wrt (\<lambda>t u. \<not> outward (side x0) (t_price u) (t_price t)) (new @ [])"
    by (rule sorted_outward_level [OF new]) simp_all
  moreover have "fills (\<lambda>r. r \<in> set (p # ps) \<and> acceptable x0 r) x0 new x"
    by (rule fills_mono [OF fl]) (use acc in auto)
  moreover have "total (lvl b ?s r) = total (lvl b0 ?s r) - executed (filter (\<lambda>t. t_price t = r) new)"
    if "stp b0 = kStpNone" for r
    using L lvl_fl(1) that executed_filter_at [OF new, of r] by (cases "r = p") simp_all
  moreover have "new \<noteq> [] \<Longrightarrow> t_price (last new) = p" using new by simp
  ultimately show ?thesis using L lvl_fl(2) unfolding walk_post_def Let_def by auto
qed

lemma walk_post_skip:
  assumes wp: "walk_post ps x0 b0 new (c, x, b)" and empty: "fifo (lvl b0 (Opposite (side x0)) p) = []"
    and notin: "p \<notin> set ps"
  shows "walk_post (p # ps) x0 b0 new (c, x, b)"
proof -
  note W = wp [unfolded walk_post_def Let_def prod.case]
  have "fifo (lvl b (Opposite (side x0)) p) = []" using W empty notin by metis
  moreover have "fills (\<lambda>r. r \<in> set ps \<and> acceptable x0 r) x0 new x" using W by blast
  then have "fills (\<lambda>r. r \<in> set (p # ps) \<and> acceptable x0 r) x0 new x" by (rule fills_mono) auto
  ultimately show ?thesis using W unfolding walk_post_def Let_def by auto
qed

lemma match_walk_ok:
  assumes "book_core b" "0 \<le> leaves x" "sorted_wrt (outward (side x)) ps"
  shows "\<exists>c x' b' new. match_walk ps x b ts = Some (c, x', b', ts @ new) \<and> walk_post ps x b new (c, x', b')"
  using assms
proof (induction ps arbitrary: x b ts)
  case Nil
  then show ?case using walk_post_stop [of b x "[]"] by fastforce
next
  case (Cons p ps)
  let ?s = "Opposite (side x)"
  have sorted: "\<forall>r \<in> set ps. outward (side x) p r" "sorted_wrt (outward (side x)) ps" using Cons.prems(3) by auto
  have notin: "p \<notin> set ps" using sorted by (auto simp: outward_def split: if_splits)
  note lev = book_core_level [OF Cons.prems(1), of ?s]
  consider (full) "leaves x = 0" | (empty) "0 < leaves x" "total (lvl b ?s p) = 0"
    | (stop) "0 < leaves x" "0 < total (lvl b ?s p)" "\<not> acceptable x p"
    | (level) "0 < leaves x" "0 < total (lvl b ?s p)" "acceptable x p"
    using Cons.prems(2) lev(1) [of p] by linarith
  then show ?case
  proof cases
    case full
    then show ?thesis using walk_post_stop [OF Cons.prems(1,2), of "p # ps"] by fastforce
  next
    case empty
    obtain c x' b' new where "match_walk ps x b ts = Some (c, x', b', ts @ new)" "walk_post ps x b new (c, x', b')"
      using Cons.IH [OF Cons.prems(1,2) sorted(2)] by blast
    with empty walk_post_skip [OF _ _ notin] lev(3) [of p] show ?thesis by auto
  next
    case stop
    have "\<not> acceptable x r" if "r \<in> set (p # ps)" for r
      using that stop(3) sorted(1) acceptable_outward by auto
    then have "walk_post (p # ps) x b [] (False, x, b)" by (intro walk_post_stop [OF Cons.prems(1,2)]) blast
    with stop show ?thesis by fastforce
  next
    case level
    obtain c1 x1 b1 ts1 where m: "match_level p x b ts = Some (c1, x1, b1, ts1)"
      and lp: "level_post p x b ts (c1, x1, b1, ts1)"
      using match_level_ok [OF Cons.prems(1,2)] by (metis prod_cases4)
    then obtain new1 where new1: "ts1 = ts @ new1" and fl: "fills (\<lambda>r. r = p) x new1 x1"
      unfolding level_post_def level_fills_def Let_def by auto
    show ?thesis
    proof (cases c1)
      case True
      with m new1 level walk_post_cancel [OF _ fl Cons.prems(1) level(3)] lp show ?thesis by fastforce
    next
      case False
      have core1: "book_core b1" using lp by (simp add: level_post_def match_ok_def Let_def)
      have side: "side x1 = side x" "0 \<le> leaves x1" using fills_frame [OF fl] by simp_all
      obtain c x' b' new2 where w: "match_walk ps x1 b1 ts1 = Some (c, x', b', ts1 @ new2)"
        "walk_post ps x1 b1 new2 (c, x', b')"
        using Cons.IH [OF core1 side(2)] sorted(2) side(1) by metis
      have "walk_post (p # ps) x b (new1 @ new2) (c, x', b')"
        using walk_post_level [OF Cons.prems(1) _ fl level(3) sorted(1) w(2)] lp False new1 by simp
      with m False level w(1) new1 show ?thesis by fastforce
    qed
  qed
qed

text \<open>The contract of \<open>match\<close>.\<close>

definition match_post :: "Order \<Rightarrow> Book \<Rightarrow> Trade list \<Rightarrow> bool \<times> Order \<times> Book \<Rightarrow> bool" where
  "match_post x0 b0 new = (\<lambda>(cancelled, x, b).
     let s = Opposite (side x0)
     in match_ok s b0 b \<and> fills (acceptable x0) x0 new x
      \<and> sorted_wrt (\<lambda>t u. \<not> outward (side x0) (t_price u) (t_price t)) new
      \<and> (stp b0 = kStpNone \<longrightarrow> (\<forall>r. total (lvl b s r) =
             total (lvl b0 s r) - executed (filter (\<lambda>t. t_price t = r) new)))
      \<and> (if new = [] then have_last b = have_last b0 \<and> last_price b = last_price b0
         else have_last b \<and> last_price b = t_price (last new))
      \<and> (if cancelled then stp b0 = kCancelAggressor \<or> stp b0 = kCancelBoth
         else leaves x = 0 \<or>
              (\<forall>r. acceptable x0 r \<longrightarrow> (\<forall>i \<in> set (fifo (lvl b s r)). stuck x b i))))"

lemma match_order_ok:
  assumes core: "book_core b" and nn: "0 \<le> leaves x"
  shows "\<exists>c x' b' new. match_order x b ts = Some (c, x', b', ts @ new) \<and> match_post x b new (c, x', b')"
proof -
  let ?s = "Opposite (side x)" let ?L = "ladder b (Opposite (side x))"
  let ?ps = "if has_base ?L then walk_prices ?L else []"
  have eq: "match_order x b ts = match_walk ?ps x b ts" by (simp add: match_order_def Let_def)
  have "better ?L = outward (side x)"
    using book_coreD(1) [OF core, of ?s] by (cases "side x") (auto simp: better_def outward_def fun_eq_iff)
  then have "sorted_wrt (outward (side x)) ?ps" using walk_prices_sorted [of ?L] by simp
  from match_walk_ok [OF core nn this] obtain c x' b' new
    where m: "match_walk ?ps x b ts = Some (c, x', b', ts @ new)" and w: "walk_post ?ps x b new (c, x', b')"
    by blast
  note W = w [unfolded walk_post_def Let_def prod.case]
  have out: "fifo (lvl b' ?s r) = []" if r: "r \<notin> set ?ps" for r
  proof -
    have "\<not> covers ?L r" using r set_walk_prices [of ?L] by (auto simp: covers_def split: if_splits)
    then have "lvl b ?s r = empty_Level" by (simp add: lvl_def ladder_at_None)
    moreover have "lvl b' ?s r = lvl b ?s r" using W r by blast
    ultimately show ?thesis by simp
  qed
  have "fills (\<lambda>r. r \<in> set ?ps \<and> acceptable x r) x new x'" using W by blast
  then have "fills (acceptable x) x new x'" by (rule fills_mono) blast
  moreover have "c \<or> leaves x' = 0 \<or>
      (\<forall>r. acceptable x r \<longrightarrow> (\<forall>i \<in> set (fifo (lvl b' ?s r)). stuck x' b' i))"
  proof (cases "c \<or> leaves x' = 0")
    case False
    then have "\<forall>r \<in> set ?ps. acceptable x r \<longrightarrow> (\<forall>i \<in> set (fifo (lvl b' ?s r)). stuck x' b' i)"
      using W by auto
    with out show ?thesis by (metis empty_iff list.set(1))
  qed blast
  ultimately have "match_post x b new (c, x', b')" using W unfolding match_post_def Let_def by auto
  with m eq show ?thesis by metis
qed

end
