(* ===== verification/Stops.thy ===== *)
theory Stops
  imports Matching
begin

section \<open>Stop and trailing orders (core/order\_book.cc: arm\_stop .. evaluate\_stops)\<close>

text \<open>
  A parked stop fires when the last trade price reaches its stop price; a trailing stop
  re-anchors its stop price after a favourable move first. \<open>inject\<close> sends an active order to
  the matcher and rests the remainder, and \<open>evaluate_stops\<close> fires rounds of stops, in
  arrival order within a round, until no parked stop is triggered. The loop is the source's
  \<open>for (;;)\<close>; it ends because every round that does not leave it takes stops off the table.
\<close>

definition stop_triggered :: "Order \<Rightarrow> Ticks \<Rightarrow> bool" where
  "stop_triggered order px =
     (case trigger order of
        None \<Rightarrow> False
      | Some t \<Rightarrow> if side order = Buy then px \<ge> stop_price t else px \<le> stop_price t)"

definition arm_stop :: "Order \<Rightarrow> Book \<Rightarrow> Order" where
  "arm_stop order b =
     (case trigger order of
        None \<Rightarrow> order
      | Some t \<Rightarrow>
          if tr_kind t = Stop then order
          else let ref = (if have_last b then last_price b else stop_price t)
               in order\<lparr>trigger := Some (t\<lparr>high_water := ref,
                    stop_price := (if side order = Sell then ref - trail_by t else ref + trail_by t)\<rparr>)\<rparr>)"

definition update_trail :: "Order \<Rightarrow> Ticks \<Rightarrow> Order" where
  "update_trail order px =
     (case trigger order of
        None \<Rightarrow> order
      | Some t \<Rightarrow>
          if tr_kind t = Stop then order
          else if side order = Sell
          then (if px > high_water t
                then order\<lparr>trigger := Some (t\<lparr>high_water := px, stop_price := px - trail_by t\<rparr>)\<rparr> else order)
          else (if px < high_water t
                then order\<lparr>trigger := Some (t\<lparr>high_water := px, stop_price := px + trail_by t\<rparr>)\<rparr> else order))"

definition mark_triggered :: "Order \<Rightarrow> Order" where
  "mark_triggered order = order\<lparr>trigger := map_option (\<lambda>t. t\<lparr>triggered := True\<rparr>) (trigger order)\<rparr>"

definition rests :: "Order \<Rightarrow> bool" where
  "rests order \<longleftrightarrow> leaves order > 0 \<and> otype order \<noteq> Market \<and> tif order \<noteq> IOC"

definition inject :: "Order \<Rightarrow> Book \<Rightarrow> Trade list \<Rightarrow> (Order \<times> Book \<times> Trade list) option" where
  "inject order b ts = do {
     (_, order', b', ts') \<leftarrow> match_order order b ts;
     if rests order'
     then (let (_, _, b'') = rest order' b' in Some (order', b'', ts'))
     else Some (order', b', ts')
   }"

definition trail_stops :: "Book \<Rightarrow> (OrderId \<times> Order) list" where
  "trail_stops b = map (\<lambda>(i, so). (i, if have_last b then update_trail so (last_price b) else so)) (stops b)"

definition firing :: "Book \<Rightarrow> OrderId list" where
  "firing b = map fst (filter (\<lambda>(i, so). have_last b \<and> stop_triggered so (last_price b)) (trail_stops b))"

definition fire_stop :: "OrderId \<Rightarrow> Book \<Rightarrow> Trade list \<Rightarrow> (Book \<times> Trade list) option" where
  "fire_stop i b ts = do {
     order \<leftarrow> map_of (stops b) i;
     let b1 = b\<lparr>stops := AList.delete i (stops b)\<rparr>;
     let order1 = mark_triggered order;
     let b2 = emit_event kTrigger order1 (leaves order1) 0 b1;
     (_, b3, ts') \<leftarrow> inject order1 b2 ts;
     Some (b3, ts')
   }"

fun fire_all :: "OrderId list \<Rightarrow> Book \<Rightarrow> Trade list \<Rightarrow> (Book \<times> Trade list) option" where
  "fire_all [] b ts = Some (b, ts)"
| "fire_all (i # is) b ts = do { (b', ts') \<leftarrow> fire_stop i b ts; fire_all is b' ts' }"

definition stops_round :: "Book \<times> Trade list \<Rightarrow> ((Book \<times> Trade list) + (Book \<times> Trade list)) option" where
  "stops_round = (\<lambda>(b, ts).
     let fire = firing b; b1 = b\<lparr>stops := trail_stops b\<rparr>
     in if fire = [] then Some (Inr (b1, ts))
        else do {
          r \<leftarrow> fire_all (sort_key (\<lambda>i. seq (the (map_of (stops b1) i))) fire) b1 ts;
          Some (Inl r)
        })"

definition evaluate_stops :: "Book \<Rightarrow> Trade list \<Rightarrow> (Book \<times> Trade list) option" where
  "evaluate_stops b ts = iter stops_round (b, ts)"

subsection \<open>Resting keeps the pools\<close>

lemma pools_ok_grow:
  assumes "pools_ok b" "pools_eq b b'" "book_core b'"
    "set (map fst (orders b')) \<subseteq> insert i (set (map fst (orders b)))" "i \<notin> oid ` set (waiting b)"
  shows "pools_ok b'"
proof -
  have "fst ` set (orders b) \<inter> oid ` set (waiting b) = {}" using assms(1) by (simp add: pools_ok_def)
  moreover have "fst ` set (orders b') \<subseteq> insert i (fst ` set (orders b))" using assms(4) by simp
  ultimately have "fst ` set (orders b') \<inter> oid ` set (waiting b) = {}"
    using assms(5) by (rule disjoint_insert_subset)
  with assms(1) waiting_pools_eq [OF assms(2)] book_coreD(4) [OF assms(3)] assms(2) show ?thesis
    by (simp add: pools_ok_def pools_eq_def)
qed

definition positive :: "Trade list \<Rightarrow> bool" where
  "positive ts \<longleftrightarrow> (\<forall>t \<in> set ts. 0 < t_qty t)"

lemma positive_simps [simp]: "positive []" "positive (ts @ us) \<longleftrightarrow> positive ts \<and> positive us"
  by (auto simp: positive_def)

lemma fills_positive: "fills P x new y \<Longrightarrow> positive new"
  by (simp add: fills_def positive_def)

text \<open>An order that may enter: live, admissible, with an id nothing else in the book uses.\<close>

definition enterable :: "Order \<Rightarrow> Book \<Rightarrow> bool" where
  "enterable x b \<longleftrightarrow> 0 < leaves x \<and> admissible x \<and> oid x \<notin> set (map fst (orders b)) \<and> oid x \<notin> oid ` set (waiting b)"

lemma enterable_absent: "enterable x b \<Longrightarrow> omap b (oid x) = None"
  by (simp add: enterable_def map_of_eq_None_iff)

lemma inject_core:
  assumes core: "book_core b" and caches: "caches_ok b"
    and x: "omap b (oid x) = None" "0 < leaves x" "admissible x"
  shows "\<exists>x' b' new. inject x b ts = Some (x', b', ts @ new) \<and> book_core b' \<and> caches_ok b' \<and> evolves b b'
    \<and> pools_eq b b' \<and> fills (acceptable x) x new x'
    \<and> set (map fst (orders b')) \<subseteq> insert (oid x) (set (map fst (orders b)))
    \<and> (rests x' \<longrightarrow> mem_levels b = 0 \<longrightarrow> omap b' (oid x) = Some \<lparr>e_order = x', slice = initial_slice x'\<rparr>)"
proof -
  have nn: "0 \<le> leaves x" using x by simp
  from match_order_ok [OF core nn] obtain c x' b1 new
    where m: "match_order x b ts = Some (c, x', b1, ts @ new)" and post: "match_post x b new (c, x', b1)" by blast
  have M: "match_ok (Opposite (side x)) b b1" and f: "fills (acceptable x) x new x'"
    using post by (simp_all add: match_post_def Let_def)
  have b1: "book_core b1" "caches_ok b1" "evolves b b1" "pools_eq b b1"
    "set (map fst (orders b1)) \<subseteq> set (map fst (orders b))"
    using M caches by (simp_all add: match_ok_def keys_le_def)
  have oid: "oid x' = oid x" by (rule fills_frame(2) [OF f])
  show ?thesis
  proof (cases "rests x'")
    case False
    then have "inject x b ts = Some (x', b1, ts @ new)" using m by (simp add: inject_def)
    with False b1 f show ?thesis by blast
  next
    case True
    obtain r ev b2 where rest: "rest x' b1 = (r, ev, b2)" by (metis prod_cases3)
    have absent: "omap b1 (oid x') = None"
    proof -
      have "oid x \<notin> set (map fst (orders b))" using x(1) by (simp add: map_of_eq_None_iff)
      then have "oid x \<notin> set (map fst (orders b1))" using b1(5) by (rule contra_subsetD [rotated])
      then show ?thesis by (simp add: map_of_eq_None_iff oid)
    qed
    have "0 < leaves x'" "admissible x'" using True x(3) fills_admissible [OF f] by (simp_all add: rests_def)
    note R = rest_step [OF b1(1) absent this rest]
    have "evolves b b2" "pools_eq b b2" using b1(3,4) R evolves_trans pools_eq_trans by blast+
    moreover have "r" if "mem_levels b = 0"
    proof -
      have "mem_levels b1 = 0" using that b1(3) by (simp add: evolves_def)
      with rest show ?thesis by (auto simp: rest_def beyond_window_def Let_def)
    qed
    moreover have "inject x b ts = Some (x', b2, ts @ new)" using m True rest by (simp add: inject_def)
    moreover have "set (map fst (orders b2)) \<subseteq> insert (oid x) (set (map fst (orders b)))"
      using R b1(5) unfolding oid by (blast intro: subset_trans)
    ultimately show ?thesis using R f oid b1(2) by simp
  qed
qed

lemma inject_ok:
  assumes ok: "book_ok b" and x: "enterable x b"
  shows "\<exists>x' b' new. inject x b ts = Some (x', b', ts @ new) \<and> book_ok b' \<and> evolves b b' \<and> pools_eq b b'
    \<and> fills (acceptable x) x new x' \<and> set (map fst (orders b')) \<subseteq> insert (oid x) (set (map fst (orders b)))
    \<and> (rests x' \<longrightarrow> mem_levels b = 0 \<longrightarrow>
         omap b' (oid x) = Some \<lparr>e_order = x', slice = initial_slice x'\<rparr>)"
proof -
  have "book_core b" "caches_ok b" "0 < leaves x" "admissible x" using ok x by (simp_all add: book_ok_def enterable_def)
  from inject_core [OF this(1,2) enterable_absent [OF x] this(3,4), of ts] obtain x' b' new
    where r: "inject x b ts = Some (x', b', ts @ new)" "book_core b'" "caches_ok b'" "evolves b b'"
      "pools_eq b b'" "fills (acceptable x) x new x'" "set (map fst (orders b')) \<subseteq> insert (oid x) (set (map fst (orders b)))"
      "rests x' \<longrightarrow> mem_levels b = 0 \<longrightarrow> omap b' (oid x) = Some \<lparr>e_order = x', slice = initial_slice x'\<rparr>"
    by (elim exE conjE) (rule that; assumption)
  have "pools_ok b'"
    by (rule pools_ok_grow [OF _ r(5,2,7)]) (use ok x in \<open>simp_all add: book_ok_def enterable_def\<close>)
  with r show ?thesis by (intro exI [of _ x'] exI [of _ b'] exI [of _ new]) (simp add: book_ok_def)
qed

subsection \<open>Changing the table of stops\<close>

definition held_orders :: "Book \<Rightarrow> Order list" where
  "held_orders b = opening_auction b @ closing_auction b @ pending_orders b"

definition held_eq :: "Book \<Rightarrow> Book \<Rightarrow> bool" where
  "held_eq b b' \<longleftrightarrow> opening_auction b' = opening_auction b \<and> closing_auction b' = closing_auction b
     \<and> groups b' = groups b \<and> order_group b' = order_group b"

lemma held_eq_refl [simp]: "held_eq b b"
  by (simp add: held_eq_def)

lemma held_eq_trans [trans]: "held_eq a b \<Longrightarrow> held_eq b c \<Longrightarrow> held_eq a c"
  by (simp add: held_eq_def)

lemma held_eq_orders: "held_eq b b' \<Longrightarrow> held_orders b' = held_orders b"
  by (simp add: held_eq_def held_orders_def pending_orders_def)

lemma held_eq_stops [simp]: "held_eq b (b\<lparr>stops := S\<rparr>)" "held_eq (b\<lparr>stops := S\<rparr>) b' = held_eq b b'"
  by (simp_all add: held_eq_def)

text \<open>The ids the book knows: resting or parked, and those held for an auction or a parent.\<close>

definition live_keys :: "Book \<Rightarrow> OrderId set" where
  "live_keys b = set (map fst (orders b)) \<union> set (map fst (stops b))"

definition all_ids :: "Book \<Rightarrow> OrderId set" where
  "all_ids b = live_keys b \<union> oid ` set (held_orders b)"

lemma waiting_split: "waiting b = map snd (stops b) @ held_orders b"
  by (simp add: waiting_def held_orders_def)

lemma held_orders_stops [simp]: "held_orders (b\<lparr>stops := S\<rparr>) = held_orders b"
  by (simp add: held_orders_def pending_orders_def)

definition stop_entry_ok :: "OrderId \<times> Order \<Rightarrow> bool" where
  "stop_entry_ok = (\<lambda>(i, so). oid so = i \<and> 0 < leaves so \<and> admissible so)"

lemma stop_entries_oid: "\<forall>kv \<in> set S. stop_entry_ok kv \<Longrightarrow> map oid (map snd S) = map fst S"
  by (induction S) (auto simp: stop_entry_ok_def)

lemma pools_ok_alt:
  "pools_ok b \<longleftrightarrow> (\<forall>kv \<in> set (stops b). stop_entry_ok kv)
     \<and> (\<forall>x \<in> set (held_orders b). 0 < leaves x \<and> admissible x)
     \<and> distinct (map fst (orders b) @ map fst (stops b) @ map oid (held_orders b))"
proof (cases "\<forall>kv \<in> set (stops b). stop_entry_ok kv")
  case True
  then have eq: "map oid (waiting b) = map fst (stops b) @ map oid (held_orders b)"
    using stop_entries_oid [OF True] by (simp add: waiting_split)
  have "(\<forall>x \<in> set (waiting b). 0 < leaves x \<and> admissible x) \<longleftrightarrow>
      (\<forall>x \<in> set (held_orders b). 0 < leaves x \<and> admissible x)"
    using True by (auto simp: waiting_split stop_entry_ok_def)
  moreover have "\<forall>(i, order) \<in> set (stops b). oid order = i" using True by (auto simp: stop_entry_ok_def)
  ultimately show ?thesis using True by (simp only: pools_ok_def eq) blast
next
  case False
  then obtain i so where so: "(i, so) \<in> set (stops b)" "\<not> stop_entry_ok (i, so)" by auto
  then have "so \<in> set (waiting b)" by (force simp: waiting_split)
  with so have "\<not> pools_ok b" unfolding pools_ok_def stop_entry_ok_def by blast
  with False show ?thesis by blast
qed

lemma pools_ok_set_stops:
  assumes "pools_ok b" "\<forall>kv \<in> set S. stop_entry_ok kv" "distinct (map fst S)"
    "set (map fst S) \<subseteq> set (map fst (stops b))"
  shows "pools_ok (b\<lparr>stops := S\<rparr>)"
proof -
  have "fst ` set (orders b) \<inter> (fst ` set (stops b) \<union> oid ` set (held_orders b)) = {}"
    "fst ` set (stops b) \<inter> oid ` set (held_orders b) = {}"
    using assms(1) by (simp_all add: pools_ok_alt)
  from disjoint_shrink [OF this, of "fst ` set S"] assms(4)
  have "fst ` set (orders b) \<inter> (fst ` set S \<union> oid ` set (held_orders b)) = {} \<and>
    fst ` set S \<inter> oid ` set (held_orders b) = {}" by simp
  with assms(1-3) show ?thesis by (simp add: pools_ok_alt)
qed

lemma set_stops_ok:
  assumes "book_ok b" "\<forall>kv \<in> set S. stop_entry_ok kv" "distinct (map fst S)"
    "set (map fst S) \<subseteq> set (map fst (stops b))"
  shows "book_ok (b\<lparr>stops := S\<rparr>)" "evolves b (b\<lparr>stops := S\<rparr>)"
proof -
  have "book_core (b\<lparr>stops := S\<rparr>)" by (rule book_core_cong [of b]) (use assms(1) in \<open>simp_all add: book_ok_def\<close>)
  with assms show "book_ok (b\<lparr>stops := S\<rparr>)"
    by (simp add: book_ok_def pools_ok_set_stops caches_ok_def)
  show "evolves b (b\<lparr>stops := S\<rparr>)" by (rule evolves_silent) (simp_all add: position_of_def)
qed

lemma pools_okD:
  assumes "pools_ok b"
  shows "distinct (map fst (stops b))" "map_of (stops b) i = Some so \<Longrightarrow> stop_entry_ok (i, so)"
    "kv \<in> set (stops b) \<Longrightarrow> stop_entry_ok kv"
  using assms unfolding pools_ok_alt by (auto dest: map_of_SomeD)

lemma emit_trigger_ok:
  assumes "book_ok b"
  shows "book_ok (emit_event kTrigger x q d b)" "evolves b (emit_event kTrigger x q d b)"
    "pools_eq b (emit_event kTrigger x q d b)"
proof -
  let ?b = "emit_event kTrigger x q d b"
  show pe: "pools_eq b ?b" by (simp add: pools_eq_def)
  have "book_core ?b" by (rule book_core_cong [of b]) (use assms in \<open>simp_all add: book_ok_def\<close>)
  moreover have "pools_ok ?b"
    using assms waiting_pools_eq [OF pe] by (simp add: book_ok_def pools_ok_def)
  ultimately show "book_ok ?b" using assms by (simp add: book_ok_def caches_ok_def)
  show "evolves b ?b"
    by (rule evolves_step [where es = "[order_event kTrigger (book_symbol b) x q d]"])
      (simp_all add: table_step.marker reserved_exact_def)
qed

lemma update_trail_frame [simp]:
  "oid (update_trail x px) = oid x" "leaves (update_trail x px) = leaves x" "flags (update_trail x px) = flags x"
  "display_qty (update_trail x px) = display_qty x" "seq (update_trail x px) = seq x" "side (update_trail x px) = side x"
  by (auto simp: update_trail_def split: option.split)

lemma mark_triggered_frame [simp]:
  "oid (mark_triggered x) = oid x" "leaves (mark_triggered x) = leaves x" "flags (mark_triggered x) = flags x"
  "display_qty (mark_triggered x) = display_qty x" "side (mark_triggered x) = side x"
  by (simp_all add: mark_triggered_def)

lemma admissible_frame [simp]:
  "admissible (update_trail x px) = admissible x" "admissible (mark_triggered x) = admissible x"
  by (simp_all add: admissible_def)

lemma trail_stops_frame:
  "map fst (trail_stops b) = map fst (stops b)"
  "\<forall>kv \<in> set (stops b). stop_entry_ok kv \<Longrightarrow> \<forall>kv \<in> set (trail_stops b). stop_entry_ok kv"
  by (auto simp: trail_stops_def stop_entry_ok_def split_def)

subsection \<open>Firing\<close>

lemma fire_stop_ok:
  assumes ok: "book_ok b" and so: "map_of (stops b) i = Some so"
  shows "\<exists>b' new. fire_stop i b ts = Some (b', ts @ new) \<and> book_ok b' \<and> evolves b b' \<and> positive new
    \<and> stops b' = AList.delete i (stops b) \<and> held_eq b b' \<and> live_keys b' \<subseteq> live_keys b"
proof -
  have po: "pools_ok b" using ok by (simp add: book_ok_def)
  let ?b1 = "b\<lparr>stops := AList.delete i (stops b)\<rparr>" and ?x = "mark_triggered so"
  let ?b2 = "emit_event kTrigger ?x (leaves ?x) 0 ?b1"
  have entries: "\<forall>kv \<in> set (AList.delete i (stops b)). stop_entry_ok kv"
    using pools_okD(3) [OF po] by (simp add: delete_filter)
  have keys: "distinct (map fst (AList.delete i (stops b)))"
    "set (map fst (AList.delete i (stops b))) \<subseteq> set (map fst (stops b))"
    using pools_okD(1) [OF po] by simp_all
  note b1 = set_stops_ok [OF ok entries keys]
  note b2 = emit_trigger_ok [OF b1(1), of ?x "leaves ?x" 0]
  have soe: "stop_entry_ok (i, so)" by (rule pools_okD(2) [OF po so])
  have "fst ` set (orders b) \<inter> (fst ` set (stops b) \<union> oid ` set (held_orders b)) = {}"
    "fst ` set (stops b) \<inter> oid ` set (held_orders b) = {}"
    using po by (simp_all add: pools_ok_alt)
  with map_of_Some_key [OF so] have "i \<notin> fst ` set (orders b)" "i \<notin> oid ` set (held_orders b)"
    by (metis UnI1 disjoint_iff, metis disjoint_iff)
  moreover have "oid ` set (waiting ?b2) = set (map oid (map snd (stops ?b1))) \<union> oid ` set (held_orders b)"
    by (simp only: waiting_pools_eq [OF b2(3)]) (simp add: waiting_split image_Un image_image)
  moreover have "set (map oid (map snd (stops ?b1))) = set (map fst (stops b)) - {i}"
  proof -
    have "set (map oid (map snd (stops ?b1))) = set (map fst (AList.delete i (stops b)))"
      using arg_cong [OF stop_entries_oid [OF entries], of set] by simp
    also have "\<dots> = set (map fst (stops b)) - {i}" by (simp only: keys_delete) auto
    finally show ?thesis .
  qed
  ultimately have ent: "enterable ?x ?b2"
    using soe unfolding enterable_def stop_entry_ok_def by simp
  from inject_ok [OF b2(1) ent, of ts] obtain x' b' new where inj: "inject ?x ?b2 ts = Some (x', b', ts @ new)"
    and b': "book_ok b'" "evolves ?b2 b'" "pools_eq ?b2 b'" "fills (acceptable ?x) ?x new x'"
      "set (map fst (orders b')) \<subseteq> insert (oid ?x) (set (map fst (orders ?b2)))"
    by (elim exE conjE) (rule that; assumption)
  have "fire_stop i b ts = Some (b', ts @ new)" using so inj by (simp add: fire_stop_def Let_def)
  moreover have "evolves b b'" using b1(2) b2(2) b'(2) evolves_trans by blast
  moreover have st: "stops b' = AList.delete i (stops b)" and "held_eq b b'"
    using b'(3) by (simp_all add: pools_eq_def held_eq_def)
  moreover have "live_keys b' \<subseteq> live_keys b"
  proof -
    have sets: "K' \<union> S' \<subseteq> K \<union> S" if "K' \<subseteq> insert i K" "S' = S - {i}" "i \<in> S" for K K' S S' :: "OrderId set"
      using that by blast
    have oid: "oid ?x = i" using soe by (simp add: stop_entry_ok_def)
    show ?thesis unfolding live_keys_def
    proof (rule sets)
      show "set (map fst (orders b')) \<subseteq> insert i (set (map fst (orders b)))" using b'(5) oid by simp
      show "set (map fst (stops b')) = set (map fst (stops b)) - {i}"
        unfolding st keys_delete by auto
      show "i \<in> set (map fst (stops b))" using map_of_Some_key [OF so] by simp
    qed
  qed
  ultimately show ?thesis using b'(1) fills_positive [OF b'(4)] by blast
qed

lemma fire_all_ok:
  assumes "book_ok b" "distinct is" "set is \<subseteq> dom (map_of (stops b))"
  shows "\<exists>b' new. fire_all is b ts = Some (b', ts @ new) \<and> book_ok b' \<and> evolves b b' \<and> positive new
    \<and> stops b' = filter (\<lambda>kv. fst kv \<notin> set is) (stops b) \<and> held_eq b b' \<and> live_keys b' \<subseteq> live_keys b"
  using assms
proof (induction "is" arbitrary: b ts)
  case Nil
  then show ?case by (auto intro!: exI [of _ "[]"])
next
  case (Cons i "is")
  then obtain so where so: "map_of (stops b) i = Some so" by auto
  from fire_stop_ok [OF Cons.prems(1) so] obtain b1 new1 where f: "fire_stop i b ts = Some (b1, ts @ new1)"
    "book_ok b1" "evolves b b1" "positive new1" "stops b1 = AList.delete i (stops b)" "held_eq b b1" "live_keys b1 \<subseteq> live_keys b" by blast
  have "set is \<subseteq> dom (map_of (stops b1))" using Cons.prems(2,3) f(5) by auto
  from Cons.IH [OF f(2) _ this, of "ts @ new1"] Cons.prems(2) obtain b2 new2
    where g: "fire_all is b1 (ts @ new1) = Some (b2, (ts @ new1) @ new2)"
    "book_ok b2" "evolves b1 b2" "positive new2" "stops b2 = filter (\<lambda>kv. fst kv \<notin> set is) (stops b1)"
    "held_eq b1 b2" "live_keys b2 \<subseteq> live_keys b1" by auto
  have "live_keys b2 \<subseteq> live_keys b" using g(7) f(7) by (rule subset_trans)
  moreover have "evolves b b2" "held_eq b b2" using evolves_trans [OF f(3) g(3)] held_eq_trans [OF f(6) g(6)] by simp_all
  moreover have "stops b2 = filter (\<lambda>kv. fst kv \<notin> set (i # is)) (stops b)"
    using f(5) g(5) by (simp add: delete_filter conj_commute)
  moreover have "fire_all (i # is) b ts = Some (b2, ts @ new1 @ new2)" using f(1) g(1) by simp
  ultimately show ?case using f(4) g(2,4) by (intro exI [of _ b2] exI [of _ "new1 @ new2"]) simp
qed

definition quiescent :: "Book \<Rightarrow> bool" where
  "quiescent b \<longleftrightarrow> (\<forall>(i, so) \<in> set (stops b). have_last b \<longrightarrow> \<not> stop_triggered so (last_price b))"

definition cascade_ok :: "Book \<Rightarrow> Trade list \<Rightarrow> Book \<times> Trade list \<Rightarrow> bool" where
  "cascade_ok b ts = (\<lambda>(b', ts'). book_ok b' \<and> evolves b b' \<and> held_eq b b'
     \<and> set (map fst (stops b')) \<subseteq> set (map fst (stops b)) \<and> live_keys b' \<subseteq> live_keys b \<and> (\<exists>new. ts' = ts @ new \<and> positive new))"

lemma cascade_ok_refl: "book_ok b \<Longrightarrow> cascade_ok b ts (b, ts)"
  by (simp add: cascade_ok_def)

lemma cascade_ok_trans:
  assumes "cascade_ok b ts (b1, ts1)" "cascade_ok b1 ts1 (b2, ts2)"
  shows "cascade_ok b ts (b2, ts2)"
proof -
  have "evolves b b2" "held_eq b b2" using assms evolves_trans held_eq_trans unfolding cascade_ok_def by blast+
  moreover have "\<exists>new. ts2 = ts @ new \<and> positive new" using assms unfolding cascade_ok_def by auto
  moreover have "set (map fst (stops b2)) \<subseteq> set (map fst (stops b))" "live_keys b2 \<subseteq> live_keys b"
    using assms unfolding cascade_ok_def prod.case by (blast intro: subset_trans)+
  ultimately show ?thesis using assms unfolding cascade_ok_def by simp
qed

lemma trail_ok:
  assumes "book_ok b"
  shows "cascade_ok b ts (b\<lparr>stops := trail_stops b\<rparr>, ts)"
proof -
  have po: "pools_ok b" using assms by (simp add: book_ok_def)
  have "\<forall>kv \<in> set (trail_stops b). stop_entry_ok kv"
    by (rule trail_stops_frame(2)) (use pools_okD(3) [OF po] in blast)
  moreover have keys: "fst ` set (trail_stops b) = fst ` set (stops b)"
    by (metis set_map trail_stops_frame(1))
  moreover have "distinct (map fst (trail_stops b))"
    unfolding trail_stops_frame(1) by (rule pools_okD(1) [OF po])
  ultimately show ?thesis
    using set_stops_ok [OF assms, of "trail_stops b"] by (simp add: cascade_ok_def live_keys_def)
qed

lemma stops_round_ok:
  assumes ok: "book_ok b"
  shows "(\<exists>b' ts'. stops_round (b, ts) = Some (Inl (b', ts')) \<and> cascade_ok b ts (b', ts')
            \<and> length (stops b') < length (stops b))
       \<or> (\<exists>b' ts'. stops_round (b, ts) = Some (Inr (b', ts')) \<and> cascade_ok b ts (b', ts') \<and> quiescent b')"
proof (cases "firing b = []")
  case True
  then have "quiescent (b\<lparr>stops := trail_stops b\<rparr>)"
    by (auto simp: firing_def quiescent_def filter_empty_conv)
  with True trail_ok [OF ok] show ?thesis by (simp add: stops_round_def Let_def)
next
  case False
  let ?b1 = "b\<lparr>stops := trail_stops b\<rparr>"
  let ?fire = "sort_key (\<lambda>i. seq (the (map_of (stops ?b1) i))) (firing b)"
  note t = trail_ok [OF ok, of ts]
  have ok1: "book_ok ?b1" using t by (simp add: cascade_ok_def)
  have keys: "distinct (map fst (trail_stops b))"
    using pools_okD(1) [of b] ok trail_stops_frame(1) by (simp add: book_ok_def)
  have "distinct (firing b)"
    unfolding firing_def using keys by (rule distinct_map_filter)
  then have dist: "distinct ?fire" by simp
  have sub: "set ?fire \<subseteq> dom (map_of (stops ?b1))"
    by (auto simp: firing_def dom_map_of_conv_image_fst)
  from fire_all_ok [OF ok1 dist sub, of ts] obtain b' new
    where f: "fire_all ?fire ?b1 ts = Some (b', ts @ new)" "book_ok b'" "evolves ?b1 b'" "positive new"
      "stops b' = filter (\<lambda>kv. fst kv \<notin> set ?fire) (stops ?b1)" "held_eq ?b1 b'" "live_keys b' \<subseteq> live_keys ?b1"
    by (elim exE conjE) (rule that; assumption)
  have "set (map fst (stops b')) \<subseteq> set (map fst (stops ?b1))" using f(5) by auto
  then have "cascade_ok ?b1 ts (b', ts @ new)"
    using f by (simp add: cascade_ok_def)
  then have casc: "cascade_ok b ts (b', ts @ new)" by (rule cascade_ok_trans [OF t])
  obtain i where "i \<in> set (firing b)" using False by (cases "firing b") auto
  then have "\<exists>kv \<in> set (stops ?b1). \<not> fst kv \<notin> set ?fire" by (auto simp: firing_def)
  then have "length (stops b') < length (stops ?b1)"
    unfolding f(5) by (metis length_filter_less)
  moreover have "length (stops ?b1) = length (stops b)" by (simp add: trail_stops_def)
  ultimately show ?thesis using False f(1) casc by (simp add: stops_round_def Let_def)
qed

lemma evaluate_stops_ok:
  assumes "book_ok b"
  shows "\<exists>b' ts'. evaluate_stops b ts = Some (b', ts') \<and> cascade_ok b ts (b', ts') \<and> quiescent b'"
proof -
  have "\<exists>r. iter stops_round (b, ts) = Some r \<and> cascade_ok b ts r \<and> quiescent (fst r)"
  proof (rule iter_total [where I = "cascade_ok b ts" and m = "\<lambda>(b, ts). length (stops b)"])
    show "cascade_ok b ts (b, ts)" by (rule cascade_ok_refl [OF assms])
    fix st assume inv: "cascade_ok b ts st"
    obtain b1 ts1 where st: "st = (b1, ts1)" by (cases st)
    have "book_ok b1" using inv by (simp add: st cascade_ok_def)
    from stops_round_ok [OF this, of ts1] cascade_ok_trans [OF inv [unfolded st]]
    show "(\<exists>st'. stops_round st = Some (Inl st') \<and> cascade_ok b ts st' \<and>
         (case st' of (b, ts) \<Rightarrow> length (stops b)) < (case st of (b, ts) \<Rightarrow> length (stops b)))
      \<or> (\<exists>r. stops_round st = Some (Inr r) \<and> cascade_ok b ts r \<and> quiescent (fst r))"
      unfolding st by fastforce
  qed
  then show ?thesis by (auto simp: evaluate_stops_def)
qed

end
