(* ===== verification/Pegs.thy ===== *)
theory Pegs
  imports Stops
begin

section \<open>Pegged orders (core/order\_book.cc: reference\_best .. reprice\_pegs)\<close>

text \<open>
  A pegged order rests at a price derived from the best prices of the orders that are not
  pegged. \<open>reprice_pegs\<close> moves every resident pegged order, in arrival order, to its
  recomputed price. The comparator of its sort reads \<open>orders.at\<close>: with two or more ids and
  one of them not resting it throws, which is the value \<open>None\<close>.
\<close>

definition has_nonpeg :: "Book \<Rightarrow> Level \<Rightarrow> bool" where
  "has_nonpeg b l = list_ex (\<lambda>i. case map_of (orders b) i of
     None \<Rightarrow> False | Some e \<Rightarrow> peg (e_order e) = None) (fifo l)"

definition reference_best :: "Side \<Rightarrow> Book \<Rightarrow> Ticks option" where
  "reference_best s b =
     (let L = ladder b s; ok = (\<lambda>l. total l > 0 \<and> has_nonpeg b l)
      in if \<not> has_base L then None
         else price_of L (if s = Buy then scan_down ok L else scan_up ok L))"

definition compute_peg_price :: "Order \<Rightarrow> Book \<Rightarrow> Ticks option" where
  "compute_peg_price order b = do {
     p \<leftarrow> peg order;
     let rb = reference_best Buy b;
     let ra = reference_best Sell b;
     ref \<leftarrow> (case peg_ref p of
              Primary \<Rightarrow> if side order = Buy then rb else ra
            | MarketRef \<Rightarrow> if side order = Buy then ra else rb
            | Midpoint \<Rightarrow> do { x \<leftarrow> rb; y \<leftarrow> ra; Some (cdiv (x + y) 2) });
     let pr = ref + peg_offset p;
     let pr' = (if cap_limit p > 0
                then (if side order = Buy then min pr (cap_limit p) else max pr (cap_limit p)) else pr);
     if pr' \<le> 0 then None else Some pr'
   }"

definition reprice_one :: "OrderId \<Rightarrow> Book \<Rightarrow> Book option" where
  "reprice_one i b =
     (case map_of (orders b) i of
        None \<Rightarrow> Some (b\<lparr>pegged := removeAll i (pegged b)\<rparr>)
      | Some e \<Rightarrow>
          (case compute_peg_price (e_order e) b of
             None \<Rightarrow> Some b
           | Some np \<Rightarrow> if np \<noteq> price (e_order e) then move_pegged i np b else Some b))"

fun reprice_all :: "OrderId list \<Rightarrow> Book \<Rightarrow> Book option" where
  "reprice_all [] b = Some b"
| "reprice_all (i # is) b = do { b' \<leftarrow> reprice_one i b; reprice_all is b' }"

definition reprice_pegs :: "Book \<Rightarrow> Book option" where
  "reprice_pegs b =
     (if pegged b = [] then Some b
      else if 2 \<le> length (pegged b) \<and> list_ex (\<lambda>i. map_of (orders b) i = None) (pegged b) then None
      else reprice_all (sort_key (\<lambda>i. case map_of (orders b) i of None \<Rightarrow> 0 | Some e \<Rightarrow> seq (e_order e))
             (pegged b)) b)"

subsection \<open>Moving one pegged order\<close>

lemma moved_sel [simp]:
  "e_order (moved e p k) = (e_order e)\<lparr>price := p, rank := k\<rparr>" "slice (moved e p k) = slice e"
  "shown (moved e p k) = shown e"
  by (simp_all add: moved_def shown_def)

definition relevel :: "OrderId \<Rightarrow> Entry \<Rightarrow> Ticks \<Rightarrow> Ladder \<Rightarrow> Ladder" where
  "relevel i e p L = on_added (upd_level (touch (unlink_level e L) p) p
     (lvl_push i (leaves (e_order e)) (shown e))) p"

lemma move_pegged_eq:
  assumes "omap b i = Some e"
  shows "move_pegged i p b = Some (emit_reprice ((e_order e)\<lparr>price := p\<rparr>) (price (e_order e)) p (leaves (e_order e)) (shown e)
     ((requeue ((e_order e)\<lparr>price := p\<rparr>) (upd_ladder b (side (e_order e)) (relevel i e p)))\<lparr>orders :=
        AList.update i (moved e p (next_seq b)) (orders b)\<rparr>))"
proof -
  have upd: "upd_ladder (upd_ladder b s f) s g = upd_ladder b s (\<lambda>L. g (f L))" for s f g
    by (cases s) (simp_all add: upd_ladder_def)
  show ?thesis
    unfolding move_pegged_def assms bind.bind_lunit Let_def upd relevel_def by simp
qed

lemma relevel_spec:
  fixes p :: Ticks
  assumes core: "book_core b" and e: "omap b i = Some e" and s: "s = side (e_order e)"
  defines "L \<equiv> relevel i e p (ladder b s)"
  shows "l_side L = s" "ladder_ok L" "cache_ok (ladder b s) \<Longrightarrow> cache_ok L"
    "level_at L = (let F = (lvl b s)(price (e_order e) :=
        lvl_drop i (leaves (e_order e)) (shown e) (lvl b s (price (e_order e))))
      in F(p := lvl_push i (leaves (e_order e)) (shown e) (F p)))"
proof -
  let ?U = "unlink_level e (ladder b s)" let ?push = "lvl_push i (leaves (e_order e)) (shown e)"
  have i: "oid (e_order e) = i" and lv0: "0 < leaves (e_order e)" using book_coreD(8,9) [OF core e] by simp_all
  note cov = book_core_mem(2) [OF core e, folded s]
  have U: "l_side ?U = s" "ladder_ok ?U" "level_at ?U = (lvl b s)(price (e_order e) :=
        lvl_drop i (leaves (e_order e)) (shown e) (lvl b s (price (e_order e))))"
    using unlink_level_spec [OF cov] book_coreD(1,2) [OF core, of s] i by (simp_all add: lvl_def)
  show "l_side L = s" "ladder_ok L" using U by (simp_all add: L_def relevel_def frame_simps touch_ok upd_level_ok)
  have lev: "level_at (upd_level (touch ?U p) p ?push) = (level_at ?U)(p := ?push (level_at ?U p))"
    by (rule ladder.at_put [OF U(2)])
  then show "level_at L = (let F = (lvl b s)(price (e_order e) :=
        lvl_drop i (leaves (e_order e)) (shown e) (lvl b s (price (e_order e))))
      in F(p := ?push (F p)))"
    using U(3) by (simp add: L_def relevel_def frame_simps Let_def)
  show "cache_ok L" if "cache_ok (ladder b s)"
    unfolding L_def relevel_def
  proof (rule cache_ok_added)
    show "cache_ok ?U"
      using unlink_level_cache [OF cov that refl lv0] entry_le_total [OF core e] s by (simp add: lvl_def)
    have "0 \<le> total (level_at ?U p)"
      using book_core_level(1) [OF core, of s p] entry_le_total [OF core e] s unfolding U(3)
      by (auto simp: lvl_drop_def)
    with lv0 show "0 < total (level_at (upd_level (touch ?U p) p ?push) p)"
      unfolding lev by (simp add: lvl_push_def)
    show "\<And>q. q \<noteq> p \<Longrightarrow> level_at (upd_level (touch ?U p) p ?push) q = level_at ?U q"
      unfolding lev by simp
  qed (simp_all add: frame_simps)
qed

lemma move_pegged_step:
  assumes core: "book_core b" and e: "omap b i = Some e"
  shows "\<exists>b'. move_pegged i p b = Some b' \<and> book_core b' \<and> (caches_ok b \<longrightarrow> caches_ok b')
    \<and> evolves b b' \<and> pools_eq b b' \<and> map fst (orders b') = map fst (orders b) \<and> pegged b' = pegged b
    \<and> omap b' = (omap b)(i \<mapsto> moved e p (next_seq b)) \<and> have_last b' = have_last b \<and> last_price b' = last_price b"
proof -
  let ?s = "side (e_order e)" let ?e = "moved e p (next_seq b)"
  define b' where "b' = emit_reprice ((e_order e)\<lparr>price := p\<rparr>) (price (e_order e)) p (leaves (e_order e)) (shown e)
     ((requeue ((e_order e)\<lparr>price := p\<rparr>) (upd_ladder b ?s (relevel i e p)))\<lparr>orders :=
        AList.update i ?e (orders b)\<rparr>)"
  note R = relevel_spec [OF core e refl, of p]
  have ok: "entry_ok i e" by (rule book_coreD(5) [OF core e])
  have map: "omap b' = (omap b)(i \<mapsto> ?e)" by (simp add: b'_def)
  have keys: "map fst (orders b') = map fst (orders b)" using e by (simp add: b'_def map_of_Some_key)
  have lad: "ladder b' t = (if t = ?s then relevel i e p (ladder b t) else ladder b t)" for t by (simp add: b'_def)
  have core': "book_core b'"
  proof (rule book_coreI)
    fix t
    show "lvls_ok (omap b') t (lvl b' t)"
    proof (cases "t = ?s")
      case True
      have drop: "lvls_ok ((omap b)(i := None)) ?s ((lvl b ?s)(price (e_order e) :=
          lvl_drop i (leaves (e_order e)) (shown e) (lvl b ?s (price (e_order e)))))"
        by (rule lvls_ok_drop [OF book_coreD(3) [OF core] e refl refl])
      have "lvls_ok ((omap b)(i := None, i \<mapsto> ?e)) ?s (level_at (relevel i e p (ladder b ?s)))"
        using lvls_ok_push [OF drop, of i ?e p] by (simp add: R(4) Let_def)
      with True map lad show ?thesis by (simp add: lvl_def)
    next
      case False
      then show ?thesis
        using lvls_ok_other [OF book_coreD(3) [OF core], where x = "Some ?e" and i = i] e map lad
        by (simp add: lvl_def)
    qed
    show "l_side (ladder b' t) = t" "ladder_ok (ladder b' t)"
      using lad R(1,2) book_coreD(1,2) [OF core] by simp_all
  next
    show "distinct (map fst (orders b'))" using keys book_coreD(4) [OF core] by simp
    show "distinct (pegged b')" using book_coreD(6) [OF core] by (simp add: b'_def)
    show "pegs_ok (omap b') (pegged b')"
      using pegs_ok_update [OF book_coreD(7) [OF core] e, of ?e] map by (simp add: b'_def)
    show "entry_ok j x" if "omap b' j = Some x" for j x
      using that map ok book_coreD(5) [OF core] by (cases "j = i") (auto simp: entry_ok_def admissible_def)
  qed
  have "evolves b b'"
  proof (rule evolves_step)
    show "table_step (0 < mem_levels b) (book_symbol b) (omap b)
       [reprice_event (book_symbol b) (e_order e) (price (e_order e)) p (leaves (e_order e)) (shown e)] (omap b')"
      unfolding map using e ok by (rule table_step.move)
    show "reserved_exact b'" if "reserved_exact b"
    proof -
      have "alist_sum (reserved_leaves c t) (orders b') = alist_sum (reserved_leaves c t) (orders b)" for c t
        using alist_sum_update [OF book_coreD(4) [OF core] e, of "reserved_leaves c t" ?e]
        by (simp add: b'_def reserved_leaves_def is_reduce_only_def)
      with that show ?thesis by (simp add: reserved_exact_def b'_def)
    qed
  qed (simp_all add: b'_def reprice_event_def)
  moreover have "caches_ok b \<longrightarrow> caches_ok b'" using lad R(3) by (simp add: caches_ok_def)
  moreover have "pools_eq b b'" by (simp add: b'_def pools_eq_def)
  moreover have "move_pegged i p b = Some b'" unfolding b'_def by (rule move_pegged_eq [OF e])
  ultimately show ?thesis using core' keys map by (intro exI [of _ b']) (simp add: b'_def)
qed

subsection \<open>The reference ignores pegged orders\<close>

definition nonpeg_at :: "table \<Rightarrow> Side \<Rightarrow> Ticks \<Rightarrow> bool" where
  "nonpeg_at m s p \<longleftrightarrow> (\<exists>i e. m i = Some e \<and> side (e_order e) = s \<and> price (e_order e) = p \<and> peg (e_order e) = None)"

lemma has_nonpeg_iff:
  assumes "book_core b"
  shows "total (lvl b s p) > 0 \<and> has_nonpeg b (lvl b s p) \<longleftrightarrow> nonpeg_at (omap b) s p"
proof
  assume "total (lvl b s p) > 0 \<and> has_nonpeg b (lvl b s p)"
  then obtain i e where "i \<in> set (fifo (lvl b s p))" "omap b i = Some e" "peg (e_order e) = None"
    by (auto simp: has_nonpeg_def list_ex_iff split: option.splits)
  with book_core_queue [OF assms this(1)] show "nonpeg_at (omap b) s p"
    unfolding nonpeg_at_def by (metis option.inject)
next
  assume "nonpeg_at (omap b) s p"
  then obtain i e where e: "omap b i = Some e" "side (e_order e) = s" "price (e_order e) = p" "peg (e_order e) = None"
    by (auto simp: nonpeg_at_def)
  then have i: "i \<in> set (fifo (lvl b s p))" using book_core_mem(1) [OF assms e(1)] by simp
  then have "fifo (lvl b s p) \<noteq> []" by auto
  moreover have "has_nonpeg b (lvl b s p)"
    unfolding has_nonpeg_def list_ex_iff using e by (intro bexI [OF _ i]) simp
  ultimately show "total (lvl b s p) > 0 \<and> has_nonpeg b (lvl b s p)"
    using book_core_level(2) [OF assms, of s p] by simp
qed

lemma reference_best_spec:
  assumes core: "book_core b"
  shows "case reference_best s b of None \<Rightarrow> \<forall>q. \<not> nonpeg_at (omap b) s q
    | Some p \<Rightarrow> nonpeg_at (omap b) s p \<and> (\<forall>q. nonpeg_at (omap b) s q \<longrightarrow> (if s = Buy then q \<le> p else p \<le> q))"
proof -
  let ?ok = "\<lambda>l. total l > 0 \<and> has_nonpeg b l" let ?L = "ladder b s"
  have iff: "?ok (level_at ?L p) \<longleftrightarrow> nonpeg_at (omap b) s p" for p
    using has_nonpeg_iff [OF core, of s p] by (simp add: lvl_def)
  show ?thesis
  proof (cases "has_base ?L")
    case False
    have "\<not> ?ok (level_at ?L q)" for q
      using no_base_level [OF book_coreD(2) [OF core] False, of q] by simp
    with False iff show ?thesis by (simp add: reference_best_def Let_def)
  next
    case True
    from scan_up_spec [of ?L ?ok] scan_down_spec [of ?L ?ok] True show ?thesis
      unfolding iff by (auto simp: reference_best_def Let_def split: option.splits)
  qed
qed

lemma reference_best_cong:
  assumes "book_core b" "book_core b'" "\<And>q. nonpeg_at (omap b') s q = nonpeg_at (omap b) s q"
  shows "reference_best s b' = reference_best s b"
proof -
  have "p = p'" if "nonpeg_at m s p" "\<forall>q. nonpeg_at m s q \<longrightarrow> (if s = Buy then q \<le> p else p \<le> q)"
    "nonpeg_at m s p'" "\<forall>q. nonpeg_at m s q \<longrightarrow> (if s = Buy then q \<le> p' else p' \<le> q)" for m p p'
    using that by (metis order_antisym)
  with reference_best_spec [OF assms(1), of s] reference_best_spec [OF assms(2), of s] show ?thesis
    unfolding assms(3) by (auto split: option.splits)
qed

lemma compute_peg_price_cong:
  assumes "\<And>s. reference_best s b' = reference_best s b" "peg y = peg x" "side y = side x"
  shows "compute_peg_price y b' = compute_peg_price x b"
  unfolding compute_peg_price_def assms(1-3) ..

lemma nonpeg_at_moved:
  assumes "m i = Some e" "peg (e_order e) \<noteq> None"
  shows "nonpeg_at (m(i \<mapsto> moved e p k)) s q = nonpeg_at m s q"
proof -
  have "(m(i \<mapsto> moved e p k)) j = Some x \<and> peg (e_order x) = None \<longleftrightarrow> m j = Some x \<and> peg (e_order x) = None" for j x
    using assms by (cases "j = i") auto
  then show ?thesis unfolding nonpeg_at_def by metis
qed

subsection \<open>reprice\_pegs\<close>

definition settled :: "Book \<Rightarrow> OrderId \<Rightarrow> bool" where
  "settled b i \<longleftrightarrow> (\<forall>e p. omap b i = Some e \<longrightarrow> compute_peg_price (e_order e) b = Some p \<longrightarrow> p = price (e_order e))"

definition reprice_ok :: "Book \<Rightarrow> Book \<Rightarrow> bool" where
  "reprice_ok b b' \<longleftrightarrow> book_core b' \<and> (caches_ok b \<longrightarrow> caches_ok b') \<and> evolves b b' \<and> pools_eq b b'
     \<and> map fst (orders b') = map fst (orders b) \<and> pegged b' = pegged b
     \<and> have_last b' = have_last b \<and> last_price b' = last_price b
     \<and> (\<forall>s. reference_best s b' = reference_best s b)"

lemma reprice_ok_refl: "book_core b \<Longrightarrow> reprice_ok b b"
  by (simp add: reprice_ok_def)

lemma reprice_ok_trans:
  assumes "reprice_ok a b" "reprice_ok b c"
  shows "reprice_ok a c"
proof -
  have "evolves a c" "pools_eq a c"
    using assms unfolding reprice_ok_def by (metis evolves_trans, metis pools_eq_trans)
  with assms show ?thesis by (simp add: reprice_ok_def)
qed

lemma reprice_one_ok:
  assumes core: "book_core b" and i: "i \<in> set (pegged b)"
  shows "\<exists>b'. reprice_one i b = Some b' \<and> reprice_ok b b' \<and> settled b' i \<and> (\<forall>j. j \<noteq> i \<longrightarrow> omap b' j = omap b j)"
proof -
  obtain e where e: "omap b i = Some e" "peg (e_order e) \<noteq> None"
    using book_coreD(7) [OF core] i by (auto simp: pegs_ok_def)
  show ?thesis
  proof (cases "compute_peg_price (e_order e) b = None \<or> compute_peg_price (e_order e) b = Some (price (e_order e))")
    case True
    then have "reprice_one i b = Some b" using e by (auto simp: reprice_one_def)
    moreover have "settled b i" using True e by (auto simp: settled_def)
    ultimately show ?thesis using reprice_ok_refl [OF core] by auto
  next
    case False
    then obtain np where np: "compute_peg_price (e_order e) b = Some np" "np \<noteq> price (e_order e)" by auto
    obtain b' where b': "move_pegged i np b = Some b'" "book_core b'" "caches_ok b \<longrightarrow> caches_ok b'" "evolves b b'"
      "pools_eq b b'" "map fst (orders b') = map fst (orders b)" "pegged b' = pegged b"
      "omap b' = (omap b)(i \<mapsto> moved e np (next_seq b))" "have_last b' = have_last b" "last_price b' = last_price b"
      using move_pegged_step [OF core e(1), of np] by blast
    have ref: "reference_best s b' = reference_best s b" for s
      by (rule reference_best_cong [OF core b'(2)]) (simp add: b'(8) nonpeg_at_moved [of "omap b" i e] e)
    have "settled b' i"
      using np(1) compute_peg_price_cong [OF ref, of "e_order (moved e np (next_seq b))" "e_order e"]
      by (simp add: settled_def b'(8))
    moreover have "reprice_one i b = Some b'" using e np b'(1) by (simp add: reprice_one_def)
    ultimately show ?thesis using b' ref by (intro exI [of _ b']) (simp add: reprice_ok_def)
  qed
qed

lemma settled_cong:
  assumes "settled b i" "omap b' i = omap b i" "\<And>s. reference_best s b' = reference_best s b"
  shows "settled b' i"
  using assms compute_peg_price_cong [OF assms(3)] unfolding settled_def by metis

lemma reprice_all_ok:
  assumes "book_core b" "distinct is" "set is \<subseteq> set (pegged b)"
  shows "\<exists>b'. reprice_all is b = Some b' \<and> reprice_ok b b' \<and> (\<forall>i \<in> set is. settled b' i)
    \<and> (\<forall>j. j \<notin> set is \<longrightarrow> omap b' j = omap b j)"
  using assms
proof (induction "is" arbitrary: b)
  case Nil
  then show ?case by (simp add: reprice_ok_refl)
next
  case (Cons i "is")
  obtain b1 where b1: "reprice_one i b = Some b1" "reprice_ok b b1" "settled b1 i" "\<forall>j. j \<noteq> i \<longrightarrow> omap b1 j = omap b j"
    using reprice_one_ok [OF Cons.prems(1), of i] Cons.prems(3) by auto
  have "book_core b1" "set is \<subseteq> set (pegged b1)" using b1(2) Cons.prems(3) by (auto simp: reprice_ok_def)
  then obtain b2 where b2: "reprice_all is b1 = Some b2" "reprice_ok b1 b2" "\<forall>i \<in> set is. settled b2 i"
    "\<forall>j. j \<notin> set is \<longrightarrow> omap b2 j = omap b1 j"
    using Cons.IH Cons.prems(2) by fastforce
  have "settled b2 i"
    by (rule settled_cong [OF b1(3)]) (use b2(2,4) Cons.prems(2) in \<open>auto simp: reprice_ok_def\<close>)
  moreover have "\<forall>j. j \<notin> set (i # is) \<longrightarrow> omap b2 j = omap b j" using b1(4) b2(4) by simp
  ultimately show ?case using b1(1) b2(1,3) reprice_ok_trans [OF b1(2) b2(2)] by auto
qed

lemma reprice_pegs_core:
  assumes core: "book_core b"
  shows "\<exists>b'. reprice_pegs b = Some b' \<and> reprice_ok b b' \<and> (\<forall>i \<in> set (pegged b'). settled b' i)
    \<and> (\<forall>j. j \<notin> set (pegged b) \<longrightarrow> omap b' j = omap b j)"
proof (cases "pegged b = []")
  case True
  then show ?thesis using reprice_ok_refl [OF core] by (simp add: reprice_pegs_def)
next
  case False
  have "\<not> list_ex (\<lambda>i. omap b i = None) (pegged b)"
    using book_coreD(7) [OF core] by (auto simp: pegs_ok_def list_ex_iff)
  moreover have "\<exists>b'. reprice_all (sort_key f (pegged b)) b = Some b' \<and> reprice_ok b b'
      \<and> (\<forall>i \<in> set (pegged b'). settled b' i) \<and> (\<forall>j. j \<notin> set (pegged b) \<longrightarrow> omap b' j = omap b j)"
    for f :: "OrderId \<Rightarrow> SeqNo"
    using reprice_all_ok [OF core, of "sort_key f (pegged b)"] book_coreD(6) [OF core]
    by (auto simp: reprice_ok_def)
  ultimately show ?thesis using False by (simp add: reprice_pegs_def)
qed

lemma reprice_pegs_ok:
  assumes "book_ok b"
  shows "\<exists>b'. reprice_pegs b = Some b' \<and> reprice_ok b b' \<and> book_ok b' \<and> (\<forall>i \<in> set (pegged b'). settled b' i)"
proof -
  obtain b' where b': "reprice_pegs b = Some b'" "reprice_ok b b'" "\<forall>i \<in> set (pegged b'). settled b' i"
    using reprice_pegs_core [of b] assms unfolding book_ok_def by blast
  have "pools_ok b'"
    using assms b'(2) waiting_pools_eq [of b b'] by (simp add: reprice_ok_def book_ok_def pools_ok_def pools_eq_def)
  with b' assms show ?thesis by (simp add: book_ok_def reprice_ok_def)
qed

end
