(* ===== verification/Auction.thy ===== *)
theory Auction
  imports Pegs "HOL-Library.Product_Lexorder"
begin

unbundle bit_operations_syntax

section \<open>The opening and closing cross (core/order\_book.cc: cross\_auction)\<close>

text \<open>
  Auction orders wait in a queue until the cross: one clearing price is chosen, every
  eligible order trades at it in market, price, arrival priority, the limit-on-open and
  limit-on-close remainders enter the book, the rest is dropped. The source's vectors of
  pointers into the queue are lists of indices into it, so that the fills through the
  pointers are visible in the queue.
\<close>

definition IsOpeningAuction :: "32 word \<Rightarrow> bool" where
  "IsOpeningAuction fl \<longleftrightarrow> HasFlag fl kMoo \<or> HasFlag fl kLoo \<or> HasFlag fl kOpg"

definition IsClosingAuction :: "32 word \<Rightarrow> bool" where
  "IsClosingAuction fl \<longleftrightarrow> HasFlag fl kMoc \<or> HasFlag fl kLoc"

definition kAuctionMask :: "32 word" where
  "kAuctionMask = flag_bit kMoo OR flag_bit kLoo OR flag_bit kMoc OR flag_bit kLoc OR flag_bit kOpg"

definition is_market :: "Order \<Rightarrow> bool" where
  "is_market order \<longleftrightarrow> otype order = Market"

definition buy_ok :: "Ticks \<Rightarrow> Order \<Rightarrow> bool" where
  "buy_ok p order \<longleftrightarrow> is_market order \<or> price order \<ge> p"

definition sell_ok :: "Ticks \<Rightarrow> Order \<Rightarrow> bool" where
  "sell_ok p order \<longleftrightarrow> is_market order \<or> price order \<le> p"

definition on_side :: "Side \<Rightarrow> Order list \<Rightarrow> nat list" where
  "on_side s queue = filter (\<lambda>i. side (queue ! i) = s) [0..<length queue]"

definition demand_at :: "Order list \<Rightarrow> Ticks \<Rightarrow> Quantity" where
  "demand_at queue p =
     (\<Sum>i\<leftarrow>on_side Buy queue. if buy_ok p (queue ! i) then leaves (queue ! i) else 0)"

definition supply_at :: "Order list \<Rightarrow> Ticks \<Rightarrow> Quantity" where
  "supply_at queue p =
     (\<Sum>i\<leftarrow>on_side Sell queue. if sell_ok p (queue ! i) then leaves (queue ! i) else 0)"

definition candidates :: "Order list \<Rightarrow> Ticks list" where
  "candidates queue = sort (remdups (map price (filter (\<lambda>x. \<not> is_market x) queue)))"

definition consider_price :: "Order list \<Rightarrow> Book \<Rightarrow> Ticks \<Rightarrow> (Ticks \<times> Quantity \<times> Quantity) option
    \<Rightarrow> (Ticks \<times> Quantity \<times> Quantity) option" where
  "consider_price queue b p best =
     (let d = demand_at queue p; s = supply_at queue p; v = min d s
      in if v \<le> 0 then best
         else let imb = (if d > s then d - s else s - d)
              in case best of
                   None \<Rightarrow> Some (p, v, imb)
                 | Some (pstar, best_v, best_imb) \<Rightarrow>
                     if v > best_v \<or> (v = best_v \<and> imb < best_imb)
                        \<or> (v = best_v \<and> imb = best_imb \<and>
                            (if have_last b then \<bar>p - last_price b\<bar> < \<bar>pstar - last_price b\<bar> else p < pstar))
                     then Some (p, v, imb) else best)"

definition clearing :: "Order list \<Rightarrow> Book \<Rightarrow> (Ticks \<times> Quantity \<times> Quantity) option" where
  "clearing queue b =
     (if candidates queue = []
      then (if have_last b then consider_price queue b (last_price b) None else None)
      else fold (consider_price queue b) (candidates queue) None)"

definition buy_priority :: "Order list \<Rightarrow> nat list" where
  "buy_priority queue = sort_key (\<lambda>i. let x = queue ! i in (\<not> is_market x, - price x, seq x)) (on_side Buy queue)"

definition sell_priority :: "Order list \<Rightarrow> nat list" where
  "sell_priority queue = sort_key (\<lambda>i. let x = queue ! i in (\<not> is_market x, price x, seq x)) (on_side Sell queue)"

definition cross_trade :: "Order \<Rightarrow> Order \<Rightarrow> Ticks \<Rightarrow> Quantity \<Rightarrow> Trade" where
  "cross_trade x y p q = \<lparr>taker_id = oid x, maker_id = oid y, taker_side = Buy, t_price = p, t_qty = q\<rparr>"

definition cross_pair :: "Order \<Rightarrow> Order \<Rightarrow> Ticks \<Rightarrow> Quantity \<Rightarrow> Book \<Rightarrow> Book" where
  "cross_pair x y p q b =
     (let b1 = emit_trade (cross_trade x y p q) (if HasFlag (flags y) kHidden then 0 else q) b;
          b2 = apply_position (client_id x) Buy q b1
      in apply_position (client_id y) Sell q b2)"

function auction_fill :: "Ticks \<Rightarrow> nat list \<Rightarrow> nat list \<Rightarrow> Quantity \<Rightarrow> Order list \<Rightarrow> Book \<Rightarrow> Trade list
    \<Rightarrow> Order list \<times> Book \<times> Trade list" where
  "auction_fill p (bi # bs) (si # ss) remaining queue b ts =
     (let x = queue ! bi; y = queue ! si; q = min (min (leaves x) (leaves y)) remaining
      in if remaining > 0 \<and> buy_ok p x \<and> sell_ok p y
         then auction_fill p
                (if leaves x - q = 0 then bs else bi # bs) (if leaves y - q = 0 then ss else si # ss)
                (remaining - q) (queue[bi := take_fill q x, si := take_fill q y])
                (cross_pair x y p q b) (ts @ [cross_trade x y p q])
         else (queue, b, ts))"
| "auction_fill p [] ss remaining queue b ts = (queue, b, ts)"
| "auction_fill p (bi # bs) [] remaining queue b ts = (queue, b, ts)"
  by pat_completeness auto
termination
  by (relation "measure (\<lambda>(p, bs, ss, remaining, queue, b, ts).
        length bs + length ss + (if remaining > 0 then 1 else 0))")
    (auto simp: min_def split: if_splits)

fun auction_rest :: "Order list \<Rightarrow> Book \<Rightarrow> Trade list \<Rightarrow> (Book \<times> Trade list) option" where
  "auction_rest [] b ts = Some (b, ts)"
| "auction_rest (x # xs) b ts =
     (if leaves x > 0 \<and> (HasFlag (flags x) kLoo \<or> HasFlag (flags x) kLoc)
      then do {
        (_, b', ts') \<leftarrow> inject (x\<lparr>flags := flags x AND NOT kAuctionMask\<rparr>) b ts;
        auction_rest xs b' ts'
      }
      else auction_rest xs b ts)"

definition auction_queue :: "bool \<Rightarrow> Book \<Rightarrow> Order list" where
  "auction_queue opening b = (if opening then opening_auction b else closing_auction b)"

definition set_queue :: "bool \<Rightarrow> Order list \<Rightarrow> Book \<Rightarrow> Book" where
  "set_queue opening queue b =
     (if opening then b\<lparr>opening_auction := queue\<rparr> else b\<lparr>closing_auction := queue\<rparr>)"

definition cross_fill :: "Order list \<Rightarrow> Book \<Rightarrow> Order list \<times> Book \<times> Trade list" where
  "cross_fill queue b =
     (case clearing queue b of
        None \<Rightarrow> (queue, b, [])
      | Some (pstar, best_v, best_imb) \<Rightarrow>
          let (queue', b', ts) =
                auction_fill pstar (buy_priority queue) (sell_priority queue) best_v queue b []
          in (queue', b'\<lparr>last_price := pstar, have_last := True\<rparr>, ts))"

definition cross_auction :: "bool \<Rightarrow> Book \<Rightarrow> (Trade list \<times> Book) option" where
  "cross_auction opening b =
     (if auction_queue opening b = [] then Some ([], b)
      else do {
        let (queue, b1, ts1) = cross_fill (auction_queue opening b) b;
        (b2, ts2) \<leftarrow> auction_rest queue (set_queue opening queue b1) ts1;
        let b3 = set_queue opening [] b2;
        if ts2 = [] then Some (ts2, b3)
        else do {
          (b4, ts3) \<leftarrow> evaluate_stops b3 ts2;
          b5 \<leftarrow> reprice_pegs b4;
          Some (ts3, b5)
        }
      })"

subsection \<open>Demand and supply\<close>

lemma sum_on_side:
  "(\<Sum>i\<leftarrow>on_side s queue. f (queue ! i)) = (\<Sum>x\<leftarrow>filter (\<lambda>x. side x = s) queue. (f x :: int))"
proof -
  have "map (\<lambda>i. f (queue ! i)) (on_side s queue) =
      map f (filter (\<lambda>x. side x = s) (map ((!) queue) [0..<length queue]))"
    by (simp add: on_side_def filter_map o_def)
  then show ?thesis by (simp add: map_nth)
qed

lemma demand_alt:
  "demand_at queue p = (\<Sum>x\<leftarrow>filter (\<lambda>x. side x = Buy) queue. if buy_ok p x then leaves x else 0)"
  using sum_on_side [where f = "\<lambda>x. if buy_ok p x then leaves x else 0"] by (simp add: demand_at_def)

lemma supply_alt:
  "supply_at queue p = (\<Sum>x\<leftarrow>filter (\<lambda>x. side x = Sell) queue. if sell_ok p x then leaves x else 0)"
  using sum_on_side [where f = "\<lambda>x. if sell_ok p x then leaves x else 0"] by (simp add: supply_at_def)

definition live :: "Order list \<Rightarrow> bool" where
  "live queue \<longleftrightarrow> (\<forall>x \<in> set queue. 0 < leaves x)"

definition volume :: "Order list \<Rightarrow> Ticks \<Rightarrow> Quantity" where
  "volume queue p = min (demand_at queue p) (supply_at queue p)"

lemma demand_mono:
  assumes "live queue" "\<And>x. x \<in> set queue \<Longrightarrow> side x = Buy \<Longrightarrow> buy_ok q x \<Longrightarrow> buy_ok p x"
  shows "demand_at queue q \<le> demand_at queue p"
  unfolding demand_alt by (rule sum_list_mono) (use assms in \<open>auto simp: live_def\<close>)

lemma supply_mono:
  assumes "live queue" "\<And>x. x \<in> set queue \<Longrightarrow> side x = Sell \<Longrightarrow> sell_ok p x \<Longrightarrow> sell_ok q x"
  shows "supply_at queue p \<le> supply_at queue q"
  unfolding supply_alt by (rule sum_list_mono) (use assms in \<open>auto simp: live_def\<close>)

lemma set_candidates: "set (candidates queue) = price ` {x \<in> set queue. \<not> is_market x}"
  by (auto simp: candidates_def)

lemma sorted_candidates: "sorted_wrt (<) (candidates queue)"
  unfolding candidates_def by (simp add: strict_sorted_iff)

text \<open>Some candidate price does at least as well as any given price.\<close>

lemma candidate_dominates:
  assumes live: "live queue" and ne: "candidates queue \<noteq> []"
  shows "\<exists>c \<in> set (candidates queue). volume queue q \<le> volume queue c"
proof -
  let ?C = "set (candidates queue)"
  have fin: "finite ?C" "?C \<noteq> {}" using ne by auto
  have mem: "price x \<in> ?C" if "x \<in> set queue" "\<not> is_market x" for x using that by (auto simp: set_candidates)
  show ?thesis
  proof (cases "{c \<in> ?C. q \<le> c} = {}")
    case False
    define c where "c = Min {c \<in> ?C. q \<le> c}"
    have c: "c \<in> ?C" "q \<le> c" using Min_in [OF _ False] fin unfolding c_def by auto
    have least: "c \<le> d" if "d \<in> ?C" "q \<le> d" for d unfolding c_def using that fin by simp
    have "demand_at queue q \<le> demand_at queue c"
      by (rule demand_mono [OF live]) (use least mem in \<open>auto simp: buy_ok_def\<close>)
    moreover have "supply_at queue q \<le> supply_at queue c"
      by (rule supply_mono [OF live]) (use c in \<open>auto simp: sell_ok_def\<close>)
    ultimately show ?thesis using c(1) unfolding volume_def by (intro bexI [of _ c]) auto
  next
    case True
    define c where "c = Max ?C"
    have c: "c \<in> ?C" "\<And>d. d \<in> ?C \<Longrightarrow> d \<le> c" using fin unfolding c_def by auto
    have "c < q" using True c(1) by auto
    then have "demand_at queue q \<le> demand_at queue c"
      by (intro demand_mono [OF live]) (auto simp: buy_ok_def)
    moreover have "supply_at queue q \<le> supply_at queue c"
      by (rule supply_mono [OF live]) (use c mem in \<open>auto simp: sell_ok_def\<close>)
    ultimately show ?thesis using c(1) unfolding volume_def by (intro bexI [of _ c]) auto
  qed
qed

subsection \<open>The clearing price\<close>

definition imbalance :: "Order list \<Rightarrow> Ticks \<Rightarrow> Quantity" where
  "imbalance queue p = \<bar>demand_at queue p - supply_at queue p\<bar>"

text \<open>Largest volume, then smallest imbalance, then nearest to the last price, then lowest.\<close>

definition clearing_key :: "Order list \<Rightarrow> Book \<Rightarrow> Ticks \<Rightarrow> Quantity \<times> Quantity \<times> Ticks \<times> Ticks" where
  "clearing_key queue b p = (- volume queue p, imbalance queue p,
     if have_last b then \<bar>p - last_price b\<bar> else 0, p)"

lemma consider_price_alt:
  "consider_price queue b p best =
     (if volume queue p \<le> 0 then best
      else case best of None \<Rightarrow> Some (p, volume queue p, imbalance queue p)
         | Some (pstar, best_v, best_imb) \<Rightarrow>
             if volume queue p > best_v \<or> (volume queue p = best_v \<and> imbalance queue p < best_imb)
                \<or> (volume queue p = best_v \<and> imbalance queue p = best_imb \<and>
                    (if have_last b then \<bar>p - last_price b\<bar> < \<bar>pstar - last_price b\<bar> else p < pstar))
             then Some (p, volume queue p, imbalance queue p) else best)"
proof -
  have imb: "(if demand_at queue p > supply_at queue p then demand_at queue p - supply_at queue p
         else supply_at queue p - demand_at queue p) = imbalance queue p"
    by (simp add: imbalance_def)
  show ?thesis unfolding consider_price_def Let_def imb volume_def [symmetric] ..
qed

definition best_of :: "Order list \<Rightarrow> Book \<Rightarrow> Ticks set \<Rightarrow> (Ticks \<times> Quantity \<times> Quantity) option \<Rightarrow> bool" where
  "best_of queue b C best =
     (case best of
        None \<Rightarrow> \<forall>c \<in> C. volume queue c \<le> 0
      | Some (p, v, imb) \<Rightarrow> p \<in> C \<and> v = volume queue p \<and> 0 < v \<and> imb = imbalance queue p
          \<and> (\<forall>c \<in> C. 0 < volume queue c \<longrightarrow> clearing_key queue b p \<le> clearing_key queue b c))"

lemma best_of_consider:
  assumes best: "best_of queue b C best" and above: "\<forall>c \<in> C. c < p"
  shows "best_of queue b (insert p C) (consider_price queue b p best)"
proof (cases "volume queue p \<le> 0")
  case True
  with best show ?thesis by (auto simp: best_of_def consider_price_alt split: option.splits)
next
  case pos: False
  show ?thesis
  proof (cases best)
    case None
    with best pos show ?thesis by (auto simp: best_of_def consider_price_alt)
  next
    case (Some t)
    obtain r v imb where t: "t = (r, v, imb)" by (cases t)
    have r: "r \<in> C" "v = volume queue r" "0 < v" "imb = imbalance queue r"
      and least: "\<forall>c \<in> C. 0 < volume queue c \<longrightarrow> clearing_key queue b r \<le> clearing_key queue b c"
      using best by (simp_all add: best_of_def Some t)
    have rp: "r < p" using r(1) above by blast
    have step: "consider_price queue b p best =
        (if clearing_key queue b p < clearing_key queue b r then Some (p, volume queue p, imbalance queue p) else best)"
      using pos rp r by (auto simp: consider_price_alt Some t clearing_key_def)
    show ?thesis
    proof (cases "clearing_key queue b p < clearing_key queue b r")
      case True
      then have "\<forall>c \<in> C. 0 < volume queue c \<longrightarrow> clearing_key queue b p \<le> clearing_key queue b c"
        using least by (meson less_imp_le order_trans)
      with True pos show ?thesis by (simp add: step best_of_def)
    next
      case False
      then have "consider_price queue b p (Some (r, v, imb)) = Some (r, v, imb)"
        using step by (simp add: Some t)
      with False least r show ?thesis by (simp add: best_of_def Some t not_less)
    qed
  qed
qed

lemma best_of_fold:
  assumes "best_of queue b C best" "sorted_wrt (<) cs" "\<forall>c \<in> C. \<forall>d \<in> set cs. c < d"
  shows "best_of queue b (C \<union> set cs) (fold (consider_price queue b) cs best)"
  using assms
proof (induction cs arbitrary: C best)
  case (Cons c cs)
  have "best_of queue b (insert c C) (consider_price queue b c best)"
    by (rule best_of_consider) (use Cons.prems in auto)
  from Cons.IH [OF this] Cons.prems show ?case by simp
qed simp

lemma clearing_best:
  assumes "live queue"
  shows "best_of queue b (if candidates queue = [] then (if have_last b then {last_price b} else {})
     else set (candidates queue)) (clearing queue b)"
proof (cases "candidates queue = []")
  case True
  have "best_of queue b {} None" by (simp add: best_of_def)
  with best_of_consider [OF this, of "last_price b"] True show ?thesis by (simp add: clearing_def)
next
  case False
  with best_of_fold [of queue b "{}" None, OF _ sorted_candidates] show ?thesis
    by (simp add: clearing_def) (simp add: best_of_def)
qed

subsection \<open>Filling at the clearing price\<close>

definition eligible :: "(Order \<Rightarrow> bool) \<Rightarrow> Order list \<Rightarrow> nat list \<Rightarrow> Quantity" where
  "eligible P queue is = (\<Sum>i\<leftarrow>is. if P (queue ! i) then leaves (queue ! i) else 0)"

definition side_ready :: "(Order \<Rightarrow> bool) \<Rightarrow> Order list \<Rightarrow> nat list \<Rightarrow> bool" where
  "side_ready P queue is \<longleftrightarrow> distinct is \<and> (\<forall>i \<in> set is. i < length queue \<and> 0 < leaves (queue ! i))
     \<and> sorted_wrt (\<lambda>i j. P (queue ! j) \<longrightarrow> P (queue ! i)) is"

lemma eligible_Cons [simp]:
  "eligible P queue (i # is) = (if P (queue ! i) then leaves (queue ! i) else 0) + eligible P queue is"
  by (simp add: eligible_def)

lemma eligible_Nil [simp]: "eligible P queue [] = 0"
  by (simp add: eligible_def)

lemma eligible_cong: "(\<And>i. i \<in> set is \<Longrightarrow> queue' ! i = queue ! i) \<Longrightarrow> eligible P queue' is = eligible P queue is"
  unfolding eligible_def by (rule sum_list_cong_notin) simp

lemma side_ready_cong:
  assumes "side_ready P queue is" "length queue' = length queue" "\<And>i. i \<in> set is \<Longrightarrow> queue' ! i = queue ! i"
  shows "side_ready P queue' is"
proof -
  have "sorted_wrt (\<lambda>i j. P (queue' ! j) \<longrightarrow> P (queue' ! i)) is"
    using assms(1) by (rule_tac sorted_wrt_mono_rel [rotated]) (auto simp: side_ready_def assms(3))
  with assms show ?thesis by (simp add: side_ready_def)
qed

text \<open>With something left to execute, the head of a sorted side is eligible.\<close>

lemma head_eligible:
  assumes "side_ready P queue (i # is)" "0 < r" "r \<le> eligible P queue (i # is)"
  shows "P (queue ! i)"
proof (rule ccontr)
  assume "\<not> P (queue ! i)"
  then have none: "\<forall>j \<in> set is. \<not> P (queue ! j)" using assms(1) by (auto simp: side_ready_def)
  have "eligible P queue is = 0" unfolding eligible_def using none by (induction "is") auto
  with \<open>\<not> P (queue ! i)\<close> assms(2,3) show False by simp
qed

text \<open>One side after a fill of its head.\<close>

lemma side_after_fill:
  assumes ready: "side_ready P queue (i # is)" and P: "P (queue ! i)" "\<And>q x. P (take_fill q x) = P x"
    and q: "0 < q" "q \<le> leaves (queue ! i)"
    and queue': "length queue' = length queue" "queue' ! i = take_fill q (queue ! i)"
      "\<And>j. j \<in> set is \<Longrightarrow> queue' ! j = queue ! j"
    and is': "is' = (if leaves (queue ! i) - q = 0 then is else i # is)"
  shows "side_ready P queue' is'" "eligible P queue' is' = eligible P queue (i # is) - q"
    "set is' \<subseteq> set (i # is)"
proof -
  have tail: "side_ready P queue is" "i < length queue" using ready by (simp_all add: side_ready_def)
  have tail': "side_ready P queue' is" "eligible P queue' is = eligible P queue is"
    using side_ready_cong [OF tail(1) queue'(1,3)] eligible_cong [of "is" queue' queue P] queue'(3) by simp_all
  have "side_ready P queue' (i # is)" if "q < leaves (queue ! i)"
    using tail' tail(2) ready that queue' P by (auto simp: side_ready_def)
  with tail' q P queue'(2) show "side_ready P queue' is'" "eligible P queue' is' = eligible P queue (i # is) - q"
    "set is' \<subseteq> set (i # is)"
    by (auto simp: is')
qed

lemma ok_take_fill [simp]: "buy_ok p (take_fill q x) = buy_ok p x" "sell_ok p (take_fill q x) = sell_ok p x"
  by (simp_all add: buy_ok_def sell_ok_def is_market_def)

definition partly_filled :: "Order list \<Rightarrow> Order list \<Rightarrow> bool" where
  "partly_filled queue queue' \<longleftrightarrow> list_all2 (\<lambda>x y. \<exists>q. 0 \<le> q \<and> q \<le> leaves x \<and> y = take_fill q x) queue queue'"

lemma partly_filled_refl: "\<forall>x \<in> set queue. 0 \<le> leaves x \<Longrightarrow> partly_filled queue queue"
  unfolding partly_filled_def by (auto simp: list_all2_same intro!: exI [of _ 0])

lemma partly_filled_trans: "partly_filled a b \<Longrightarrow> partly_filled b c \<Longrightarrow> partly_filled a c"
  unfolding partly_filled_def
proof (rule list_all2_trans)
  fix x y z :: Order
  assume "\<exists>q. 0 \<le> q \<and> q \<le> leaves x \<and> y = take_fill q x" "\<exists>q. 0 \<le> q \<and> q \<le> leaves y \<and> z = take_fill q y"
  then obtain q r where "0 \<le> q" "0 \<le> r" "q \<le> leaves x" "r \<le> leaves x - q" "z = take_fill (q + r) x" by auto
  then show "\<exists>q. 0 \<le> q \<and> q \<le> leaves x \<and> z = take_fill q x" by (intro exI [of _ "q + r"]) simp
qed

lemma partly_filled_update:
  assumes "i < length queue" "0 \<le> q" "q \<le> leaves (queue ! i)" "\<forall>x \<in> set queue. 0 \<le> leaves x"
  shows "partly_filled queue (queue[i := take_fill q (queue ! i)])"
  unfolding partly_filled_def list_all2_conv_all_nth
proof (intro conjI allI impI)
  fix j assume j: "j < length queue"
  show "\<exists>r. 0 \<le> r \<and> r \<le> leaves (queue ! j) \<and> queue[i := take_fill q (queue ! i)] ! j = take_fill r (queue ! j)"
  proof (cases "j = i")
    case True
    with assms show ?thesis by (intro exI [of _ q]) simp
  next
    case False
    with assms j show ?thesis by (intro exI [of _ 0]) simp
  qed
qed simp

text \<open>What the cross does to the book: trades in the log and net positions, nothing else.\<close>

definition cross_frame :: "Book \<Rightarrow> Book \<Rightarrow> bool" where
  "cross_frame b b' \<longleftrightarrow> ladder b' = ladder b \<and> orders b' = orders b \<and> pegged b' = pegged b
     \<and> pools_eq b b' \<and> evolves b b' \<and> have_last b' = have_last b \<and> last_price b' = last_price b"

lemma cross_frame_refl [simp]: "cross_frame b b"
  by (simp add: cross_frame_def)

lemma cross_frame_trans: "cross_frame a b \<Longrightarrow> cross_frame b c \<Longrightarrow> cross_frame a c"
  unfolding cross_frame_def
  by (elim conjE, intro conjI) (simp_all add: evolves_trans [of a b c] pools_eq_trans [of a b c])

lemma cross_pair_frame:
  assumes "omap b (oid y) = None"
  shows "cross_frame b (cross_pair x y p q b)"
proof -
  have "evolves b (cross_pair x y p q b)"
    by (rule evolves_step [where es = "[trade_event (book_symbol b) (cross_trade x y p q)
          (if HasFlag (flags y) kHidden then 0 else q)]"])
      (use assms in \<open>simp_all add: cross_pair_def Let_def cross_trade_def table_step.outside_trade reserved_exact_def\<close>)
  then show ?thesis by (simp add: cross_frame_def cross_pair_def Let_def pools_eq_def)
qed

definition cross_trades_ok :: "Ticks \<Rightarrow> Order list \<Rightarrow> Trade list \<Rightarrow> bool" where
  "cross_trades_ok p queue new \<longleftrightarrow> (\<forall>t \<in> set new. 0 < t_qty t \<and> t_price t = p \<and> taker_side t = Buy
     \<and> (\<exists>x \<in> set queue. side x = Buy \<and> oid x = taker_id t \<and> buy_ok p x)
     \<and> (\<exists>y \<in> set queue. side y = Sell \<and> oid y = maker_id t \<and> sell_ok p y))"

lemma partly_filled_mem:
  assumes "partly_filled queue queue'" "y \<in> set queue'"
  obtains x q where "x \<in> set queue" "0 \<le> q" "q \<le> leaves x" "y = take_fill q x"
proof -
  from assms(2) obtain j where j: "j < length queue'" "y = queue' ! j" by (auto simp: in_set_conv_nth)
  with assms(1) have "j < length queue" "\<exists>q. 0 \<le> q \<and> q \<le> leaves (queue ! j) \<and> y = take_fill q (queue ! j)"
    by (simp_all add: partly_filled_def list_all2_conv_all_nth)
  with that [of "queue ! j"] show thesis by auto
qed

lemma cross_trades_ok_frame:
  assumes pf: "partly_filled queue queue'" and ok: "cross_trades_ok p queue' new"
  shows "cross_trades_ok p queue new"
  unfolding cross_trades_ok_def
proof (intro ballI conjI)
  fix t assume t: "t \<in> set new"
  show "0 < t_qty t" "t_price t = p" "taker_side t = Buy" using ok t by (simp_all add: cross_trades_ok_def)
  from ok t obtain x y where x: "x \<in> set queue'" "side x = Buy" "oid x = taker_id t" "buy_ok p x"
    and y: "y \<in> set queue'" "side y = Sell" "oid y = maker_id t" "sell_ok p y"
    unfolding cross_trades_ok_def by blast
  obtain x0 q0 where x0: "x0 \<in> set queue" "x = take_fill q0 x0" by (rule partly_filled_mem [OF pf x(1)])
  with x(2-4) show "\<exists>x \<in> set queue. side x = Buy \<and> oid x = taker_id t \<and> buy_ok p x"
    by (intro bexI [of _ x0]) simp_all
  obtain y0 r0 where y0: "y0 \<in> set queue" "y = take_fill r0 y0" by (rule partly_filled_mem [OF pf y(1)])
  with y(2-4) show "\<exists>y \<in> set queue. side y = Sell \<and> oid y = maker_id t \<and> sell_ok p y"
    by (intro bexI [of _ y0]) simp_all
qed

lemma partly_filled_absent:
  assumes pf: "partly_filled queue queue'" and "\<forall>x \<in> set queue. 0 \<le> leaves x \<and> m (oid x) = None"
  shows "\<forall>x \<in> set queue'. 0 \<le> leaves x \<and> m (oid x) = None"
proof
  fix y assume "y \<in> set queue'"
  then obtain x q where "x \<in> set queue" "q \<le> leaves x" "y = take_fill q x" by (rule partly_filled_mem [OF pf])
  with assms(2) show "0 \<le> leaves y \<and> m (oid y) = None" by simp
qed

lemma auction_fill_ok:
  assumes "side_ready (buy_ok p) queue bs" "side_ready (sell_ok p) queue ss" "0 \<le> r"
    "r \<le> eligible (buy_ok p) queue bs" "r \<le> eligible (sell_ok p) queue ss"
    "\<forall>i \<in> set bs. side (queue ! i) = Buy" "\<forall>i \<in> set ss. side (queue ! i) = Sell"
    "\<forall>x \<in> set queue. 0 \<le> leaves x \<and> omap b (oid x) = None"
  shows "\<exists>queue' b' new. auction_fill p bs ss r queue b ts = (queue', b', ts @ new) \<and> executed new = r
    \<and> cross_trades_ok p queue new \<and> partly_filled queue queue' \<and> cross_frame b b'"
  using assms
proof (induction p bs ss r queue b ts rule: auction_fill.induct)
  case (2 p ss r queue b ts)
  then show ?case by (auto simp: cross_trades_ok_def intro!: exI [of _ "[]"] partly_filled_refl)
next
  case (3 p bi bs r queue b ts)
  then show ?case by (auto simp: cross_trades_ok_def intro!: exI [of _ "[]"] partly_filled_refl)
next
  case (1 p bi bs si ss r queue b ts)
  note prems = "1.prems"
  show ?case
  proof (cases "r = 0")
    case True
    with prems(8) show ?thesis by (auto simp: cross_trades_ok_def intro!: exI [of _ "[]"] partly_filled_refl)
  next
    case False
    with prems(3) have r: "0 < r" by simp
    define x y where xy: "x = queue ! bi" "y = queue ! si"
    define q where q: "q = min (min (leaves x) (leaves y)) r"
    let ?queue = "queue[bi := take_fill q x, si := take_fill q y]"
    let ?bs = "if leaves x - q = 0 then bs else bi # bs" and ?ss = "if leaves y - q = 0 then ss else si # ss"
    let ?b = "cross_pair x y p q b" and ?t = "cross_trade x y p q"
    have ok: "buy_ok p x" "sell_ok p y"
      using head_eligible [OF prems(1) r prems(4)] head_eligible [OF prems(2) r prems(5)] by (simp_all add: xy)
    have rng: "bi < length queue" "si < length queue" "0 < leaves x" "0 < leaves y"
      using prems(1,2) by (simp_all add: side_ready_def xy)
    then have q': "0 < q" "q \<le> leaves x" "q \<le> leaves y" "q \<le> r" using r by (simp_all add: q)
    have sides: "side x = Buy" "side y = Sell" "bi \<noteq> si" using prems(6,7) by (auto simp: xy)
    have other: "i \<in> set bs \<Longrightarrow> ?queue ! i = queue ! i" "i \<in> set ss \<Longrightarrow> ?queue ! i = queue ! i" for i
    proof -
      have ne: "bi \<notin> set bs" "si \<notin> set ss" using prems(1,2) by (simp_all add: side_ready_def)
      have sx: "side (queue ! bi) = Buy" "side (queue ! si) = Sell" using sides by (simp_all add: xy)
      have "i \<noteq> bi \<and> i \<noteq> si" if "i \<in> set bs" using that ne prems(6) sx by auto
      then show "?queue ! i = queue ! i" if "i \<in> set bs" using that by simp
      have "i \<noteq> bi \<and> i \<noteq> si" if "i \<in> set ss" using that ne prems(7) sx by auto
      then show "?queue ! i = queue ! i" if "i \<in> set ss" using that by simp
    qed
    have heads: "?queue ! bi = take_fill q (queue ! bi)" "?queue ! si = take_fill q (queue ! si)"
      using rng sides(3) by (simp_all add: xy)
    note B = side_after_fill [OF prems(1) ok(1) [unfolded xy] _ q'(1) q'(2) [unfolded xy] _ heads(1) other(1) refl, simplified]
    note S = side_after_fill [OF prems(2) ok(2) [unfolded xy] _ q'(1) q'(3) [unfolded xy] _ heads(2) other(2) refl, simplified]
    have nn: "\<forall>z \<in> set queue. 0 \<le> leaves z" using prems(8) by blast
    have pf: "partly_filled queue ?queue"
    proof (rule partly_filled_trans [OF partly_filled_update [OF rng(1) _ _ nn]])
      have nn': "\<forall>z \<in> set (queue[bi := take_fill q x]). 0 \<le> leaves z"
        using nn q'(2) set_update_subset_insert [of queue bi "take_fill q x"] by auto
      show "partly_filled (queue[bi := take_fill q (queue ! bi)]) ?queue"
        using partly_filled_update [of si "queue[bi := take_fill q x]" q] rng q'(1,3) sides(3) nn' by (simp add: xy)
    qed (use q'(1,2) in \<open>simp_all add: xy\<close>)
    have absent: "omap b (oid y) = None" using prems(8) rng by (simp add: xy)
    note fr = cross_pair_frame [OF absent, of x p q]
    have "\<exists>queue' b' new. auction_fill p ?bs ?ss (r - q) ?queue ?b (ts @ [?t]) = (queue', b', (ts @ [?t]) @ new)
        \<and> executed new = r - q \<and> cross_trades_ok p ?queue new \<and> partly_filled ?queue queue' \<and> cross_frame ?b b'"
    proof (rule "1.IH" [OF xy(1) xy(2) q])
      show "0 < r \<and> buy_ok p x \<and> sell_ok p y" using r ok by simp
      show "side_ready (buy_ok p) ?queue ?bs" "side_ready (sell_ok p) ?queue ?ss" "0 \<le> r - q"
        using B(1) S(1) q'(4) by (simp_all add: xy)
      show "r - q \<le> eligible (buy_ok p) ?queue ?bs" "r - q \<le> eligible (sell_ok p) ?queue ?ss"
        using B(2) S(2) prems(4,5) by (simp_all add: xy)
      show "\<forall>i \<in> set ?bs. side (?queue ! i) = Buy" "\<forall>i \<in> set ?ss. side (?queue ! i) = Sell"
        using prems(6,7) other heads sides by (auto simp: xy)
      show "\<forall>z \<in> set ?queue. 0 \<le> leaves z \<and> omap ?b (oid z) = None"
        using partly_filled_absent [OF pf, of "omap b"] prems(8) fr by (simp add: cross_frame_def)
    qed
    then obtain queue' b' new where rec: "auction_fill p ?bs ?ss (r - q) ?queue ?b (ts @ [?t]) = (queue', b', (ts @ [?t]) @ new)"
      "executed new = r - q" "cross_trades_ok p ?queue new" "partly_filled ?queue queue'" "cross_frame ?b b'" by blast
    have "auction_fill p (bi # bs) (si # ss) r queue b ts = (queue', b', ts @ (?t # new))"
      using rec(1) r ok by (simp add: Let_def xy [symmetric] q [symmetric])
    moreover have "cross_trades_ok p queue (?t # new)"
      using cross_trades_ok_frame [OF pf rec(3)] ok sides rng q'(1)
      by (auto simp: cross_trades_ok_def cross_trade_def xy)
    ultimately show ?thesis
      using rec partly_filled_trans [OF pf rec(4)] cross_frame_trans [OF fr rec(5)]
      by (intro exI [of _ queue'] exI [of _ b'] exI [of _ "?t # new"]) (simp add: cross_trade_def)
  qed
qed

subsection \<open>The executions of the cross\<close>

lemma eligible_sort_key: "eligible P queue (sort_key k is) = eligible P queue is"
  unfolding eligible_def sum_mset_sum_list [symmetric] mset_map by simp

lemma set_on_side: "set (on_side s queue) = {i. i < length queue \<and> side (queue ! i) = s}"
  by (auto simp: on_side_def)

lemma buy_side_ready:
  assumes "live queue"
  shows "side_ready (buy_ok p) queue (buy_priority queue)" "eligible (buy_ok p) queue (buy_priority queue) = demand_at queue p"
    "\<forall>i \<in> set (buy_priority queue). side (queue ! i) = Buy"
proof -
  let ?k = "\<lambda>i. let x = queue ! i in (\<not> is_market x, - price x, seq x)"
  have "sorted_wrt (\<lambda>i j. ?k i \<le> ?k j) (buy_priority queue)"
    using sorted_sort_key [of ?k "on_side Buy queue"] unfolding buy_priority_def sorted_map .
  then have "sorted_wrt (\<lambda>i j. buy_ok p (queue ! j) \<longrightarrow> buy_ok p (queue ! i)) (buy_priority queue)"
    by (rule sorted_wrt_mono_rel [rotated]) (auto simp: buy_ok_def Let_def)
  moreover have "distinct (buy_priority queue)" by (simp add: buy_priority_def on_side_def)
  ultimately show "side_ready (buy_ok p) queue (buy_priority queue)"
    using assms by (simp add: side_ready_def buy_priority_def set_on_side live_def)
  show "eligible (buy_ok p) queue (buy_priority queue) = demand_at queue p"
    unfolding buy_priority_def eligible_sort_key by (simp add: eligible_def demand_at_def)
  show "\<forall>i \<in> set (buy_priority queue). side (queue ! i) = Buy" by (simp add: buy_priority_def set_on_side)
qed

lemma sell_side_ready:
  assumes "live queue"
  shows "side_ready (sell_ok p) queue (sell_priority queue)" "eligible (sell_ok p) queue (sell_priority queue) = supply_at queue p"
    "\<forall>i \<in> set (sell_priority queue). side (queue ! i) = Sell"
proof -
  let ?k = "\<lambda>i. let x = queue ! i in (\<not> is_market x, price x, seq x)"
  have "sorted_wrt (\<lambda>i j. ?k i \<le> ?k j) (sell_priority queue)"
    using sorted_sort_key [of ?k "on_side Sell queue"] unfolding sell_priority_def sorted_map .
  then have "sorted_wrt (\<lambda>i j. sell_ok p (queue ! j) \<longrightarrow> sell_ok p (queue ! i)) (sell_priority queue)"
    by (rule sorted_wrt_mono_rel [rotated]) (auto simp: sell_ok_def Let_def)
  moreover have "distinct (sell_priority queue)" by (simp add: sell_priority_def on_side_def)
  ultimately show "side_ready (sell_ok p) queue (sell_priority queue)"
    using assms by (simp add: side_ready_def sell_priority_def set_on_side live_def)
  show "eligible (sell_ok p) queue (sell_priority queue) = supply_at queue p"
    unfolding sell_priority_def eligible_sort_key by (simp add: eligible_def supply_at_def)
  show "\<forall>i \<in> set (sell_priority queue). side (queue ! i) = Sell" by (simp add: sell_priority_def set_on_side)
qed

text \<open>The executions add up to the clearing volume, all at the clearing price.\<close>

definition cross_executed :: "Order list \<Rightarrow> Book \<Rightarrow> Trade list \<Rightarrow> bool" where
  "cross_executed queue b new \<longleftrightarrow>
     (case clearing queue b of
        None \<Rightarrow> new = []
      | Some (p, v, imb) \<Rightarrow> executed new = v \<and> cross_trades_ok p queue new)"

lemma cross_executed_positive: "cross_executed queue b new \<Longrightarrow> positive new"
  by (auto simp: cross_executed_def positive_def cross_trades_ok_def split: option.splits)

lemma cross_fill_ok:
  assumes live: "live queue" and absent: "\<forall>x \<in> set queue. omap b (oid x) = None"
  shows "\<exists>queue' b' new. cross_fill queue b = (queue', b', new) \<and> partly_filled queue queue'
    \<and> cross_executed queue b new \<and> ladder b' = ladder b \<and> orders b' = orders b \<and> pegged b' = pegged b
    \<and> pools_eq b b' \<and> evolves b b'"
proof (cases "clearing queue b")
  case None
  have "partly_filled queue queue" by (rule partly_filled_refl) (use live in \<open>auto simp: live_def\<close>)
  with None show ?thesis by (simp add: cross_fill_def cross_executed_def)
next
  case (Some t)
  obtain p v imb where t: "t = (p, v, imb)" by (cases t)
  have v: "0 < v" "v = volume queue p"
    using clearing_best [OF live, of b] by (simp_all add: Some t best_of_def)
  note B = buy_side_ready(1,2) [OF live, of p] and S = sell_side_ready(1,2) [OF live, of p]
  have "v \<le> eligible (buy_ok p) queue (buy_priority queue)" "v \<le> eligible (sell_ok p) queue (sell_priority queue)"
    using v(2) B(2) S(2) by (simp_all add: volume_def)
  moreover have "\<forall>x \<in> set queue. 0 \<le> leaves x \<and> omap b (oid x) = None"
    using live absent by (simp add: live_def less_imp_le)
  ultimately obtain queue' b1 new
    where f: "auction_fill p (buy_priority queue) (sell_priority queue) v queue b [] = (queue', b1, new)"
      "executed new = v" "cross_trades_ok p queue new" "partly_filled queue queue'" "cross_frame b b1"
    using auction_fill_ok [OF B(1) S(1) _ _ _ buy_side_ready(3) [OF live] sell_side_ready(3) [OF live], of v b "[]"] v(1)
    by auto
  let ?b = "b1\<lparr>last_price := p, have_last := True\<rparr>"
  have "evolves b1 ?b" by (rule evolves_silent) simp_all
  then have "evolves b ?b" using f(5) evolves_trans by (auto simp: cross_frame_def)
  moreover have "pools_eq b ?b" using f(5) by (simp add: cross_frame_def pools_eq_def)
  moreover have "cross_fill queue b = (queue', ?b, new)" by (simp add: cross_fill_def Some t f(1))
  ultimately show ?thesis using f by (simp add: cross_executed_def Some t cross_frame_def)
qed

subsection \<open>The remainders enter the book\<close>

lemma HasFlag_unmask:
  "f \<notin> {kMoo, kLoo, kMoc, kLoc, kOpg} \<Longrightarrow> HasFlag (fl AND NOT kAuctionMask) f = HasFlag fl f"
  by (cases f) (simp_all add: HasFlag_bit kAuctionMask_def flag_bit_def bit_and_iff bit_not_iff bit_or_iff
      push_bit_eq_mult bit_exp_iff)

lemma admissible_unmask: "admissible (x\<lparr>flags := flags x AND NOT kAuctionMask\<rparr>) = admissible x"
  by (simp add: admissible_def HasFlag_unmask)

lemma auction_rest_ok:
  assumes "book_core b" "caches_ok b" "distinct (map oid xs)"
    "\<forall>x \<in> set xs. 0 \<le> leaves x \<and> admissible x \<and> omap b (oid x) = None"
  shows "\<exists>b' new. auction_rest xs b ts = Some (b', ts @ new) \<and> book_core b' \<and> caches_ok b' \<and> evolves b b'
    \<and> pools_eq b b' \<and> positive new \<and> set (map fst (orders b')) \<subseteq> set (map fst (orders b)) \<union> oid ` set xs"
  using assms
proof (induction xs arbitrary: b ts)
  case Nil
  then show ?case by (auto intro!: exI [of _ "[]"])
next
  case (Cons x xs)
  show ?case
  proof (cases "leaves x > 0 \<and> (HasFlag (flags x) kLoo \<or> HasFlag (flags x) kLoc)")
    case False
    from Cons.IH [OF Cons.prems(1,2), of ts] Cons.prems(3,4) obtain b' new
      where r: "auction_rest xs b ts = Some (b', ts @ new)" "book_core b'" "caches_ok b'" "evolves b b'"
        "pools_eq b b'" "positive new" "set (map fst (orders b')) \<subseteq> set (map fst (orders b)) \<union> oid ` set xs"
      by auto
    have "auction_rest (x # xs) b ts = auction_rest xs b ts" using False by auto
    with r show ?thesis by (intro exI [of _ b'] exI [of _ new]) auto
  next
    case True
    let ?x = "x\<lparr>flags := flags x AND NOT kAuctionMask\<rparr>"
    have x: "omap b (oid ?x) = None" "0 < leaves ?x" "admissible ?x"
      using Cons.prems(4) True by (simp_all add: admissible_unmask)
    from inject_core [OF Cons.prems(1,2) x, of ts] obtain x' b1 new1
      where i: "inject ?x b ts = Some (x', b1, ts @ new1)" "book_core b1" "caches_ok b1" "evolves b b1"
        "pools_eq b b1" "fills (acceptable ?x) ?x new1 x'"
        "set (map fst (orders b1)) \<subseteq> insert (oid ?x) (set (map fst (orders b)))"
      by (elim exE conjE) (rule that; assumption)
    have absent: "\<forall>y \<in> set xs. 0 \<le> leaves y \<and> admissible y \<and> omap b1 (oid y) = None"
    proof
      fix y assume y: "y \<in> set xs"
      then have "oid y \<in> oid ` set xs" "omap b (oid y) = None" using Cons.prems(4) by simp_all
      moreover from this(1) Cons.prems(3) have "oid y \<noteq> oid x" by auto
      ultimately have "oid y \<notin> insert (oid ?x) (set (map fst (orders b)))" by (simp add: map_of_eq_None_iff)
      then have "oid y \<notin> set (map fst (orders b1))" using i(7) by (rule contra_subsetD [rotated])
      with y Cons.prems(4) show "0 \<le> leaves y \<and> admissible y \<and> omap b1 (oid y) = None"
        by (simp add: map_of_eq_None_iff)
    qed
    from Cons.IH [OF i(2,3) _ absent, of "ts @ new1"] Cons.prems(3) obtain b2 new2
      where r: "auction_rest xs b1 (ts @ new1) = Some (b2, (ts @ new1) @ new2)" "book_core b2" "caches_ok b2"
        "evolves b1 b2" "pools_eq b1 b2" "positive new2"
        "set (map fst (orders b2)) \<subseteq> set (map fst (orders b1)) \<union> oid ` set xs"
      by auto
    have "auction_rest (x # xs) b ts = Some (b2, ts @ new1 @ new2)"
      using True i(1) r(1) by (simp del: append_assoc add: append_assoc [symmetric])
    moreover have "evolves b b2" "pools_eq b b2"
      using evolves_trans [OF i(4) r(4)] pools_eq_trans [OF i(5) r(5)] by simp_all
    moreover have "set (map fst (orders b2)) \<subseteq> set (map fst (orders b)) \<union> oid ` set (x # xs)"
    proof -
      have "set (map fst (orders b1)) \<union> oid ` set xs \<subseteq> set (map fst (orders b)) \<union> oid ` set (x # xs)"
        using i(7) by (rule subset_trans [OF Un_mono [OF _ subset_refl]]) auto
      with r(7) show ?thesis by (rule subset_trans)
    qed
    ultimately show ?thesis
      using r(2,3,6) fills_positive [OF i(6)] by (intro exI [of _ b2] exI [of _ "new1 @ new2"]) simp
  qed
qed

subsection \<open>The whole cross\<close>

lemma pools_ok_move:
  assumes ok: "pools_ok b" and stops: "stops b' = stops b" and dist: "distinct (map fst (orders b'))"
    and keys: "set (map fst (orders b')) \<subseteq> set (map fst (orders b)) \<union> oid ` set q"
    and held: "mset (held_orders b) = mset q + mset (held_orders b')"
  shows "pools_ok b'"
proof -
  have sets: "K' \<inter> (S \<union> H) = {}" "S \<inter> H = {}" if "K \<inter> (S \<union> (Q \<union> H)) = {}" "S \<inter> (Q \<union> H) = {}" "Q \<inter> H = {}" "K' \<subseteq> K \<union> Q"
    for K K' S Q H :: "OrderId set" using that by blast+
  have perm: "mset (map oid (held_orders b)) = mset (map oid (q @ held_orders b'))" using held by simp
  have set_held: "set (held_orders b) = set q \<union> set (held_orders b')"
    using arg_cong [OF held, of set_mset] by simp
  have P: "\<forall>kv \<in> set (stops b). stop_entry_ok kv" "\<forall>x \<in> set (held_orders b). 0 < leaves x \<and> admissible x"
    "distinct (map fst (stops b))" "distinct (map oid (held_orders b))"
    "fst ` set (orders b) \<inter> (fst ` set (stops b) \<union> oid ` set (held_orders b)) = {}"
    "fst ` set (stops b) \<inter> oid ` set (held_orders b) = {}"
    using ok by (simp_all add: pools_ok_alt)
  have "distinct (map oid (q @ held_orders b'))" using P(4) mset_eq_imp_distinct_iff [OF perm] by blast
  then have d: "distinct (map oid (held_orders b'))" "oid ` set q \<inter> oid ` set (held_orders b') = {}" by simp_all
  note P56 = P(5,6) [unfolded set_held image_Un]
  have "fst ` set (orders b') \<subseteq> fst ` set (orders b) \<union> oid ` set q" using keys by simp
  note s = sets [OF P56 d(2) this]
  from P(1-3) d(1) s dist show ?thesis by (simp add: pools_ok_alt stops set_held)
qed

lemma set_queue_frame [simp]:
  "ladder (set_queue o' q b) = ladder b" "orders (set_queue o' q b) = orders b" "pegged (set_queue o' q b) = pegged b"
  "stops (set_queue o' q b) = stops b" "groups (set_queue o' q b) = groups b"
  "order_group (set_queue o' q b) = order_group b" "mem_levels (set_queue o' q b) = mem_levels b"
  "stp (set_queue o' q b) = stp b" "book_symbol (set_queue o' q b) = book_symbol b"
  "event_sink (set_queue o' q b) = event_sink b" "next_seq (set_queue o' q b) = next_seq b"
  "events (set_queue o' q b) = events b" "position_of (set_queue o' q b) = position_of b"
  "pending_orders (set_queue o' q b) = pending_orders b" "lvl (set_queue o' q b) = lvl b"
  by (simp_all add: set_queue_def position_of_def pending_orders_def fun_eq_iff)

lemma auction_queue_set [simp]:
  "auction_queue o1 (set_queue o2 q b) = (if o1 = o2 then q else auction_queue o1 b)"
  by (auto simp: auction_queue_def set_queue_def)

lemma set_queue_evolves: "evolves b (set_queue o' q b)"
  by (rule evolves_silent) simp_all

lemma mset_held_orders:
  "mset (held_orders b) = mset (auction_queue o' b) + (mset (auction_queue (\<not> o') b) + mset (pending_orders b))"
  by (cases o') (simp_all add: held_orders_def auction_queue_def)

lemma auction_queue_eq:
  "opening_auction b' = opening_auction b \<Longrightarrow> closing_auction b' = closing_auction b \<Longrightarrow> auction_queue o' b' = auction_queue o' b"
  by (simp add: auction_queue_def)

lemma partly_filled_oids: "partly_filled queue queue' \<Longrightarrow> map oid queue' = map oid queue"
  unfolding partly_filled_def by (induction rule: list_all2_induct) auto

text \<open>Fills and remainders: a sound book again, with the queue's ids moved into it.\<close>

lemma cross_settle_ok:
  assumes ok: "book_ok b" and fill: "cross_fill (auction_queue o' b) b = (queue, b1, ts)"
  shows "\<exists>b2 new. auction_rest queue (set_queue o' queue b1) ts = Some (b2, ts @ new)
    \<and> book_ok (set_queue o' [] b2) \<and> evolves b (set_queue o' [] b2) \<and> positive new \<and> cross_executed (auction_queue o' b) b ts
    \<and> stops b2 = stops b \<and> groups b2 = groups b \<and> order_group b2 = order_group b
    \<and> auction_queue (\<not> o') b2 = auction_queue (\<not> o') b \<and> all_ids (set_queue o' [] b2) \<subseteq> all_ids b"
proof -
  let ?q = "auction_queue o' b"
  have po: "pools_ok b" using ok by (simp add: book_ok_def)
  have sub: "set ?q \<subseteq> set (held_orders b)" using arg_cong [OF mset_held_orders [of b o'], of set_mset] by auto
  have held: "\<forall>x \<in> set (held_orders b). 0 < leaves x \<and> admissible x"
    "fst ` set (orders b) \<inter> (fst ` set (stops b) \<union> oid ` set (held_orders b)) = {}"
    using po by (simp_all add: pools_ok_alt)
  have "distinct (map oid (held_orders b))" using po by (simp add: pools_ok_alt)
  then have "distinct (map oid (?q @ auction_queue (\<not> o') b @ pending_orders b))"
    by (subst mset_eq_imp_distinct_iff [of _ "map oid (held_orders b)"]) (simp_all add: mset_held_orders [of b o'])
  then have dq: "distinct (map oid ?q)" by simp
  have live: "live ?q" using held(1) sub by (auto simp: live_def)
  have absent: "omap b (oid x) = None" if "x \<in> set ?q" for x
  proof -
    have "oid x \<in> fst ` set (stops b) \<union> oid ` set (held_orders b)" using that sub by blast
    with held(2) have "oid x \<notin> fst ` set (orders b)" by (metis disjoint_iff)
    then show ?thesis by (simp add: map_of_eq_None_iff)
  qed
  then have "\<forall>x \<in> set ?q. omap b (oid x) = None" by simp
  from cross_fill_ok [OF live this] fill have f: "partly_filled ?q queue" "cross_executed ?q b ts"
    "ladder b1 = ladder b" "orders b1 = orders b" "pegged b1 = pegged b" "pools_eq b b1" "evolves b b1" by simp_all
  let ?b1 = "set_queue o' queue b1"
  have core1: "book_core ?b1" by (rule book_core_cong [of b]) (use ok f in \<open>simp_all add: book_ok_def lvl_def fun_eq_iff\<close>)
  have caches1: "caches_ok ?b1" using ok f(3) by (simp add: caches_ok_def book_ok_def)
  have mems: "\<forall>x \<in> set queue. 0 \<le> leaves x \<and> admissible x \<and> omap ?b1 (oid x) = None"
  proof
    fix y assume "y \<in> set queue"
    then obtain x r where x: "x \<in> set ?q" "r \<le> leaves x" "y = take_fill r x" by (rule partly_filled_mem [OF f(1)])
    have "admissible x" using held(1) sub x(1) by blast
    with x absent [OF x(1)] show "0 \<le> leaves y \<and> admissible y \<and> omap ?b1 (oid y) = None"
      using f(4) by (simp add: admissible_def)
  qed
  have dq': "distinct (map oid queue)" using dq partly_filled_oids [OF f(1)] by simp
  from auction_rest_ok [OF core1 caches1 dq' mems, of ts] obtain b2 new
    where r: "auction_rest queue ?b1 ts = Some (b2, ts @ new)" "book_core b2" "caches_ok b2" "evolves ?b1 b2"
      "pools_eq ?b1 b2" "positive new" "set (map fst (orders b2)) \<subseteq> set (map fst (orders ?b1)) \<union> oid ` set queue"
    by (elim exE conjE) (rule that; assumption)
  let ?b2 = "set_queue o' [] b2"
  have frame: "stops b2 = stops b" "groups b2 = groups b" "order_group b2 = order_group b"
    "auction_queue (\<not> o') b2 = auction_queue (\<not> o') b" "pending_orders b2 = pending_orders b"
    using r(5) f(6) auction_queue_eq [of b2 ?b1 "\<not> o'"] auction_queue_eq [of b1 b "\<not> o'"]
    by (simp_all add: pools_eq_def pending_orders_def)
  have "evolves b ?b2"
    using f(7) set_queue_evolves [of b1 o' queue] r(4) set_queue_evolves [of b2 o' "[]"] by (metis evolves_trans)
  moreover have "pools_ok ?b2"
  proof (rule pools_ok_move [OF po, of _ ?q])
    show "distinct (map fst (orders ?b2))" using book_coreD(4) [OF r(2)] by simp
    have "oid ` set queue = oid ` set ?q"
      using arg_cong [OF partly_filled_oids [OF f(1)], of set] by simp
    with r(7) f(4) show "set (map fst (orders ?b2)) \<subseteq> set (map fst (orders b)) \<union> oid ` set ?q" by simp
    show "mset (held_orders b) = mset ?q + mset (held_orders ?b2)"
      using frame(4,5) by (simp add: mset_held_orders [of _ o'])
  qed (simp add: frame)
  moreover have "all_ids ?b2 \<subseteq> all_ids b"
  proof -
    have sets: "K' \<union> S \<union> H' \<subseteq> K \<union> S \<union> H" if "K' \<subseteq> K \<union> Q" "Q \<subseteq> H" "H' \<subseteq> H" for K K' S Q H H' :: "OrderId set"
      using that by blast
    have held': "set (held_orders ?b2) \<subseteq> set (held_orders b)"
      using arg_cong [OF mset_held_orders [of b o'], of set_mset] arg_cong [OF mset_held_orders [of ?b2 o'], of set_mset]
        frame(4,5) by auto
    have "oid ` set queue = oid ` set ?q" using arg_cong [OF partly_filled_oids [OF f(1)], of set] by simp
    with r(7) f(4) have keys: "set (map fst (orders ?b2)) \<subseteq> set (map fst (orders b)) \<union> oid ` set ?q" by simp
    have st: "stops ?b2 = stops b" using frame(1) by simp
    show ?thesis unfolding all_ids_def live_keys_def st
      by (rule sets [OF keys image_mono [OF sub] image_mono [OF held']])
  qed
  moreover have "book_core ?b2" by (rule book_core_cong [OF r(2)]) simp_all
  moreover have "caches_ok ?b2" using r(3) by (simp add: caches_ok_def)
  ultimately show ?thesis using r(1,6) f(2) frame by (simp add: book_ok_def)
qed

lemma cross_auction_ok:
  assumes ok: "book_ok b"
  shows "\<exists>b' ts new. cross_auction o' b = Some (ts @ new, b') \<and> book_ok b' \<and> evolves b b'
    \<and> cross_executed (auction_queue o' b) b ts \<and> positive new \<and> auction_queue o' b' = []
    \<and> auction_queue (\<not> o') b' = auction_queue (\<not> o') b \<and> groups b' = groups b \<and> order_group b' = order_group b
    \<and> all_ids b' \<subseteq> all_ids b"
proof (cases "auction_queue o' b = []")
  case True
  then have "clearing (auction_queue o' b) b = None"
    by (simp add: clearing_def candidates_def consider_price_def demand_at_def on_side_def Let_def)
  with True ok show ?thesis by (auto simp: cross_auction_def cross_executed_def intro!: exI [of _ "[]"])
next
  case False
  obtain queue b1 ts where fill: "cross_fill (auction_queue o' b) b = (queue, b1, ts)" by (metis prod_cases3)
  from cross_settle_ok [OF ok fill] obtain b2 new
    where s: "auction_rest queue (set_queue o' queue b1) ts = Some (b2, ts @ new)" "book_ok (set_queue o' [] b2)"
      "evolves b (set_queue o' [] b2)" "positive new" "cross_executed (auction_queue o' b) b ts" "groups b2 = groups b"
      "order_group b2 = order_group b" "auction_queue (\<not> o') b2 = auction_queue (\<not> o') b"
      "all_ids (set_queue o' [] b2) \<subseteq> all_ids b"
    by (elim exE conjE) (rule that; assumption)
  let ?b3 = "set_queue o' [] b2"
  have eq: "cross_auction o' b = (if ts @ new = [] then Some (ts @ new, ?b3)
      else do { (b4, ts3) \<leftarrow> evaluate_stops ?b3 (ts @ new); b5 \<leftarrow> reprice_pegs b4; Some (ts3, b5) })"
    using False fill s(1) by (simp add: cross_auction_def Let_def)
  show ?thesis
  proof (cases "ts @ new = []")
    case True
    with eq s show ?thesis by (intro exI [of _ ?b3] exI [of _ ts] exI [of _ new]) simp
  next
    case ne: False
    from evaluate_stops_ok [OF s(2), of "ts @ new"] obtain b4 ts3
      where e: "evaluate_stops ?b3 (ts @ new) = Some (b4, ts3)" "cascade_ok ?b3 (ts @ new) (b4, ts3)" by blast
    then obtain new2 where c: "ts3 = (ts @ new) @ new2" "positive new2" "book_ok b4" "evolves ?b3 b4"
      "held_eq ?b3 b4" "live_keys b4 \<subseteq> live_keys ?b3" unfolding cascade_ok_def by auto
    then have h: "groups b4 = groups ?b3" "order_group b4 = order_group ?b3" "auction_queue oo b4 = auction_queue oo ?b3" for oo
      by (simp_all add: held_eq_def auction_queue_def)
    from reprice_pegs_ok [OF c(3)] obtain b5 where p: "reprice_pegs b4 = Some b5" "reprice_ok b4 b5" "book_ok b5" by blast
    have "evolves b b5" using s(3) c(4) p(2) evolves_trans unfolding reprice_ok_def by blast
    moreover have "groups b5 = groups b4" "order_group b5 = order_group b4" "auction_queue oo b5 = auction_queue oo b4" for oo
      using p(2) by (simp_all add: reprice_ok_def pools_eq_def auction_queue_def)
    moreover have "all_ids b5 \<subseteq> all_ids b"
    proof -
      have "all_ids b5 = all_ids b4"
        using p(2) by (simp add: reprice_ok_def pools_eq_def all_ids_def live_keys_def held_orders_def pending_orders_def
            flip: set_map)
      also have "\<dots> \<subseteq> all_ids ?b3"
        unfolding all_ids_def held_eq_orders [OF c(5)] by (rule Un_mono [OF c(6) subset_refl])
      finally show ?thesis using s(9) by (rule subset_trans)
    qed
    moreover have "cross_auction o' b = Some (ts @ (new @ new2), b5)" 
      unfolding eq if_not_P [OF ne] using e(1) p(1) c(1) by simp
    ultimately show ?thesis
      using p(3) s(4-8) c(2) h by (intro exI [of _ b5] exI [of _ ts] exI [of _ "new @ new2"]) simp
  qed
qed

end
