(* ===== verification/Order_Book.thy ===== *)
theory Order_Book
  imports Auction
begin

section \<open>The operations of the order book (core/order\_book.cc: OrderBook)\<close>

text \<open>
  The public operations of \<open>OrderBook\<close> over the parts of the earlier theories: submitting,
  cancelling and expiring orders, contingent groups (one cancels the other, one triggers the
  other, brackets), the session auctions and the accessors.

  \<open>submit\<close>, \<open>process_link_fills\<close> and \<open>release_children\<close> call each other in the source: a
  released child is submitted again. The model writes the bodies over the submission they
  call, \<open>submit_fuel n\<close> nests them \<open>n\<close> deep, and \<open>submit\<close> runs one level more than there are
  held children. \<open>submit_total\<close> shows that this is enough: a child leaves the group table
  before it is submitted and never returns to it.
\<close>

type_synonym submission = "Order \<Rightarrow> Book \<Rightarrow> (SubmitOutcome \<times> Book) option"

subsection \<open>Cancelling and expiring\<close>

fun erase_queued :: "OrderId \<Rightarrow> Order list \<Rightarrow> Order list" where
  "erase_queued i [] = []"
| "erase_queued i (x # xs) = (if oid x = i then xs else x # erase_queued i xs)"

definition cancel :: "OrderId \<Rightarrow> Book \<Rightarrow> (bool \<times> Book) option" where
  "cancel i b =
     (if map_of (stops b) i \<noteq> None then Some (True, b\<lparr>stops := AList.delete i (stops b)\<rparr>)
      else if \<exists>x \<in> set (opening_auction b). oid x = i
      then Some (True, b\<lparr>opening_auction := erase_queued i (opening_auction b)\<rparr>)
      else if \<exists>x \<in> set (closing_auction b). oid x = i
      then Some (True, b\<lparr>closing_auction := erase_queued i (closing_auction b)\<rparr>)
      else case map_of (orders b) i of
             None \<Rightarrow> Some (False, b)
           | Some e \<Rightarrow>
               let was_pegged = (i \<in> set (pegged b)); b1 = cancel_resting i e b
               in if was_pegged then Some (True, b1)
                  else do { b2 \<leftarrow> reprice_pegs b1; Some (True, b2) })"

fun cancel_all :: "OrderId list \<Rightarrow> Book \<Rightarrow> Book option" where
  "cancel_all [] b = Some b"
| "cancel_all (i # is) b = do { (_, b') \<leftarrow> cancel i b; cancel_all is b' }"

definition expired_ids :: "Timestamp \<Rightarrow> Book \<Rightarrow> OrderId list" where
  "expired_ids now b =
     sort (map fst (filter (\<lambda>(i, e). expiry_ns (e_order e) > 0 \<and> expiry_ns (e_order e) \<le> now) (orders b)))"

definition expire :: "Timestamp \<Rightarrow> Book \<Rightarrow> (OrderId list \<times> Book) option" where
  "expire now b = do { b' \<leftarrow> cancel_all (expired_ids now b) b; Some (expired_ids now b, b') }"

subsection \<open>Contingent groups\<close>

definition group_of :: "Book \<Rightarrow> nat \<Rightarrow> Group" where
  "group_of b gid = (case map_of (groups b) gid of None \<Rightarrow> new_Group | Some g \<Rightarrow> g)"

definition upd_group :: "nat \<Rightarrow> (Group \<Rightarrow> Group) \<Rightarrow> Book \<Rightarrow> Book" where
  "upd_group gid f b = b\<lparr>groups := AList.update gid (f (group_of b gid)) (groups b)\<rparr>"

definition append_trades :: "SubmitOutcome \<Rightarrow> SubmitOutcome \<Rightarrow> SubmitOutcome" where
  "append_trades out co = out\<lparr>trades := trades out @ trades co\<rparr>"

definition release_child :: "submission \<Rightarrow> nat \<Rightarrow> SubmitOutcome \<Rightarrow> Book \<Rightarrow> (SubmitOutcome \<times> Book) option" where
  "release_child sub gid out b =
     (case pending_child (group_of b gid) of
        None \<Rightarrow> Some (out, b)
      | Some c \<Rightarrow> do {
          (co, b') \<leftarrow> sub (c\<lparr>link := None\<rparr>) (upd_group gid (\<lambda>g. g\<lparr>pending_child := None\<rparr>) b);
          Some (append_trades out co, b')
        })"

fun release_legs :: "submission \<Rightarrow> nat \<Rightarrow> Order list \<Rightarrow> SubmitOutcome \<Rightarrow> Book \<Rightarrow> (SubmitOutcome \<times> Book) option" where
  "release_legs sub gid [] out b = Some (out, b)"
| "release_legs sub gid (c # cs) out b = do {
     (co, b') \<leftarrow> sub (c\<lparr>link := Some \<lparr>link_role = OcoLeg, group_id = gid\<rparr>\<rparr>) b;
     release_legs sub gid cs (append_trades out co) b'
   }"

definition release_children :: "submission \<Rightarrow> nat \<Rightarrow> SubmitOutcome \<Rightarrow> Book \<Rightarrow> (SubmitOutcome \<times> Book) option" where
  "release_children sub gid out b = do {
     (out1, b1) \<leftarrow> release_child sub gid out b;
     release_legs sub gid (pending_oco (group_of b1 gid)) out1
       (upd_group gid (\<lambda>g. g\<lparr>pending_oco := []\<rparr>) b1)
   }"

definition linked_fills :: "Order \<Rightarrow> Trade list \<Rightarrow> Book \<Rightarrow> OrderId list" where
  "linked_fills submitted ts b = sort (remdups
     ((if link submitted \<noteq> None \<and> filled submitted > 0 then [oid submitted] else [])
      @ map maker_id (filter (\<lambda>t. order_group b (maker_id t) \<noteq> None) ts)))"

definition fill_group :: "Order \<Rightarrow> OrderId \<Rightarrow> Book \<Rightarrow> nat option" where
  "fill_group submitted i b =
     (case link submitted of
        Some l \<Rightarrow> if i = oid submitted then Some (group_id l) else order_group b i
      | None \<Rightarrow> order_group b i)"

fun cancel_siblings :: "OrderId \<Rightarrow> OrderId list \<Rightarrow> Book \<Rightarrow> Book option" where
  "cancel_siblings i [] b = Some b"
| "cancel_siblings i (j # js) b =
     (if j = i then cancel_siblings i js b
      else do {
        (_, b') \<leftarrow> cancel j (b\<lparr>order_group := (order_group b)(j := None)\<rparr>);
        cancel_siblings i js b'
      })"

definition settle_oco :: "nat \<Rightarrow> OrderId \<Rightarrow> Book \<Rightarrow> Book option" where
  "settle_oco gid i b =
     (if i \<in> set (oco_legs (group_of b gid))
      then do {
        b1 \<leftarrow> cancel_siblings i (oco_legs (group_of b gid)) b;
        let b2 = upd_group gid (\<lambda>g. g\<lparr>oco_legs := []\<rparr>) b1;
        Some (b2\<lparr>order_group := (order_group b2)(i := None)\<rparr>)
      }
      else Some b)"

definition fully_filled :: "Order \<Rightarrow> OrderId \<Rightarrow> Book \<Rightarrow> bool" where
  "fully_filled submitted i b =
     (if link submitted \<noteq> None \<and> i = oid submitted then leaves submitted = 0 else map_of (orders b) i = None)"

definition link_fill :: "submission \<Rightarrow> Order \<Rightarrow> OrderId \<Rightarrow> SubmitOutcome \<Rightarrow> Book \<Rightarrow> (SubmitOutcome \<times> Book) option" where
  "link_fill sub submitted i out b =
     (case fill_group submitted i b of
        None \<Rightarrow> Some (out, b)
      | Some gid \<Rightarrow>
          if map_of (groups b) gid = None then Some (out, b)
          else do {
            b1 \<leftarrow> settle_oco gid i b;
            if parent (group_of b1 gid) = i \<and> fully_filled submitted i b1
            then release_children sub gid out b1
            else Some (out, b1)
          })"

fun link_fills :: "submission \<Rightarrow> Order \<Rightarrow> OrderId list \<Rightarrow> SubmitOutcome \<Rightarrow> Book \<Rightarrow> (SubmitOutcome \<times> Book) option" where
  "link_fills sub submitted [] out b = Some (out, b)"
| "link_fills sub submitted (i # is) out b = do {
     (out', b') \<leftarrow> link_fill sub submitted i out b;
     link_fills sub submitted is out' b'
   }"

definition process_link_fills :: "submission \<Rightarrow> Order \<Rightarrow> SubmitOutcome \<Rightarrow> Book \<Rightarrow> (SubmitOutcome \<times> Book) option" where
  "process_link_fills sub submitted out b =
     link_fills sub submitted (linked_fills submitted (trades out) b) out b"

subsection \<open>Submitting\<close>

definition reject :: "string \<Rightarrow> SubmitOutcome \<Rightarrow> SubmitOutcome" where
  "reject reason out = out\<lparr>accepted := False, reject_reason := reason\<rparr>"

definition stamp :: "Order \<Rightarrow> Book \<Rightarrow> Order" where
  "stamp order b = (Normalize order)\<lparr>seq := next_seq b, rank := next_seq b\<rparr>"

definition submit_error :: "Order \<Rightarrow> Book \<Rightarrow> string option" where
  "submit_error order b =
     (if qty order \<le> 0 \<or> leaves order \<le> 0 then Some ''non-positive quantity''
      else if otype order = Limit \<and> price order \<le> 0 \<and> peg order = None then Some ''non-positive limit price''
      else if map_of (orders b) (oid order) \<noteq> None \<or> map_of (stops b) (oid order) \<noteq> None
      then Some ''duplicate order id''
      else None)"

definition queue_auction :: "Order \<Rightarrow> Book \<Rightarrow> Book" where
  "queue_auction order b =
     (if IsOpeningAuction (flags order) then b\<lparr>opening_auction := opening_auction b @ [order]\<rparr>
      else b\<lparr>closing_auction := closing_auction b @ [order]\<rparr>)"

definition hold_child :: "Order \<Rightarrow> Book \<Rightarrow> Book option" where
  "hold_child order b =
     (case link order of
        None \<Rightarrow> None
      | Some l \<Rightarrow>
          (case link_role l of
             OtoChild \<Rightarrow> Some (upd_group (group_id l) (\<lambda>g. g\<lparr>pending_child := Some order\<rparr>) b)
           | BracketTakeProfit \<Rightarrow> Some (upd_group (group_id l) (\<lambda>g. g\<lparr>pending_oco := pending_oco g @ [order]\<rparr>) b)
           | BracketStopLoss \<Rightarrow> Some (upd_group (group_id l) (\<lambda>g. g\<lparr>pending_oco := pending_oco g @ [order]\<rparr>) b)
           | _ \<Rightarrow> None))"

definition awaits_trigger :: "Order \<Rightarrow> bool" where
  "awaits_trigger order = (case trigger order of None \<Rightarrow> False | Some t \<Rightarrow> \<not> triggered t)"

definition submit_stop :: "Order \<Rightarrow> SubmitOutcome \<Rightarrow> Book \<Rightarrow> (SubmitOutcome \<times> Book) option" where
  "submit_stop order out b =
     (let order1 = arm_stop order b
      in if have_last b \<and> stop_triggered order1 (last_price b)
         then do {
           (order2, b1, ts) \<leftarrow> inject (mark_triggered order1) b (trades out);
           let out1 = out\<lparr>out_filled := filled order2, rested := rests order2\<rparr>;
           (b2, ts') \<leftarrow> evaluate_stops b1 ts;
           Some (out1\<lparr>trades := ts'\<rparr>, b2)
         }
         else Some (out\<lparr>pending_trigger := True\<rparr>, b\<lparr>stops := emplace (oid order1) order1 (stops b)\<rparr>))"

definition rest_outcome :: "Order \<Rightarrow> SubmitOutcome \<Rightarrow> Book \<Rightarrow> SubmitOutcome \<times> Book" where
  "rest_outcome order out b =
     (let (resident, ev, b') = rest order b
      in (out\<lparr>evicted := evicted out @ ev, rested := resident, rested_deep := \<not> resident, resting := order\<rparr>, b'))"

definition submit_peg :: "Order \<Rightarrow> SubmitOutcome \<Rightarrow> Book \<Rightarrow> SubmitOutcome \<times> Book" where
  "submit_peg order out b =
     (case compute_peg_price order b of
        None \<Rightarrow> (reject ''no reference price for peg'' out, b)
      | Some p \<Rightarrow>
          let (out1, b1) = rest_outcome (order\<lparr>otype := Limit, price := p\<rparr>) out b
          in (out1, if rested out1 then b1\<lparr>pegged := List.insert (oid order) (pegged b1)\<rparr> else b1))"

definition reduce_only_cap :: "Order \<Rightarrow> Book \<Rightarrow> string + Order" where
  "reduce_only_cap order b =
     (if \<not> HasFlag (flags order) kReduceOnly then Inr order
      else if client_id order = 0 then Inl ''reduce-only requires an account''
      else let cap = reduce_only_capacity order b
           in if cap \<le> 0 then Inl ''reduce-only: no position to reduce''
              else if leaves order > cap then Inr (order\<lparr>leaves := cap, qty := cap\<rparr>)
              else Inr order)"

definition min_qty_error :: "Order \<Rightarrow> Book \<Rightarrow> string option" where
  "min_qty_error order b =
     (if min_qty order > 0 then
        (if min_qty order > qty order then Some ''min_qty exceeds qty''
         else if available_fill order b < min_qty order then Some ''minimum quantity not available''
         else None)
      else None)"

definition register_link :: "Order \<Rightarrow> SubmitOutcome \<Rightarrow> Book \<Rightarrow> Book" where
  "register_link order out b =
     (case link order of
        None \<Rightarrow> b
      | Some l \<Rightarrow>
          let b1 = (if link_role l = OcoLeg
                    then upd_group (group_id l) (\<lambda>g. g\<lparr>oco_legs := oco_legs g @ [oid order]\<rparr>) b
                    else if link_role l = OtoParent \<or> link_role l = BracketParent
                    then upd_group (group_id l) (\<lambda>g. g\<lparr>parent := oid order\<rparr>) b
                    else b)
          in if rested out then b1\<lparr>order_group := (order_group b1)(oid order \<mapsto> group_id l)\<rparr> else b1)"

definition submit_match :: "submission \<Rightarrow> Order \<Rightarrow> SubmitOutcome \<Rightarrow> Book \<Rightarrow> (SubmitOutcome \<times> Book) option" where
  "submit_match sub order out b = do {
     (aggressor_cancelled, order1, b1, ts) \<leftarrow> match_order order b (trades out);
     let out1 = out\<lparr>trades := ts, out_filled := filled order1\<rparr>;
     let (out2, b2) = (if rests order1 \<and> \<not> aggressor_cancelled then rest_outcome order1 out1 b1 else (out1, b1));
     (b3, ts3) \<leftarrow> (if trades out2 \<noteq> [] then evaluate_stops b2 (trades out2) else Some (b2, trades out2));
     b4 \<leftarrow> reprice_pegs b3;
     let out3 = out2\<lparr>trades := ts3\<rparr>;
     process_link_fills sub order1 out3 (register_link order1 out3 b4)
   }"

definition submit_active :: "submission \<Rightarrow> Order \<Rightarrow> SubmitOutcome \<Rightarrow> Book \<Rightarrow> (SubmitOutcome \<times> Book) option" where
  "submit_active sub order out b =
     (if HasFlag (flags order) kAon \<and> available_fill order b < leaves order
      then if tif order = IOC \<or> otype order = Market
           then Some (reject ''all-or-none not fully fillable'' out, b)
           else (let (out1, b1) = rest_outcome order out b
                 in do { b2 \<leftarrow> reprice_pegs b1; Some (out1, b2) })
      else case min_qty_error order b of
             Some reason \<Rightarrow> Some (reject reason out, b)
           | None \<Rightarrow> submit_match sub order out b)"

definition submit_continuous :: "submission \<Rightarrow> Order \<Rightarrow> SubmitOutcome \<Rightarrow> Book \<Rightarrow> (SubmitOutcome \<times> Book) option" where
  "submit_continuous sub order out b =
     (let (would_cross, b1) = (if HasFlag (flags order) kPostOnly then crosses order b else (False, b))
      in if would_cross then Some (reject ''post-only would cross'' out, b1)
         else case reduce_only_cap order b1 of
                Inl reason \<Rightarrow> Some (reject reason out, b1)
              | Inr order1 \<Rightarrow> submit_active sub order1 out b1)"

definition submit_body :: "submission \<Rightarrow> submission" where
  "submit_body sub order0 b0 =
     (let order = stamp order0 b0; b = b0\<lparr>next_seq := Suc (next_seq b0)\<rparr>;
          out = default_Outcome\<lparr>out_order_id := oid order\<rparr>
      in case submit_error order b of
           Some reason \<Rightarrow> Some (reject reason out, b)
         | None \<Rightarrow>
             if IsOpeningAuction (flags order) \<or> IsClosingAuction (flags order)
             then Some (out\<lparr>held := True\<rparr>, queue_auction order b)
             else (case hold_child order b of
                     Some b1 \<Rightarrow> Some (out\<lparr>held := True\<rparr>, b1)
                   | None \<Rightarrow>
                       if awaits_trigger order then submit_stop order out b
                       else if peg order \<noteq> None then Some (submit_peg order out b)
                       else submit_continuous sub order out b))"

primrec submit_fuel :: "nat \<Rightarrow> submission" where
  "submit_fuel 0 = (\<lambda>order b. None)"
| "submit_fuel (Suc n) = submit_body (submit_fuel n)"

definition submit :: "Order \<Rightarrow> Book \<Rightarrow> (SubmitOutcome \<times> Book) option" where
  "submit order b = submit_fuel (Suc (length (pending_orders b))) order b"

subsection \<open>Accessors and configuration\<close>

definition find_order :: "OrderId \<Rightarrow> Book \<Rightarrow> Order option" where
  "find_order i b = map_option e_order (map_of (orders b) i)"

definition best_bid :: "Book \<Rightarrow> Ticks option \<times> Book" where
  "best_bid b = (let (p, L) = ladder_best (bids b) in (p, b\<lparr>bids := L\<rparr>))"

definition best_ask :: "Book \<Rightarrow> Ticks option \<times> Book" where
  "best_ask b = (let (p, L) = ladder_best (asks b) in (p, b\<lparr>asks := L\<rparr>))"

definition total_qty_at :: "Book \<Rightarrow> Side \<Rightarrow> Ticks \<Rightarrow> Quantity" where
  "total_qty_at b s p = (case ladder_at (ladder b s) p of None \<Rightarrow> 0 | Some l \<Rightarrow> total l)"

definition displayed_qty_at :: "Book \<Rightarrow> Side \<Rightarrow> Ticks \<Rightarrow> Quantity" where
  "displayed_qty_at b s p = (case ladder_at (ladder b s) p of None \<Rightarrow> 0 | Some l \<Rightarrow> displayed l)"

definition last_trade_price :: "Book \<Rightarrow> Ticks option" where
  "last_trade_price b = (if have_last b then Some (last_price b) else None)"

definition seed_position :: "ClientId \<Rightarrow> Quantity \<Rightarrow> Book \<Rightarrow> Book" where
  "seed_position c q b =
     (if c = 0 then b else b\<lparr>positions := (positions b)(c \<mapsto> (position_of b c)\<lparr>net := q\<rparr>)\<rparr>)"

definition position :: "Book \<Rightarrow> ClientId \<Rightarrow> Quantity" where
  "position b c = (case positions b c of None \<Rightarrow> 0 | Some p \<Rightarrow> net p)"

definition has_deep :: "Book \<Rightarrow> Side \<Rightarrow> bool" where
  "has_deep b s = d_has (deep_of b s)"

definition deep_boundary :: "Book \<Rightarrow> Side \<Rightarrow> Ticks option" where
  "deep_boundary b s = (if d_has (deep_of b s) then Some (d_boundary (deep_of b s)) else None)"

definition worst_resident :: "Book \<Rightarrow> Side \<Rightarrow> Ticks option" where
  "worst_resident b s = worst_price (ladder b s)"

definition run_opening_auction :: "Book \<Rightarrow> (Trade list \<times> Book) option" where
  "run_opening_auction = cross_auction True"

definition run_closing_auction :: "Book \<Rightarrow> (Trade list \<times> Book) option" where
  "run_closing_auction = cross_auction False"

definition auction_count :: "Book \<Rightarrow> bool \<Rightarrow> nat" where
  "auction_count b opening = (if opening then length (opening_auction b) else length (closing_auction b))"

definition resting_count :: "Book \<Rightarrow> nat" where
  "resting_count b = length (orders b)"

definition pending_stop_count :: "Book \<Rightarrow> nat" where
  "pending_stop_count b = length (stops b)"

definition take_requeued :: "Book \<Rightarrow> Order list \<times> Book" where
  "take_requeued b = (requeued b, b\<lparr>requeued := []\<rparr>)"

definition set_next_seq :: "SeqNo \<Rightarrow> Book \<Rightarrow> Book" where
  "set_next_seq k b = (if k > next_seq b then b\<lparr>next_seq := k\<rparr> else b)"

definition set_symbol :: "Symbol \<Rightarrow> Book \<Rightarrow> Book" where
  "set_symbol sy b = b\<lparr>book_symbol := sy\<rparr>"

definition set_event_sink :: "bool \<Rightarrow> Book \<Rightarrow> Book" where
  "set_event_sink on b = b\<lparr>event_sink := on\<rparr>"

end
