(* ===== verification/Cancel.thy ===== *)
theory Cancel
  imports Order_Book
begin

section \<open>Cancelling and expiring\<close>

text \<open>
  \<open>cancel\<close> takes an order off whichever part of the book holds it, \<open>expire\<close> does so for the
  resting orders that are due. The theory also has the notion \<open>progress\<close> that the later
  proofs chain: the book stays sound, evolves by steps of the table machine, and knows no ids
  but the old ones and the given ones.
\<close>

subsection \<open>Progress\<close>

definition progress :: "nat \<Rightarrow> OrderId set \<Rightarrow> Book \<Rightarrow> Book \<Rightarrow> bool" where
  "progress k I b b' \<longleftrightarrow> book_ok b' \<and> evolves b b' \<and> all_ids b' \<subseteq> I \<union> all_ids b
     \<and> length (pending_orders b') \<le> k + length (pending_orders b)"

lemma progress_refl: "book_ok b \<Longrightarrow> progress 0 {} b b"
  by (simp add: progress_def)

lemma progress_ok: "progress k I b b' \<Longrightarrow> book_ok b'"
  by (simp add: progress_def)

lemma progress_trans:
  assumes "progress j I a b" "progress k J b c"
  shows "progress (j + k) (I \<union> J) a c"
proof -
  have "C \<subseteq> (I \<union> J) \<union> A" if "B \<subseteq> I \<union> A" "C \<subseteq> J \<union> B" for A B C :: "OrderId set" using that by blast
  from this [of "all_ids b" "all_ids a" "all_ids c"] assms evolves_trans [of a b c] show ?thesis
    by (simp add: progress_def)
qed

lemma progress_trans0 [trans]: "progress 0 {} a b \<Longrightarrow> progress k I b c \<Longrightarrow> progress k I a c"
  using progress_trans [of 0 "{}"] by simp

lemma progress_trans1: "progress k I a b \<Longrightarrow> progress 0 {} b c \<Longrightarrow> progress k I a c"
  using progress_trans [of k I a b 0 "{}"] by simp

lemma progress_mono: "progress j I a b \<Longrightarrow> j \<le> k \<Longrightarrow> I \<subseteq> J \<Longrightarrow> progress k J a b"
  unfolding progress_def by (meson Un_mono add_right_mono order_trans subset_refl)

lemma progress_known: "progress k I a b \<Longrightarrow> I \<subseteq> all_ids a \<Longrightarrow> progress k {} a b"
  unfolding progress_def by (metis Un_absorb1 Un_empty_left)

lemma all_ids_cong: "map fst (orders b') = map fst (orders b) \<Longrightarrow> pools_eq b b' \<Longrightarrow> all_ids b' = all_ids b"
  unfolding all_ids_def live_keys_def by (simp add: pools_eq_def held_orders_def pending_orders_def)

lemma all_ids_grow:
  assumes "set (map fst (orders b')) \<subseteq> I \<union> set (map fst (orders b))" "pools_eq b b'"
  shows "all_ids b' \<subseteq> I \<union> all_ids b"
proof -
  have "K' \<union> S \<union> H \<subseteq> I \<union> (K \<union> S \<union> H)" if "K' \<subseteq> I \<union> K" for K K' S H :: "OrderId set" using that by blast
  from this [OF assms(1)] assms(2) show ?thesis
    by (simp add: all_ids_def live_keys_def pools_eq_def held_orders_def pending_orders_def)
qed

lemma pending_pools_eq: "pools_eq b b' \<Longrightarrow> pending_orders b' = pending_orders b"
  by (simp add: pools_eq_def pending_orders_def)

lemma pools_ok_cong: "pools_ok b \<Longrightarrow> pools_eq b b' \<Longrightarrow> map fst (orders b') = map fst (orders b) \<Longrightarrow> pools_ok b'"
  using waiting_pools_eq [of b b'] by (simp add: pools_ok_def pools_eq_def)

lemma reprice_progress:
  assumes "book_ok b"
  obtains b' where "reprice_pegs b = Some b'" "reprice_ok b b'" "progress 0 {} b b'"
    "\<forall>i \<in> set (pegged b'). settled b' i" "\<forall>j. j \<notin> set (pegged b) \<longrightarrow> omap b' j = omap b j"
proof -
  have core: "book_core b" using assms by (simp add: book_ok_def)
  from reprice_pegs_core [OF core] obtain b' where b': "reprice_pegs b = Some b'" "reprice_ok b b'"
    "\<forall>i \<in> set (pegged b'). settled b' i" "\<forall>j. j \<notin> set (pegged b) \<longrightarrow> omap b' j = omap b j"
    by (elim exE conjE) (rule that; assumption)
  have r: "book_core b'" "caches_ok b \<longrightarrow> caches_ok b'" "evolves b b'" "pools_eq b b'"
    "map fst (orders b') = map fst (orders b)" using b'(2) by (simp_all add: reprice_ok_def)
  have "pools_ok b'" by (rule pools_ok_cong [OF _ r(4,5)]) (use assms in \<open>simp add: book_ok_def\<close>)
  with r assms have "progress 0 {} b b'"
    by (simp add: progress_def book_ok_def all_ids_cong [OF r(5,4)] pending_pools_eq)
  with b' show thesis by (intro that)
qed

subsection \<open>cancel\<close>

lemma erase_queued_filter: "distinct (map oid q) \<Longrightarrow> erase_queued i q = filter (\<lambda>x. oid x \<noteq> i) q"
  by (induction q) (force intro!: filter_True [symmetric] simp: image_iff)+

definition cancels :: "OrderId \<Rightarrow> Book \<Rightarrow> Book \<Rightarrow> bool" where
  "cancels i b b' \<longleftrightarrow> map fst (orders b') = filter (\<lambda>j. j \<noteq> i) (map fst (orders b))
     \<and> stops b' = AList.delete i (stops b) \<and> opening_auction b' = filter (\<lambda>x. oid x \<noteq> i) (opening_auction b)
     \<and> closing_auction b' = filter (\<lambda>x. oid x \<noteq> i) (closing_auction b)
     \<and> groups b' = groups b \<and> order_group b' = order_group b
     \<and> (\<forall>j. j \<noteq> i \<longrightarrow> j \<notin> set (pegged b) \<longrightarrow> omap b' j = omap b j)"

definition cancellable :: "OrderId \<Rightarrow> Book \<Rightarrow> bool" where
  "cancellable i b \<longleftrightarrow> i \<in> live_keys b \<or> i \<in> oid ` set (opening_auction b @ closing_auction b)"

text \<open>The parts of a sound book that can hold an id are disjoint.\<close>

lemma pools_disjoint:
  assumes "pools_ok b"
  shows "i \<in> set (map fst (stops b)) \<Longrightarrow> i \<notin> set (map fst (orders b)) \<and> i \<notin> oid ` set (held_orders b)"
    "i \<in> oid ` set (held_orders b) \<Longrightarrow> i \<notin> live_keys b"
    "distinct (map oid (opening_auction b @ closing_auction b @ pending_orders b))"
proof -
  have d: "distinct (map fst (orders b) @ map fst (stops b) @ map oid (held_orders b))"
    using assms by (simp add: pools_ok_alt)
  then have x: "set (map fst (orders b)) \<inter> (set (map fst (stops b)) \<union> oid ` set (held_orders b)) = {}"
    "set (map fst (stops b)) \<inter> oid ` set (held_orders b) = {}" by simp_all
  show "i \<in> set (map fst (stops b)) \<Longrightarrow> i \<notin> set (map fst (orders b)) \<and> i \<notin> oid ` set (held_orders b)"
    using x by (metis UnI1 disjoint_iff)
  show "i \<in> oid ` set (held_orders b) \<Longrightarrow> i \<notin> live_keys b"
    using x unfolding live_keys_def by (metis UnE UnI2 disjoint_iff)
  show "distinct (map oid (opening_auction b @ closing_auction b @ pending_orders b))"
    using d by (simp add: held_orders_def)
qed

lemma delete_absent: "i \<notin> set (map fst m) \<Longrightarrow> AList.delete i m = m"
  by (induction m) auto

lemma omap_None: "i \<notin> live_keys b \<Longrightarrow> omap b i = None"
  by (simp add: live_keys_def map_of_eq_None_iff)

lemma set_held_orders: "set (held_orders b) = set (opening_auction b) \<union> set (closing_auction b) \<union> set (pending_orders b)"
  by (auto simp: held_orders_def)

lemma cancel_stop_ok:
  assumes ok: "book_ok b" and i: "map_of (stops b) i \<noteq> None"
  shows "\<exists>b'. cancel i b = Some (True, b') \<and> progress 0 {} b b' \<and> cancels i b b'"
proof -
  let ?b = "b\<lparr>stops := AList.delete i (stops b)\<rparr>"
  have po: "pools_ok b" using ok by (simp add: book_ok_def)
  have mem: "i \<in> set (map fst (stops b))" using i by (metis map_of_eq_None_iff set_map)
  note D = pools_disjoint(1) [OF po mem]
  have "\<forall>kv \<in> set (AList.delete i (stops b)). stop_entry_ok kv"
    using pools_okD(3) [OF po] by (simp add: delete_filter)
  moreover have "distinct (map fst (AList.delete i (stops b)))" using pools_okD(1) [OF po] by simp
  moreover have sub: "set (map fst (AList.delete i (stops b))) \<subseteq> set (map fst (stops b))" by simp
  ultimately have "book_ok ?b" "evolves b ?b" by (rule set_stops_ok [OF ok])+
  moreover have "all_ids ?b \<subseteq> all_ids b"
    unfolding all_ids_def live_keys_def by (intro Un_mono) (use sub in simp_all)
  ultimately have "progress 0 {} b ?b" by (simp add: progress_def pending_orders_def)
  moreover have keep: "\<forall>x \<in> set (opening_auction b) \<union> set (closing_auction b). oid x \<noteq> i"
    using D by (auto simp: set_held_orders)
  then have "cancels i b ?b"
    using D by (auto simp: cancels_def intro!: filter_True [symmetric])
  moreover have "cancel i b = Some (True, ?b)" using i by (simp add: cancel_def)
  ultimately show ?thesis by blast
qed

lemma set_queue_ok:
  assumes ok: "book_ok b" and held: "mset (held_orders b) = mset q + mset (held_orders (set_queue o' xs b))"
  shows "progress 0 {} b (set_queue o' xs b)"
proof -
  let ?b = "set_queue o' xs b"
  have "book_core ?b" by (rule book_core_cong [of b]) (use ok in \<open>simp_all add: book_ok_def\<close>)
  moreover have "pools_ok ?b"
    by (rule pools_ok_move [OF _ _ _ _ held]) (use ok book_coreD(4) [of b] in \<open>simp_all add: book_ok_def\<close>)
  moreover have "all_ids ?b \<subseteq> all_ids b"
    using arg_cong [OF held, of set_mset] by (auto simp: all_ids_def live_keys_def)
  ultimately show ?thesis
    using ok set_queue_evolves [of b o' xs] by (simp add: progress_def book_ok_def caches_ok_def)
qed

lemma cancel_queued_ok:
  assumes ok: "book_ok b" and i: "map_of (stops b) i = None" "i \<in> oid ` set (opening_auction b @ closing_auction b)"
  shows "\<exists>b'. cancel i b = Some (True, b') \<and> progress 0 {} b b' \<and> cancels i b b'"
proof -
  have po: "pools_ok b" using ok by (simp add: book_ok_def)
  define o' where "o' \<longleftrightarrow> (\<exists>x \<in> set (opening_auction b). oid x = i)"
  let ?q = "auction_queue o' b" and ?f = "filter (\<lambda>x. oid x \<noteq> i)"
  let ?b = "set_queue o' (?f ?q) b"
  note D = pools_disjoint(3) [OF po]
  have d: "distinct (map oid ?q)" using D by (auto simp: auction_queue_def)
  have c: "cancel i b = Some (True, ?b)"
    using i D by (auto simp: cancel_def o'_def auction_queue_def set_queue_def erase_queued_filter)
  have other: "?f (auction_queue (\<not> o') b) = auction_queue (\<not> o') b"
  proof (rule filter_True, rule ballI, rule notI)
    fix x assume x: "x \<in> set (auction_queue (\<not> o') b)" "oid x = i"
    then have o': "o'" by (auto simp: o'_def auction_queue_def split: if_splits)
    then obtain y where "y \<in> set (opening_auction b)" "oid y = i" by (auto simp: o'_def)
    moreover have "x \<in> set (closing_auction b)" using x(1) o' by (simp add: auction_queue_def)
    ultimately have "i \<in> oid ` set (opening_auction b) \<inter> oid ` set (closing_auction b)" using x(2) by (metis IntI imageI)
    with D show False by auto
  qed
  have "mset ?q = mset (filter (\<lambda>x. oid x = i) ?q) + mset (?f ?q)"
    by (metis mset_filter multiset_partition)
  then have "progress 0 {} b ?b"
    by (intro set_queue_ok [OF ok, of "filter (\<lambda>x. oid x = i) ?q"]) (simp add: mset_held_orders [of _ o'])
  moreover have "i \<in> oid ` set (held_orders b)" using i(2) by (auto simp: set_held_orders)
  then have "i \<notin> live_keys b" by (rule pools_disjoint(2) [OF po])
  then have "cancels i b ?b"
    using other by (cases o') (auto simp: cancels_def live_keys_def auction_queue_def set_queue_def
        delete_absent intro!: filter_True [symmetric])
  ultimately show ?thesis using c by blast
qed

lemma cancel_resting_ok:
  assumes ok: "book_ok b" and i: "omap b i = Some e"
  shows "\<exists>b'. cancel i b = Some (True, b') \<and> progress 0 {} b b' \<and> cancels i b b'"
proof -
  have po: "pools_ok b" and core: "book_core b" using ok by (simp_all add: book_ok_def)
  have mem: "i \<in> live_keys b" using map_of_Some_key [OF i] by (simp add: live_keys_def)
  then have nh: "i \<notin> oid ` set (held_orders b)" using pools_disjoint(2) [OF po] by blast
  have ns: "i \<notin> set (map fst (stops b))"
    using pools_disjoint(1) [OF po, of i] map_of_Some_key [OF i] by auto
  let ?b = "cancel_resting i e b"
  note C = cancel_resting_step [OF core i refl]
  have pe: "pools_eq b ?b" by simp
  have "pools_ok ?b"
    by (rule pools_ok_shrink [OF po waiting_pools_eq [OF pe] _ book_coreD(4) [OF C(1)] C(4)])
      (use pe in \<open>simp add: pools_eq_def\<close>)
  moreover have sub: "all_ids ?b \<subseteq> {} \<union> all_ids b"
    by (rule all_ids_grow) (use keys_le_keys [OF C(4)] in simp_all)
  ultimately have p1: "progress 0 {} b ?b"
    using C(1-3) ok by (simp add: progress_def book_ok_def pending_pools_eq [OF pe])
  have keep: "\<forall>x \<in> set (opening_auction b) \<union> set (closing_auction b). oid x \<noteq> i"
    using nh by (auto simp: set_held_orders)
  have c1: "cancels i b ?b"
    using keep ns pe by (auto simp: cancels_def pools_eq_def delete_absent intro!: filter_True [symmetric])
  have eq: "cancel i b = (if i \<in> set (pegged b) then Some (True, ?b) else do { b2 \<leftarrow> reprice_pegs ?b; Some (True, b2) })"
    using i ns keep by (auto simp: cancel_def Let_def map_of_eq_None_iff)
  show ?thesis
  proof (cases "i \<in> set (pegged b)")
    case True
    with eq p1 c1 show ?thesis by simp
  next
    case False
    obtain b2 where b2: "reprice_pegs ?b = Some b2" "reprice_ok ?b b2" "progress 0 {} ?b b2"
      "\<forall>i \<in> set (pegged b2). settled b2 i" "\<forall>j. j \<notin> set (pegged ?b) \<longrightarrow> omap b2 j = omap ?b j"
      by (rule reprice_progress [OF progress_ok [OF p1]])
    have "cancels i b b2"
      using c1 b2(2,5) by (auto simp: cancels_def reprice_ok_def pools_eq_def)
    with eq False b2(1) progress_trans0 [OF p1 b2(3)] show ?thesis by simp
  qed
qed

lemma cancel_ok:
  assumes ok: "book_ok b"
  shows "\<exists>b'. cancel i b = Some (cancellable i b, b') \<and> progress 0 {} b b' \<and> cancels i b b'"
proof -
  consider (stop) "map_of (stops b) i \<noteq> None" | (queued) "map_of (stops b) i = None" "i \<in> oid ` set (opening_auction b @ closing_auction b)"
    | (resting) e where "omap b i = Some e"
    | (absent) "map_of (stops b) i = None" "i \<notin> oid ` set (opening_auction b @ closing_auction b)" "omap b i = None"
    by fastforce
  then show ?thesis
  proof cases
    case stop
    moreover from stop have "cancellable i b" by (auto simp: cancellable_def live_keys_def map_of_eq_None_iff)
    ultimately show ?thesis using cancel_stop_ok [OF ok] by simp
  next
    case queued
    moreover from queued have "cancellable i b" by (simp add: cancellable_def)
    ultimately show ?thesis using cancel_queued_ok [OF ok] by simp
  next
    case resting
    moreover from resting have "cancellable i b" by (auto simp: cancellable_def live_keys_def)
    ultimately show ?thesis using cancel_resting_ok [OF ok] by simp
  next
    case absent
    then have keep: "\<forall>x \<in> set (opening_auction b) \<union> set (closing_auction b). oid x \<noteq> i" by auto
    have "\<not> cancellable i b" using absent by (auto simp: cancellable_def live_keys_def map_of_eq_None_iff)
    moreover have "cancel i b = Some (False, b)" using absent keep by (auto simp: cancel_def)
    moreover have "cancels i b b"
      using absent keep by (auto simp: cancels_def map_of_eq_None_iff delete_absent intro!: filter_True [symmetric])
    ultimately show ?thesis using progress_refl [OF ok] by auto
  qed
qed

subsection \<open>expire\<close>

lemma cancel_all_ok:
  assumes "book_ok b"
  shows "\<exists>b'. cancel_all is b = Some b' \<and> progress 0 {} b b' \<and> groups b' = groups b \<and> order_group b' = order_group b
    \<and> map fst (orders b') = filter (\<lambda>j. j \<notin> set is) (map fst (orders b))
    \<and> stops b' = filter (\<lambda>kv. fst kv \<notin> set is) (stops b)"
  using assms
proof (induction "is" arbitrary: b)
  case Nil
  then show ?case by (simp add: progress_refl)
next
  case (Cons i "is")
  from cancel_ok [OF Cons.prems, of i] obtain r b1
    where c: "cancel i b = Some (r, b1)" "progress 0 {} b b1" "cancels i b b1" by blast
  from Cons.IH [OF progress_ok [OF c(2)]] obtain b2
    where a: "cancel_all is b1 = Some b2" "progress 0 {} b1 b2" "groups b2 = groups b1" "order_group b2 = order_group b1"
      "map fst (orders b2) = filter (\<lambda>j. j \<notin> set is) (map fst (orders b1))"
      "stops b2 = filter (\<lambda>kv. fst kv \<notin> set is) (stops b1)" by blast
  have "progress 0 {} b b2" using c(2) a(2) by (rule progress_trans0)
  with a c(1,3) show ?case by (auto simp: cancels_def delete_filter conj_commute)
qed

lemma expired_ids_spec:
  assumes "book_core b"
  shows "sorted (expired_ids now b)" "distinct (expired_ids now b)"
    "set (expired_ids now b) =
       {i. \<exists>e. omap b i = Some e \<and> 0 < expiry_ns (e_order e) \<and> expiry_ns (e_order e) \<le> now}"
proof -
  have d: "distinct (map fst (orders b))" by (rule book_coreD(4) [OF assms])
  show "sorted (expired_ids now b)" by (simp add: expired_ids_def)
  show "distinct (expired_ids now b)" unfolding expired_ids_def distinct_sort by (rule distinct_map_filter [OF d])
  show "set (expired_ids now b) =
       {i. \<exists>e. omap b i = Some e \<and> 0 < expiry_ns (e_order e) \<and> expiry_ns (e_order e) \<le> now}"
    using map_of_eq_Some_iff [OF d] by (force simp: expired_ids_def)
qed

lemma expire_ok:
  assumes ok: "book_ok b"
  shows "\<exists>b'. expire now b = Some (expired_ids now b, b') \<and> progress 0 {} b b'
    \<and> groups b' = groups b \<and> order_group b' = order_group b
    \<and> map fst (orders b') = filter (\<lambda>j. j \<notin> set (expired_ids now b)) (map fst (orders b)) \<and> stops b' = stops b"
proof -
  from cancel_all_ok [OF ok, of "expired_ids now b"] obtain b'
    where b': "cancel_all (expired_ids now b) b = Some b'" "progress 0 {} b b'" "groups b' = groups b"
      "order_group b' = order_group b" "map fst (orders b') = filter (\<lambda>j. j \<notin> set (expired_ids now b)) (map fst (orders b))"
      "stops b' = filter (\<lambda>kv. fst kv \<notin> set (expired_ids now b)) (stops b)" by blast
  have core: "book_core b" and po: "pools_ok b" using ok by (simp_all add: book_ok_def)
  have "stops b' = stops b"
    unfolding b'(6)
  proof (rule filter_True, rule ballI)
    fix kv assume "kv \<in> set (stops b)"
    then have "fst kv \<notin> set (map fst (orders b))" using pools_disjoint(1) [OF po, of "fst kv"] by auto
    then show "fst kv \<notin> set (expired_ids now b)"
      unfolding expired_ids_spec(3) [OF core] by (auto simp: map_of_eq_None_iff dest: map_of_Some_key)
  qed
  with b' show ?thesis by (simp add: expire_def)
qed

end
