(* ===== verification/Submit.thy ===== *)
theory Submit
  imports Cancel
begin

section \<open>Submitting: soundness and termination\<close>

text \<open>
  Every step of \<open>submit\<close> keeps the book sound (\<open>progress\<close>), the released children included,
  and the fuel of \<open>submit\<close> is enough: \<open>sub_ok n\<close> is what a submission nested \<open>n\<close> deep
  guarantees on a book with fewer than \<open>n\<close> held children, and each nesting level needs one
  child less because a child is taken out of its group before it is submitted.
\<close>

subsection \<open>Groups\<close>

definition held_by :: "Group \<Rightarrow> Order list" where
  "held_by g = (case pending_child g of None \<Rightarrow> [] | Some c \<Rightarrow> [c]) @ pending_oco g"

lemma pending_orders_alt: "pending_orders b = concat (map (\<lambda>kv. held_by (snd kv)) (groups b))"
  by (simp add: pending_orders_def held_by_def split_def)

lemma held_by_new [simp]: "held_by new_Group = []"
  by (simp add: held_by_def new_Group_def)

lemma mset_concat_update:
  "mset (concat (map (\<lambda>kv. h (snd kv)) (AList.update k v m)))
     + mset (case map_of m k of None \<Rightarrow> [] | Some w \<Rightarrow> h w)
   = mset (concat (map (\<lambda>kv. h (snd kv)) m)) + mset (h v)"
  by (induction m) (auto split: option.splits)

lemma mset_pending_upd:
  "mset (pending_orders (upd_group gid f b)) + mset (held_by (group_of b gid))
   = mset (pending_orders b) + mset (held_by (f (group_of b gid)))"
proof -
  have "mset (case map_of (groups b) gid of None \<Rightarrow> [] | Some w \<Rightarrow> held_by w) = mset (held_by (group_of b gid))"
    by (simp add: group_of_def split: option.split)
  with mset_concat_update [of held_by gid "f (group_of b gid)" "groups b"] show ?thesis
    by (simp add: pending_orders_alt upd_group_def)
qed

lemma upd_group_frame [simp]:
  "ladder (upd_group gid f b) = ladder b" "orders (upd_group gid f b) = orders b"
  "pegged (upd_group gid f b) = pegged b" "stops (upd_group gid f b) = stops b"
  "opening_auction (upd_group gid f b) = opening_auction b" "closing_auction (upd_group gid f b) = closing_auction b"
  "order_group (upd_group gid f b) = order_group b" "live_keys (upd_group gid f b) = live_keys b"
  "group_of (upd_group gid f b) gid = f (group_of b gid)"
  by (simp_all add: upd_group_def live_keys_def) (simp add: group_of_def)

lemma upd_group_evolves: "evolves b (upd_group gid f b)"
  by (rule evolves_silent) (simp_all add: upd_group_def position_of_def)

lemma order_group_evolves: "evolves b (b\<lparr>order_group := m\<rparr>)"
  by (rule evolves_silent) (simp_all add: position_of_def)

lemma held_orders_order_group [simp]:
  "held_orders (b\<lparr>order_group := m\<rparr>) = held_orders b" "pending_orders (b\<lparr>order_group := m\<rparr>) = pending_orders b"
  "live_keys (b\<lparr>order_group := m\<rparr>) = live_keys b" "all_ids (b\<lparr>order_group := m\<rparr>) = all_ids b"
  by (simp_all add: held_orders_def pending_orders_def live_keys_def all_ids_def)

lemma order_group_progress:
  assumes "book_ok b"
  shows "progress 0 {} b (b\<lparr>order_group := m\<rparr>)"
proof -
  let ?b = "b\<lparr>order_group := m\<rparr>"
  have "book_core ?b" by (rule book_core_cong [of b]) (use assms in \<open>simp_all add: book_ok_def\<close>)
  moreover have "pools_ok ?b" using assms by (simp add: pools_ok_alt book_ok_def)
  ultimately show ?thesis
    using assms order_group_evolves [of b m] by (simp add: progress_def book_ok_def caches_ok_def)
qed

text \<open>A change of a group that holds no new order.\<close>

lemma upd_group_shrink:
  assumes ok: "book_ok b" and held: "mset (held_by (group_of b gid)) = mset q + mset (held_by (f (group_of b gid)))"
  shows "progress 0 {} b (upd_group gid f b)" "\<forall>x \<in> set q. oid x \<in> all_ids b \<and> oid x \<notin> all_ids (upd_group gid f b) \<and> 0 < leaves x \<and> admissible x"
    "distinct (map oid q)" "length (pending_orders b) = length q + length (pending_orders (upd_group gid f b))"
proof -
  let ?b = "upd_group gid f b"
  have po: "pools_ok b" using ok by (simp add: book_ok_def)
  have pend: "mset (pending_orders b) = mset q + mset (pending_orders ?b)"
    using mset_pending_upd [of gid f b] held by (simp add: add.commute [of "mset q"] eq_commute)
  then have m: "mset (held_orders b) = mset q + mset (held_orders ?b)"
    by (simp add: held_orders_def)
  have core: "book_core ?b" by (rule book_core_cong [of b]) (use ok in \<open>simp_all add: book_ok_def\<close>)
  have po': "pools_ok ?b"
    by (rule pools_ok_move [OF po _ _ _ m]) (use book_coreD(4) [OF core] in simp_all)
  have sets: "set (held_orders b) = set q \<union> set (held_orders ?b)" using arg_cong [OF m, of set_mset] by simp
  show len: "length (pending_orders b) = length q + length (pending_orders ?b)"
    using arg_cong [OF pend, of size] by simp
  have "all_ids ?b \<subseteq> all_ids b" unfolding all_ids_def sets by auto
  with core po' len ok show "progress 0 {} b ?b"
    by (simp add: progress_def book_ok_def caches_ok_def upd_group_evolves)
  have "distinct (map oid (held_orders b))" using po by (simp add: pools_ok_alt)
  moreover have "mset (map oid (held_orders b)) = mset (map oid (q @ held_orders ?b))" using m by simp
  ultimately have d: "distinct (map oid (q @ held_orders ?b))" using mset_eq_imp_distinct_iff by blast
  then show "distinct (map oid q)" by simp
  show "\<forall>x \<in> set q. oid x \<in> all_ids b \<and> oid x \<notin> all_ids ?b \<and> 0 < leaves x \<and> admissible x"
  proof
    fix x assume x: "x \<in> set q"
    then have mem: "x \<in> set (held_orders b)" using sets by simp
    then have "oid x \<notin> live_keys b" using pools_disjoint(2) [OF po] by blast
    moreover have "oid x \<notin> oid ` set (held_orders ?b)" using d x by auto
    moreover have "0 < leaves x \<and> admissible x" using po mem by (simp add: pools_ok_alt)
    ultimately show "oid x \<in> all_ids b \<and> oid x \<notin> all_ids ?b \<and> 0 < leaves x \<and> admissible x"
      using mem by (simp add: all_ids_def)
  qed
qed

lemma upd_group_same:
  "book_ok b \<Longrightarrow> held_by (f (group_of b gid)) = held_by (group_of b gid) \<Longrightarrow> progress 0 {} b (upd_group gid f b)"
  by (rule upd_group_shrink(1) [where q = "[]"]) simp_all

text \<open>An order joins those that wait.\<close>

lemma distinct_mset_le: "mset xs \<subseteq># mset ys \<Longrightarrow> distinct ys \<Longrightarrow> distinct xs"
proof -
  assume "mset xs \<subseteq># mset ys" and d: "distinct ys"
  then obtain Z where "mset ys = mset xs + Z" by (auto simp: mset_subset_eq_exists_conv)
  moreover obtain zs where "Z = mset zs" by (metis ex_mset)
  ultimately have "mset ys = mset (xs @ zs)" by simp
  with d have "distinct (xs @ zs)" using mset_eq_imp_distinct_iff by blast
  then show "distinct xs" by simp
qed

lemma hold_progress:
  assumes ok: "book_ok b" and x: "oid x \<notin> all_ids b" "0 < leaves x" "admissible x"
    and frame: "ladder b' = ladder b" "orders b' = orders b" "pegged b' = pegged b" "stops b' = stops b" "evolves b b'"
    and held: "mset (held_orders b') \<subseteq># add_mset x (mset (held_orders b))"
    and pend: "length (pending_orders b') \<le> k + length (pending_orders b)"
  shows "progress k {oid x} b b'"
proof -
  have po: "pools_ok b" using ok by (simp add: book_ok_def)
  have core: "book_core b'" by (rule book_core_cong [of b]) (use ok frame in \<open>simp_all add: book_ok_def\<close>)
  have sets: "set (held_orders b') \<subseteq> insert x (set (held_orders b))"
    using set_mset_mono [OF held] by simp
  have "mset (map oid (held_orders b')) \<subseteq># mset (map oid (x # held_orders b))"
    using image_mset_subseteq_mono [OF held, of oid] by simp
  moreover have "distinct (map oid (x # held_orders b))"
    using po x(1) by (simp add: pools_ok_alt all_ids_def)
  ultimately have d: "distinct (map oid (held_orders b'))" by (rule distinct_mset_le)
  have lk: "live_keys b' = live_keys b" using frame by (simp add: live_keys_def)
  have sub: "oid ` set (held_orders b') \<subseteq> insert (oid x) (oid ` set (held_orders b))"
    using image_mono [OF sets, of oid] by simp
  have "live_keys b \<inter> oid ` set (held_orders b) = {}"
    using po by (simp add: pools_ok_alt live_keys_def Int_Un_distrib Int_Un_distrib2)
  moreover have "oid x \<notin> live_keys b" using x(1) by (simp add: all_ids_def)
  ultimately have "live_keys b \<inter> oid ` set (held_orders b') = {}"
    using disjoint_insert_subset [OF _ sub, of "live_keys b"] by (simp add: Int_commute)
  then have "set (map fst (orders b)) \<inter> oid ` set (held_orders b') = {}" "set (map fst (stops b)) \<inter> oid ` set (held_orders b') = {}"
    by (simp_all add: live_keys_def Int_Un_distrib2)
  moreover have "\<forall>y \<in> set (held_orders b'). 0 < leaves y \<and> admissible y" using sets x(2,3) po by (auto simp: pools_ok_alt)
  ultimately have "pools_ok b'"
    using po d by (simp add: pools_ok_alt frame Int_Un_distrib)
  moreover have "L \<union> H' \<subseteq> {i} \<union> (L \<union> H)" if "H' \<subseteq> insert i H" for L H H' :: "OrderId set" and i using that by blast
  from this [OF sub] have "all_ids b' \<subseteq> {oid x} \<union> all_ids b" unfolding all_ids_def lk .
  ultimately show ?thesis
    using core ok frame pend by (simp add: progress_def book_ok_def caches_ok_def)
qed

subsection \<open>Releasing children\<close>

definition well_formed :: "Order \<Rightarrow> bool" where
  "well_formed x \<longleftrightarrow> (HasFlag (flags x) kIceberg \<longrightarrow> 0 \<le> display_qty x \<and> \<not> HasFlag (flags x) kHidden)"

definition is_child :: "Order \<Rightarrow> bool" where
  "is_child x \<longleftrightarrow> (\<exists>l. link x = Some l \<and> link_role l \<in> {OtoChild, BracketTakeProfit, BracketStopLoss})"

definition sub_ok :: "nat \<Rightarrow> submission \<Rightarrow> bool" where
  "sub_ok n sub \<longleftrightarrow> (\<forall>x b. book_ok b \<longrightarrow> oid x \<notin> all_ids b \<longrightarrow> well_formed x \<longrightarrow> \<not> is_child x
     \<longrightarrow> length (pending_orders b) < n
     \<longrightarrow> (\<exists>out b'. sub x b = Some (out, b') \<and> progress 0 {oid x} b b' \<and> positive (trades out)))"

lemma admissible_well_formed: "admissible x \<Longrightarrow> well_formed x"
  by (auto simp: admissible_def well_formed_def)

lemma append_trades_positive [simp]:
  "positive (trades (append_trades out co)) \<longleftrightarrow> positive (trades out) \<and> positive (trades co)"
  by (simp add: append_trades_def)

lemma released_ok [simp]:
  "oid (c\<lparr>link := l\<rparr>) = oid c" "well_formed (c\<lparr>link := l\<rparr>) = well_formed c"
  "\<not> is_child (c\<lparr>link := None\<rparr>)" "\<not> is_child (c\<lparr>link := Some \<lparr>link_role = OcoLeg, group_id = gid\<rparr>\<rparr>)"
  by (simp_all add: well_formed_def is_child_def)

lemma release_child_ok:
  assumes sub: "sub_ok n sub" and ok: "book_ok b" and n: "length (pending_orders b) \<le> n"
  shows "\<exists>out' b'. release_child sub gid out b = Some (out', b') \<and> progress 0 {} b b'
    \<and> (positive (trades out) \<longrightarrow> positive (trades out'))"
proof (cases "pending_child (group_of b gid)")
  case None
  then show ?thesis using progress_refl [OF ok] by (simp add: release_child_def)
next
  case (Some c)
  let ?f = "\<lambda>g. g\<lparr>pending_child := None\<rparr>" let ?b = "upd_group gid ?f b"
  have "mset (held_by (group_of b gid)) = mset [c] + mset (held_by (?f (group_of b gid)))"
    by (simp add: held_by_def Some)
  note S = upd_group_shrink [where f = ?f and gid = gid, OF ok this]
  have "length (pending_orders ?b) < n" using S(4) n by simp
  moreover have "well_formed c" using S(2) admissible_well_formed by simp
  ultimately obtain co b' where r: "sub (c\<lparr>link := None\<rparr>) ?b = Some (co, b')" "progress 0 {oid c} ?b b'" "positive (trades co)"
    using sub [unfolded sub_ok_def, rule_format, OF progress_ok [OF S(1)], of "c\<lparr>link := None\<rparr>"] S(2) by auto
  have "progress 0 {oid c} b b'" using progress_trans0 [OF S(1) r(2)] .
  then have "progress 0 {} b b'" by (rule progress_known) (use S(2) in simp)
  with r Some show ?thesis by (simp add: release_child_def)
qed

lemma release_legs_ok:
  assumes sub: "sub_ok n sub"
  shows "book_ok b \<Longrightarrow> cs = [] \<or> length (pending_orders b) < n \<Longrightarrow> distinct (map oid cs)
    \<Longrightarrow> \<forall>c \<in> set cs. oid c \<notin> all_ids b \<and> admissible c
    \<Longrightarrow> \<exists>out' b'. release_legs sub gid cs out b = Some (out', b') \<and> progress 0 (oid ` set cs) b b'
      \<and> (positive (trades out) \<longrightarrow> positive (trades out'))"
proof (induction cs arbitrary: b out)
  case Nil
  then show ?case using progress_refl by simp
next
  case (Cons c cs)
  let ?c = "c\<lparr>link := Some \<lparr>link_role = OcoLeg, group_id = gid\<rparr>\<rparr>"
  have "well_formed c" "length (pending_orders b) < n" "oid c \<notin> all_ids b"
    using Cons.prems(2,4) admissible_well_formed by auto
  then obtain co b1 where r: "sub ?c b = Some (co, b1)" "progress 0 {oid c} b b1" "positive (trades co)"
    using sub [unfolded sub_ok_def, rule_format, OF Cons.prems(1), of ?c] by auto
  have len: "length (pending_orders b1) < n" using r(2) Cons.prems(2) by (simp add: progress_def)
  have fresh: "\<forall>d \<in> set cs. oid d \<notin> all_ids b1 \<and> admissible d"
  proof
    fix d assume d: "d \<in> set cs"
    then have "oid d \<in> oid ` set cs" by simp
    then have "oid d \<noteq> oid c" using Cons.prems(3) by auto
    moreover have "oid d \<notin> all_ids b" "admissible d" using Cons.prems(4) d by auto
    moreover have "all_ids b1 \<subseteq> {oid c} \<union> all_ids b" using r(2) by (simp add: progress_def)
    ultimately show "oid d \<notin> all_ids b1 \<and> admissible d" by auto
  qed
  from Cons.IH [OF progress_ok [OF r(2)], of "append_trades out co"] len fresh Cons.prems(3) obtain out' b'
    where s: "release_legs sub gid cs (append_trades out co) b1 = Some (out', b')" "progress 0 (oid ` set cs) b1 b'"
      "positive (trades (append_trades out co)) \<longrightarrow> positive (trades out')" by auto
  have "progress 0 (oid ` set (c # cs)) b b'" using progress_trans [OF r(2) s(2)] by simp
  with r s show ?case by simp
qed

lemma release_children_ok:
  assumes sub: "sub_ok n sub" and ok: "book_ok b" and n: "length (pending_orders b) \<le> n"
  shows "\<exists>out' b'. release_children sub gid out b = Some (out', b') \<and> progress 0 {} b b'
    \<and> (positive (trades out) \<longrightarrow> positive (trades out'))"
proof -
  from release_child_ok [OF sub ok n] obtain out1 b1 where c: "release_child sub gid out b = Some (out1, b1)"
    "progress 0 {} b b1" "positive (trades out) \<longrightarrow> positive (trades out1)" by blast
  let ?f = "\<lambda>g. g\<lparr>pending_oco := []\<rparr>" let ?b = "upd_group gid ?f b1" let ?cs = "pending_oco (group_of b1 gid)"
  have "mset (held_by (group_of b1 gid)) = mset ?cs + mset (held_by (?f (group_of b1 gid)))"
    by (simp add: held_by_def)
  note S = upd_group_shrink [where f = ?f and gid = gid, OF progress_ok [OF c(2)] this]
  have "length (pending_orders b1) \<le> n" using c(2) n by (simp add: progress_def)
  then have "?cs = [] \<or> length (pending_orders ?b) < n" using S(4) by (cases ?cs) auto
  from release_legs_ok [OF sub progress_ok [OF S(1)] this S(3), of gid out1] S(2) obtain out' b'
    where l: "release_legs sub gid ?cs out1 ?b = Some (out', b')" "progress 0 (oid ` set ?cs) ?b b'"
      "positive (trades out1) \<longrightarrow> positive (trades out')" by blast
  have "progress 0 (oid ` set ?cs) b1 b'" using S(1) l(2) by (rule progress_trans0)
  then have "progress 0 {} b1 b'" by (rule progress_known) (use S(2) in auto)
  with c(2) have "progress 0 {} b b'" by (rule progress_trans0)
  with c l show ?thesis by (simp add: release_children_def)
qed

subsection \<open>Reacting to fills of contingent orders\<close>

lemma cancel_siblings_ok: "book_ok b \<Longrightarrow> \<exists>b'. cancel_siblings i js b = Some b' \<and> progress 0 {} b b' \<and> groups b' = groups b"
proof (induction js arbitrary: b)
  case Nil
  then show ?case by (simp add: progress_refl)
next
  case (Cons j js)
  show ?case
  proof (cases "j = i")
    case True
    then show ?thesis using Cons by simp
  next
    case False
    let ?b = "b\<lparr>order_group := (order_group b)(j := None)\<rparr>"
    note p = order_group_progress [OF Cons.prems, of "(order_group b)(j := None)"]
    from cancel_ok [OF progress_ok [OF p], of j] obtain r b1 where c: "cancel j ?b = Some (r, b1)" "progress 0 {} ?b b1"
      "cancels j ?b b1" by blast
    from Cons.IH [OF progress_ok [OF c(2)]] obtain b2 where s: "cancel_siblings i js b1 = Some b2" "progress 0 {} b1 b2"
      "groups b2 = groups b1" by blast
    have "progress 0 {} b b2" using progress_trans0 [OF progress_trans0 [OF p c(2)] s(2)] .
    with False c s show ?thesis by (simp add: cancels_def)
  qed
qed

lemma settle_oco_ok:
  assumes ok: "book_ok b"
  shows "\<exists>b'. settle_oco gid i b = Some b' \<and> progress 0 {} b b'"
proof (cases "i \<in> set (oco_legs (group_of b gid))")
  case False
  then show ?thesis using progress_refl [OF ok] by (simp add: settle_oco_def)
next
  case True
  from cancel_siblings_ok [OF ok, of i "oco_legs (group_of b gid)"] obtain b1
    where c: "cancel_siblings i (oco_legs (group_of b gid)) b = Some b1" "progress 0 {} b b1" by blast
  let ?b2 = "upd_group gid (\<lambda>g. g\<lparr>oco_legs := []\<rparr>) b1"
  have p2: "progress 0 {} b1 ?b2" by (rule upd_group_same [OF progress_ok [OF c(2)]]) (simp add: held_by_def)
  note p3 = order_group_progress [OF progress_ok [OF p2], of "(order_group ?b2)(i := None)"]
  from progress_trans0 [OF progress_trans0 [OF c(2) p2] p3] True c(1) show ?thesis
    by (simp add: settle_oco_def)
qed

lemma link_fill_ok:
  assumes sub: "sub_ok n sub" and ok: "book_ok b" and n: "length (pending_orders b) \<le> n"
  shows "\<exists>out' b'. link_fill sub x i out b = Some (out', b') \<and> progress 0 {} b b'
    \<and> (positive (trades out) \<longrightarrow> positive (trades out'))"
proof (cases "fill_group x i b")
  case None
  then show ?thesis using progress_refl [OF ok] by (simp add: link_fill_def)
next
  case (Some gid)
  from settle_oco_ok [OF ok] obtain b1 where b1: "settle_oco gid i b = Some b1" "progress 0 {} b b1" by blast
  have "length (pending_orders b1) \<le> n" using b1(2) n by (simp add: progress_def)
  from release_children_ok [OF sub progress_ok [OF b1(2)] this] obtain out' b2
    where r: "release_children sub gid out b1 = Some (out', b2)" "progress 0 {} b1 b2"
      "positive (trades out) \<longrightarrow> positive (trades out')" by blast
  from progress_trans0 [OF b1(2) r(2)] r b1 Some progress_refl [OF ok] show ?thesis
    by (simp add: link_fill_def)
qed

lemma link_fills_ok:
  assumes sub: "sub_ok n sub"
  shows "book_ok b \<Longrightarrow> length (pending_orders b) \<le> n \<Longrightarrow>
    \<exists>out' b'. link_fills sub x is out b = Some (out', b') \<and> progress 0 {} b b'
    \<and> (positive (trades out) \<longrightarrow> positive (trades out'))"
proof (induction "is" arbitrary: b out)
  case Nil
  then show ?case using progress_refl by simp
next
  case (Cons i "is")
  from link_fill_ok [OF sub Cons.prems] obtain out1 b1
    where f: "link_fill sub x i out b = Some (out1, b1)" "progress 0 {} b b1"
      "positive (trades out) \<longrightarrow> positive (trades out1)" by blast
  have "length (pending_orders b1) \<le> n" using f(2) Cons.prems(2) by (simp add: progress_def)
  from Cons.IH [OF progress_ok [OF f(2)] this] obtain out2 b2
    where g: "link_fills sub x is out1 b1 = Some (out2, b2)" "progress 0 {} b1 b2"
      "positive (trades out1) \<longrightarrow> positive (trades out2)" by blast
  from progress_trans0 [OF f(2) g(2)] f g show ?case by simp
qed

subsection \<open>The steps of a submission\<close>

lemma cong_progress:
  assumes "book_ok b" "ladder b' = ladder b" "orders b' = orders b" "pegged b' = pegged b" "pools_eq b b'" "evolves b b'"
  shows "progress 0 {} b b'"
proof -
  have "book_core b'" by (rule book_core_cong [of b]) (use assms in \<open>simp_all add: book_ok_def\<close>)
  moreover have "pools_ok b'" by (rule pools_ok_cong [OF _ assms(5)]) (use assms in \<open>simp_all add: book_ok_def\<close>)
  ultimately show ?thesis
    using assms by (simp add: progress_def book_ok_def caches_ok_def all_ids_cong [OF _ assms(5)] pending_pools_eq [OF assms(5)])
qed

lemma next_seq_progress: "book_ok b \<Longrightarrow> progress 0 {} b (b\<lparr>next_seq := Suc (next_seq b)\<rparr>)"
  by (rule cong_progress) (auto simp: pools_eq_def intro: evolves_silent simp: position_of_def)

lemma crosses_alt:
  "snd (crosses x b) = upd_ladder b (Opposite (side x)) (\<lambda>_. snd (ladder_best (ladder b (Opposite (side x)))))"
  "fst (crosses x b) = (case fst (ladder_best (ladder b (Opposite (side x)))) of None \<Rightarrow> False | Some p \<Rightarrow> acceptable x p)"
  by (simp_all add: crosses_def Let_def split_def split: option.split)

lemma read_best_progress:
  assumes ok: "book_ok b"
  shows "progress 0 {} b (upd_ladder b s (\<lambda>_. snd (ladder_best (ladder b s))))"
proof -
  let ?L = "snd (ladder_best (ladder b s))" let ?b = "upd_ladder b s (\<lambda>_. ?L)"
  have core: "book_core b" and caches: "caches_ok b" using ok by (simp_all add: book_ok_def)
  have lad: "ladder ?b t = (if t = s then ?L else ladder b t)" for t by simp
  have lv: "lvl ?b = lvl b" by (simp add: fun_eq_iff lvl_def ladder_best_frame)
  have pe: "pools_eq b ?b" by (simp add: pools_eq_def)
  have "book_core ?b"
    by (rule book_coreI) (use book_coreD [OF core] lad lv in \<open>simp_all add: ladder_best_frame\<close>)
  moreover have "caches_ok ?b"
    using caches ladder_best_cache_ok [OF book_coreD(2) [OF core], of s] by (simp add: caches_ok_def lad)
  moreover have "pools_ok ?b" by (rule pools_ok_cong [OF _ pe]) (use ok in \<open>simp_all add: book_ok_def\<close>)
  moreover have "evolves b ?b" by (rule evolves_silent) simp_all
  moreover have "all_ids ?b = all_ids b" by (rule all_ids_cong [OF _ pe]) simp
  ultimately show ?thesis by (simp add: progress_def book_ok_def pending_pools_eq [OF pe])
qed

lemma crosses_progress: "book_ok b \<Longrightarrow> progress 0 {} b (snd (crosses x b))"
  unfolding crosses_alt by (rule read_best_progress)

lemma match_progress:
  assumes ok: "book_ok b" and nn: "0 \<le> leaves x"
  shows "\<exists>c x' b' new. match_order x b ts = Some (c, x', b', ts @ new) \<and> match_post x b new (c, x', b')
    \<and> progress 0 {} b b' \<and> fills (acceptable x) x new x'"
proof -
  have core: "book_core b" and caches: "caches_ok b" and po: "pools_ok b" using ok by (simp_all add: book_ok_def)
  from match_order_ok [OF core nn] obtain c x' b' new
    where m: "match_order x b ts = Some (c, x', b', ts @ new)" and post: "match_post x b new (c, x', b')" by blast
  have M: "match_ok (Opposite (side x)) b b'" and f: "fills (acceptable x) x new x'"
    using post by (simp_all add: match_post_def Let_def)
  have b': "book_core b'" "caches_ok b'" "evolves b b'" "pools_eq b b'" "keys_le b b'"
    using M caches by (simp_all add: match_ok_def)
  have "pools_ok b'"
    by (rule pools_ok_shrink [OF po waiting_pools_eq [OF b'(4)] _ book_coreD(4) [OF b'(1)] b'(5)])
      (use b'(4) in \<open>simp add: pools_eq_def\<close>)
  moreover have "all_ids b' \<subseteq> {} \<union> all_ids b"
    by (rule all_ids_grow [OF _ b'(4)]) (use keys_le_keys [OF b'(5)] in simp)
  ultimately have "progress 0 {} b b'" using b' by (simp add: progress_def book_ok_def pending_pools_eq)
  with m post f show ?thesis by blast
qed

lemma enterableI:
  assumes "book_ok b" "oid x \<notin> all_ids b" "0 < leaves x" "admissible x"
  shows "enterable x b"
proof -
  have "\<forall>kv \<in> set (stops b). stop_entry_ok kv" using assms(1) by (simp add: book_ok_def pools_ok_alt)
  from arg_cong [OF stop_entries_oid [OF this], of set] have "oid ` set (map snd (stops b)) = fst ` set (stops b)"
    by (simp add: image_image)
  then have "oid ` set (waiting b) = fst ` set (stops b) \<union> oid ` set (held_orders b)"
    unfolding waiting_split set_append image_Un by simp
  with assms show ?thesis by (simp add: enterable_def all_ids_def live_keys_def)
qed

lemma evaluate_progress:
  assumes "book_ok b"
  shows "\<exists>b' new. evaluate_stops b ts = Some (b', ts @ new) \<and> progress 0 {} b b' \<and> positive new \<and> quiescent b' \<and> held_eq b b'"
proof -
  from evaluate_stops_ok [OF assms, of ts] obtain b' ts'
    where e: "evaluate_stops b ts = Some (b', ts')" "cascade_ok b ts (b', ts')" "quiescent b'" by blast
  then obtain new where c: "ts' = ts @ new" "positive new" "book_ok b'" "evolves b b'" "held_eq b b'" "live_keys b' \<subseteq> live_keys b"
    unfolding cascade_ok_def by auto
  have "all_ids b' \<subseteq> all_ids b"
    unfolding all_ids_def held_eq_orders [OF c(5)] by (rule Un_mono [OF c(6) subset_refl])
  moreover have "pending_orders b' = pending_orders b" using c(5) by (simp add: held_eq_def pending_orders_def)
  ultimately show ?thesis using e c by (simp add: progress_def)
qed

lemma inject_progress:
  assumes ok: "book_ok b" and x: "oid x \<notin> all_ids b" "0 < leaves x" "admissible x"
  shows "\<exists>x' b' new. inject x b ts = Some (x', b', ts @ new) \<and> progress 0 {oid x} b b' \<and> positive new"
proof -
  from inject_ok [OF ok enterableI [OF ok x], of ts] obtain x' b' new
    where r: "inject x b ts = Some (x', b', ts @ new)" "book_ok b'" "evolves b b'" "pools_eq b b'"
      "fills (acceptable x) x new x'" "set (map fst (orders b')) \<subseteq> insert (oid x) (set (map fst (orders b)))"
    by (elim exE conjE) (rule that; assumption)
  have "all_ids b' \<subseteq> {oid x} \<union> all_ids b" by (rule all_ids_grow [OF _ r(4)]) (use r(6) in simp)
  with r show ?thesis by (simp add: progress_def pending_pools_eq fills_positive)
qed

lemma rest_progress:
  assumes ok: "book_ok b" and x: "oid x \<notin> all_ids b" "0 < leaves x" "admissible x"
    and r: "rest_outcome x out b = (out', b')"
  shows "progress 0 {oid x} b b'" "trades out' = trades out"
    "omap b' (oid x) = (if rested out' then Some \<lparr>e_order = x, slice = initial_slice x\<rparr> else None)"
    "rested_deep out' = (\<not> rested out')"
proof -
  obtain resident ev b1 where rest: "rest x b = (resident, ev, b1)" by (metis prod_cases3)
  with r have b1: "b1 = b'" and out': "rested out' = resident" "trades out' = trades out" "rested_deep out' = (\<not> resident)"
    by (auto simp: rest_outcome_def)
  have core: "book_core b" and po: "pools_ok b" using ok by (simp_all add: book_ok_def)
  have fresh: "omap b (oid x) = None" by (rule omap_None) (use x(1) in \<open>simp add: all_ids_def\<close>)
  have R: "book_core b'" "evolves b b'" "pools_eq b b'" "caches_ok b \<longrightarrow> caches_ok b'"
    "omap b' (oid x) = (if resident then Some \<lparr>e_order = x, slice = initial_slice x\<rparr> else None)"
    "set (map fst (orders b')) \<subseteq> insert (oid x) (set (map fst (orders b)))"
    using rest_step [OF core fresh x(2,3) rest] by (simp_all add: b1)
  have "oid x \<notin> oid ` set (waiting b)" using enterableI [OF ok x] by (simp add: enterable_def)
  then have "pools_ok b'" by (rule pools_ok_grow [OF po R(3,1,6)])
  moreover have "all_ids b' \<subseteq> {oid x} \<union> all_ids b" by (rule all_ids_grow [OF _ R(3)]) (use R(6) in simp)
  ultimately show "progress 0 {oid x} b b'"
    using R ok by (simp add: progress_def book_ok_def pending_pools_eq)
  show "trades out' = trades out"
    "omap b' (oid x) = (if rested out' then Some \<lparr>e_order = x, slice = initial_slice x\<rparr> else None)"
    "rested_deep out' = (\<not> rested out')" using out' R(5) by simp_all
qed

subsection \<open>The paths of submit\<close>

text \<open>What a path owes: it returns, the book progresses, executions are positive.\<close>

definition path_ok :: "nat \<Rightarrow> Order \<Rightarrow> Book \<Rightarrow> (SubmitOutcome \<times> Book) option \<Rightarrow> bool" where
  "path_ok k x b r \<longleftrightarrow> (\<exists>out b'. r = Some (out, b') \<and> progress k {oid x} b b' \<and> positive (trades out))"

lemma path_okI: "r = Some (out, b') \<Longrightarrow> progress k {oid x} b b' \<Longrightarrow> positive (trades out) \<Longrightarrow> path_ok k x b r"
  by (auto simp: path_ok_def)

lemma path_ok_trans: "progress 0 {} a b \<Longrightarrow> path_ok k x b r \<Longrightarrow> path_ok k x a r"
  unfolding path_ok_def using progress_trans0 by blast

lemma path_ok_same: "oid y = oid x \<Longrightarrow> path_ok k y b r \<Longrightarrow> path_ok k x b r"
  by (simp add: path_ok_def)

lemma path_ok_reject: "book_ok b \<Longrightarrow> positive (trades out) \<Longrightarrow> path_ok k x b (Some (reject reason out, b))"
  by (rule path_okI [OF refl]) (auto intro: progress_mono [OF progress_refl] simp: reject_def)

lemma register_link_progress:
  assumes "book_ok b"
  shows "progress 0 {} b (register_link x out b)"
proof (cases "link x")
  case None
  then show ?thesis using progress_refl [OF assms] by (simp add: register_link_def)
next
  case (Some l)
  let ?b1 = "if link_role l = OcoLeg then upd_group (group_id l) (\<lambda>g. g\<lparr>oco_legs := oco_legs g @ [oid x]\<rparr>) b
    else if link_role l = OtoParent \<or> link_role l = BracketParent
    then upd_group (group_id l) (\<lambda>g. g\<lparr>parent := oid x\<rparr>) b else b"
  have p1: "progress 0 {} b ?b1" using upd_group_same [OF assms] progress_refl [OF assms] by (simp add: held_by_def)
  from progress_trans0 [OF p1 order_group_progress [OF progress_ok [OF p1]]] p1 show ?thesis
    unfolding register_link_def Some option.case Let_def by (cases "rested out") (simp_all only: if_True if_False)
qed

lemma submit_match_ok:
  assumes sub: "sub_ok n sub" and ok: "book_ok b" and n: "length (pending_orders b) \<le> n"
    and x: "oid x \<notin> all_ids b" "0 < leaves x" "admissible x" and out: "positive (trades out)"
  shows "path_ok 0 x b (submit_match sub x out b)"
proof -
  from match_progress [OF ok, of x "trades out"] x(2) obtain c x1 b1 new
    where m: "match_order x b (trades out) = Some (c, x1, b1, trades out @ new)" "progress 0 {} b b1" "fills (acceptable x) x new x1"
    by auto
  let ?out1 = "out\<lparr>trades := trades out @ new, out_filled := filled x1\<rparr>"
  obtain out2 b2 where r: "(if rests x1 \<and> \<not> c then rest_outcome x1 ?out1 b1 else (?out1, b1)) = (out2, b2)"
    by (metis prod.exhaust)
  have oid1: "oid x1 = oid x" by (rule fills_frame(2) [OF m(3)])
  have fresh: "oid x1 \<notin> all_ids b1" using m(2) x(1) oid1 by (auto simp: progress_def)
  have p2: "progress 0 {oid x} b1 b2 \<and> trades out2 = trades out @ new"
  proof (cases "rests x1 \<and> \<not> c")
    case True
    then have "0 < leaves x1" "admissible x1" using x(3) fills_admissible [OF m(3)] by (simp_all add: rests_def)
    from rest_progress(1,2) [OF progress_ok [OF m(2)] fresh this, of ?out1] True r oid1 show ?thesis by simp
  next
    case False
    then have "b2 = b1" "out2 = ?out1" using r unfolding if_not_P [OF False] by simp_all
    then show ?thesis using progress_mono [OF progress_refl [OF progress_ok [OF m(2)]]] by simp
  qed
  have "\<exists>b3 new2. (if trades out2 \<noteq> [] then evaluate_stops b2 (trades out2) else Some (b2, trades out2)) =
      Some (b3, trades out2 @ new2) \<and> progress 0 {} b2 b3 \<and> positive new2"
  proof (cases "trades out2 = []")
    case True
    have "progress 0 {} b2 b2" by (rule progress_refl [OF progress_ok]) (use p2 in blast)
    with True show ?thesis by (intro exI [of _ b2] exI [of _ "[]"]) simp
  next
    case False
    have "book_ok b2" by (rule progress_ok) (use p2 in blast)
    from evaluate_progress [OF this, of "trades out2"] False show ?thesis by auto
  qed
  then obtain b3 new2 where e: "(if trades out2 \<noteq> [] then evaluate_stops b2 (trades out2) else Some (b2, trades out2)) =
      Some (b3, trades out2 @ new2)" "progress 0 {} b2 b3" "positive new2" by blast
  obtain b4 where b4: "reprice_pegs b3 = Some b4" "progress 0 {} b3 b4" by (rule reprice_progress [OF progress_ok [OF e(2)]])
  let ?out3 = "out2\<lparr>trades := trades out2 @ new2\<rparr>"
  note p5 = register_link_progress [OF progress_ok [OF b4(2)], of x1 ?out3]
  let ?b5 = "register_link x1 ?out3 b4"
  have p: "progress 0 {oid x} b ?b5"
    using progress_trans1 [OF progress_trans1 [OF progress_trans1 [OF progress_trans0 [OF m(2)] e(2)] b4(2)] p5] p2 by blast
  then have "length (pending_orders ?b5) \<le> n" using n by (simp add: progress_def)
  from link_fills_ok [OF sub progress_ok [OF p] this, of x1 "linked_fills x1 (trades ?out3) ?b5" ?out3] obtain out' b'
    where l: "process_link_fills sub x1 ?out3 ?b5 = Some (out', b')" "progress 0 {} ?b5 b'"
      "positive (trades ?out3) \<longrightarrow> positive (trades out')" unfolding process_link_fills_def by blast
  have "submit_match sub x out b = Some (out', b')"
    using m(1) r e(1) b4(1) l(1) by (simp add: submit_match_def Let_def)
  moreover have "positive (trades out')" using l(3) p2 e(3) out fills_positive [OF m(3)] by simp
  ultimately show ?thesis using path_okI progress_trans1 [OF p l(2)] by blast
qed

lemma submit_active_ok:
  assumes sub: "sub_ok n sub" and ok: "book_ok b" and n: "length (pending_orders b) \<le> n"
    and x: "oid x \<notin> all_ids b" "0 < leaves x" "admissible x" and out: "positive (trades out)"
  shows "path_ok 0 x b (submit_active sub x out b)"
proof (cases "HasFlag (flags x) kAon \<and> available_fill x b < leaves x")
  case False
  have "submit_active sub x out b =
      (case min_qty_error x b of Some reason \<Rightarrow> Some (reject reason out, b) | None \<Rightarrow> submit_match sub x out b)"
    unfolding submit_active_def if_not_P [OF False] by (rule refl)
  then show ?thesis
    using submit_match_ok [OF assms] path_ok_reject [OF ok out] by (simp split: option.split)
next
  case aon: True
  obtain out1 b1 where r: "rest_outcome x out b = (out1, b1)" by (metis prod.exhaust)
  note R = rest_progress [OF ok x r]
  obtain b2 where b2: "reprice_pegs b1 = Some b2" "progress 0 {} b1 b2" by (rule reprice_progress [OF progress_ok [OF R(1)]])
  have "path_ok 0 x b (Some (out1, b2))"
    by (rule path_okI [OF refl progress_trans1 [OF R(1) b2(2)]]) (use R(2) out in simp)
  then show ?thesis
    using aon r b2(1) path_ok_reject [OF ok out] by (simp add: submit_active_def)
qed

lemma reduce_only_cap_ok:
  assumes "reduce_only_cap x b = Inr y" "0 < leaves x" "admissible x"
  shows "oid y = oid x" "0 < leaves y" "admissible y" "link y = link x"
  using assms by (auto simp: reduce_only_cap_def Let_def admissible_def split: if_splits)

lemma submit_continuous_ok:
  assumes sub: "sub_ok n sub" and ok: "book_ok b" and n: "length (pending_orders b) \<le> n"
    and x: "oid x \<notin> all_ids b" "0 < leaves x" "admissible x" and out: "positive (trades out)"
  shows "path_ok 0 x b (submit_continuous sub x out b)"
proof -
  obtain would_cross b1 where c: "(if HasFlag (flags x) kPostOnly then crosses x b else (False, b)) = (would_cross, b1)"
    by (metis prod.exhaust)
  have p: "progress 0 {} b b1"
    using c crosses_progress [OF ok, of x] progress_refl [OF ok] by (auto split: if_splits)
  have fresh: "oid x \<notin> all_ids b1" and n1: "length (pending_orders b1) \<le> n" using p x(1) n by (auto simp: progress_def)
  have rej: "path_ok 0 x b (Some (reject reason out, b1))" for reason
    by (rule path_ok_trans [OF p path_ok_reject [OF progress_ok [OF p] out]])
  have act: "path_ok 0 x b (submit_active sub y out b1)" if y: "reduce_only_cap x b1 = Inr y" for y
  proof -
    note Y = reduce_only_cap_ok [OF y x(2,3)]
    have "path_ok 0 y b1 (submit_active sub y out b1)"
      by (rule submit_active_ok [OF sub progress_ok [OF p] n1 _ Y(2,3) out]) (use fresh Y(1) in simp)
    from path_ok_trans [OF p path_ok_same [OF Y(1) this]] show ?thesis .
  qed
  have "submit_continuous sub x out b = (if would_cross then Some (reject ''post-only would cross'' out, b1)
      else case reduce_only_cap x b1 of Inl reason \<Rightarrow> Some (reject reason out, b1) | Inr y \<Rightarrow> submit_active sub y out b1)"
    using c by (simp add: submit_continuous_def)
  then show ?thesis using rej act by (simp split: sum.split)
qed

lemma arm_stop_frame [simp]:
  "oid (arm_stop x b) = oid x" "leaves (arm_stop x b) = leaves x" "admissible (arm_stop x b) = admissible x"
  by (auto simp: arm_stop_def Let_def admissible_def split: option.split)

lemma park_progress:
  assumes ok: "book_ok b" and x: "oid x \<notin> all_ids b" "0 < leaves x" "admissible x"
  shows "progress 0 {oid x} b (b\<lparr>stops := emplace (oid x) x (stops b)\<rparr>)"
proof -
  let ?b = "b\<lparr>stops := emplace (oid x) x (stops b)\<rparr>"
  have po: "pools_ok b" using ok by (simp add: book_ok_def)
  have nk: "oid x \<notin> set (map fst (orders b))" "oid x \<notin> set (map fst (stops b))" "oid x \<notin> oid ` set (held_orders b)"
    using x(1) by (simp_all add: all_ids_def live_keys_def)
  then have emp: "emplace (oid x) x (stops b) = (oid x, x) # stops b"
    by (auto simp: emplace_def map_of_eq_None_iff)
  have core: "book_core ?b" by (rule book_core_cong [of b]) (use ok in \<open>simp_all add: book_ok_def\<close>)
  have "pools_ok ?b"
    using po nk x(2,3) by (simp add: pools_ok_alt emp stop_entry_ok_def)
  moreover have "evolves b ?b" by (rule evolves_silent) (simp_all add: position_of_def)
  moreover have "all_ids ?b \<subseteq> {oid x} \<union> all_ids b" by (auto simp: all_ids_def live_keys_def emp)
  ultimately show ?thesis using core ok by (simp add: progress_def book_ok_def caches_ok_def pending_orders_def)
qed

lemma submit_stop_ok:
  assumes ok: "book_ok b" and x: "oid x \<notin> all_ids b" "0 < leaves x" "admissible x" and out: "positive (trades out)"
  shows "path_ok 0 x b (submit_stop x out b)"
proof (cases "have_last b \<and> stop_triggered (arm_stop x b) (last_price b)")
  case True
  let ?x = "mark_triggered (arm_stop x b)"
  from inject_progress [OF ok, of ?x "trades out"] x obtain x' b1 new
    where i: "inject ?x b (trades out) = Some (x', b1, trades out @ new)" "progress 0 {oid x} b b1" "positive new" by auto
  from evaluate_progress [OF progress_ok [OF i(2)], of "trades out @ new"] obtain b2 new2
    where e: "evaluate_stops b1 (trades out @ new) = Some (b2, (trades out @ new) @ new2)" "progress 0 {} b1 b2" "positive new2"
    by blast
  have "submit_stop x out b = Some ((out\<lparr>out_filled := filled x', rested := rests x'\<rparr>)\<lparr>trades := (trades out @ new) @ new2\<rparr>, b2)"
    using True i(1) e(1) by (simp add: submit_stop_def Let_def)
  then show ?thesis
    by (rule path_okI [OF _ progress_trans1 [OF i(2) e(2)]]) (use out i(3) e(3) in simp)
next
  case False
  let ?x = "arm_stop x b"
  have "submit_stop x out b = Some (out\<lparr>pending_trigger := True\<rparr>, b\<lparr>stops := emplace (oid ?x) ?x (stops b)\<rparr>)"
    unfolding submit_stop_def Let_def if_not_P [OF False] ..
  moreover have "progress 0 {oid x} b (b\<lparr>stops := emplace (oid ?x) ?x (stops b)\<rparr>)"
    using park_progress [OF ok, of ?x] x by simp
  ultimately show ?thesis by (rule path_okI) (use out in simp)
qed

lemma peg_progress:
  assumes ok: "book_ok b" and e: "omap b i = Some e" "peg (e_order e) \<noteq> None"
  shows "progress 0 {} b (b\<lparr>pegged := List.insert i (pegged b)\<rparr>)"
proof -
  let ?b = "b\<lparr>pegged := List.insert i (pegged b)\<rparr>"
  have core: "book_core b" using ok by (simp add: book_ok_def)
  have "book_core ?b"
    by (rule book_coreI) (use book_coreD [OF core] e in \<open>auto simp: pegs_ok_def\<close>)
  moreover have pe: "pools_eq b ?b" by (simp add: pools_eq_def)
  moreover have "pools_ok ?b" by (rule pools_ok_cong [OF _ pe]) (use ok in \<open>simp_all add: book_ok_def\<close>)
  moreover have "evolves b ?b" by (rule evolves_silent) (simp_all add: position_of_def)
  moreover have "all_ids ?b = all_ids b" by (rule all_ids_cong [OF _ pe]) simp
  ultimately show ?thesis using ok by (simp add: progress_def book_ok_def caches_ok_def pending_pools_eq)
qed

lemma submit_peg_ok:
  assumes ok: "book_ok b" and x: "oid x \<notin> all_ids b" "0 < leaves x" "admissible x" "peg x \<noteq> None"
    and out: "positive (trades out)"
  shows "path_ok 0 x b (Some (submit_peg x out b))"
proof (cases "compute_peg_price x b")
  case None
  then show ?thesis using path_ok_reject [OF ok out] by (simp add: submit_peg_def)
next
  case (Some p)
  let ?x = "x\<lparr>otype := Limit, price := p\<rparr>"
  obtain out1 b1 where r: "rest_outcome ?x out b = (out1, b1)" by (metis prod.exhaust)
  have x': "oid ?x \<notin> all_ids b" "0 < leaves ?x" "admissible ?x" using x by (simp_all add: admissible_def)
  note R = rest_progress [OF ok x' r]
  let ?b = "if rested out1 then b1\<lparr>pegged := List.insert (oid x) (pegged b1)\<rparr> else b1"
  have "progress 0 {} b1 ?b"
    using peg_progress [OF progress_ok [OF R(1)], of "oid x"] R(3) x(4) progress_refl [OF progress_ok [OF R(1)]] by auto
  from progress_trans1 [OF R(1) this] have "progress 0 {oid x} b ?b" by simp
  moreover have "submit_peg x out b = (out1, ?b)" using Some r by (simp add: submit_peg_def)
  ultimately show ?thesis using R(2) out by (intro path_okI [of _ out1 ?b]) simp_all
qed

subsection \<open>submit\<close>

lemma stamp_frame [simp]:
  "oid (stamp x b) = oid x" "peg (stamp x b) = peg x" "link (stamp x b) = link x" "qty (stamp x b) = qty x"
  "otype (stamp x b) = otype x" "price (stamp x b) = price x" "side (stamp x b) = side x"
  "trigger (stamp x b) = trigger x" "client_id (stamp x b) = client_id x" "min_qty (stamp x b) = min_qty x"
  by (simp_all add: stamp_def Normalize_frame)

lemma stamp_admissible:
  assumes "well_formed x" "0 < qty x"
  shows "admissible (stamp x b)"
  using assms by (auto simp: admissible_def well_formed_def stamp_def Normalize_HasFlag Normalize_display)

lemma submit_error_None:
  assumes "submit_error x b = None"
  shows "0 < qty x" "0 < leaves x" "omap b (oid x) = None" "map_of (stops b) (oid x) = None"
    "otype x = Limit \<Longrightarrow> peg x = None \<Longrightarrow> 0 < price x"
  using assms by (auto simp: submit_error_def split: if_splits)

lemma hold_child_progress:
  assumes ok: "book_ok b" and x: "oid x \<notin> all_ids b" "0 < leaves x" "admissible x" and h: "hold_child x b = Some b'"
  shows "progress 1 {oid x} b b'" "is_child x"
proof -
  from h obtain l where l: "link x = Some l" "link_role l \<in> {OtoChild, BracketTakeProfit, BracketStopLoss}"
    by (auto simp: hold_child_def split: option.splits LinkRole.splits)
  then show "is_child x" by (simp add: is_child_def)
  from h l obtain f where b': "b' = upd_group (group_id l) f b"
    and f: "mset (held_by (f (group_of b (group_id l)))) \<subseteq># add_mset x (mset (held_by (group_of b (group_id l))))"
    by (auto simp: hold_child_def held_by_def split: LinkRole.splits option.splits)
  let ?g = "group_of b (group_id l)"
  obtain Z where Z: "add_mset x (mset (held_by ?g)) = mset (held_by (f ?g)) + Z"
    using f by (auto simp: mset_subset_eq_exists_conv)
  have "mset (pending_orders b') + mset (held_by ?g) + Z = add_mset x (mset (pending_orders b)) + mset (held_by ?g)"
    using mset_pending_upd [of "group_id l" f b] Z by (simp add: b' ac_simps)
  then have m: "add_mset x (mset (pending_orders b)) = mset (pending_orders b') + Z" by (simp add: ac_simps)
  have "mset (held_orders b') \<subseteq># add_mset x (mset (held_orders b))"
    using m by (simp add: held_orders_def b' mset_subset_eq_exists_conv)
  moreover have "length (pending_orders b') \<le> 1 + length (pending_orders b)"
    using arg_cong [OF m, of size] by simp
  ultimately show "progress 1 {oid x} b b'"
    by (intro hold_progress [OF ok x]) (simp_all add: b' upd_group_evolves)
qed

lemma queue_auction_progress:
  assumes ok: "book_ok b" and x: "oid x \<notin> all_ids b" "0 < leaves x" "admissible x"
  shows "progress 0 {oid x} b (queue_auction x b)"
proof (rule hold_progress [OF ok x])
  show "evolves b (queue_auction x b)"
    unfolding queue_auction_def by (rule evolves_silent) (simp_all add: position_of_def)
qed (auto simp: queue_auction_def held_orders_def pending_orders_def)

lemma submit_body_ok:
  assumes sub: "sub_ok n sub" and ok: "book_ok b" and n: "length (pending_orders b) \<le> n"
    and x: "oid x \<notin> all_ids b" "well_formed x"
  shows "path_ok (if is_child x then 1 else 0) x b (submit_body sub x b)"
proof -
  let ?k = "if is_child x then 1 else 0 :: nat"
  let ?x = "stamp x b" and ?b = "b\<lparr>next_seq := Suc (next_seq b)\<rparr>"
  let ?out = "default_Outcome\<lparr>out_order_id := oid ?x\<rparr>"
  note p = next_seq_progress [OF ok]
  note ok' = progress_ok [OF p]
  have out: "positive (trades ?out)" "positive (trades (?out\<lparr>held := True\<rparr>))" by (simp_all add: default_Outcome_def)
  show ?thesis
  proof (cases "submit_error ?x ?b")
    case (Some reason)
    then have "submit_body sub x b = Some (reject reason ?out, ?b)" by (simp add: submit_body_def Let_def)
    then show ?thesis using path_ok_trans [OF p path_ok_reject [OF ok' out(1)]] by simp
  next
    case None
    note E = submit_error_None [OF None]
    have x': "oid ?x \<notin> all_ids ?b" "0 < leaves ?x" "admissible ?x" "length (pending_orders ?b) \<le> n"
      using p x E stamp_admissible [OF x(2), of b] n by (auto simp: progress_def)
    have lift: "path_ok ?k x b r" if "path_ok 0 ?x ?b r" for r
      using path_ok_trans [OF p that] progress_mono [of 0 "{oid x}" b _ ?k "{oid x}"] by (auto simp: path_ok_def)
    show ?thesis
    proof (cases "IsOpeningAuction (flags ?x) \<or> IsClosingAuction (flags ?x)")
      case True
      then have "submit_body sub x b = Some (?out\<lparr>held := True\<rparr>, queue_auction ?x ?b)"
        using None by (simp add: submit_body_def Let_def)
      then show ?thesis using queue_auction_progress [OF ok' x'(1-3)] out(2) by (intro lift path_okI)
    next
      case cont: False
      show ?thesis
      proof (cases "hold_child ?x ?b")
        case (Some b1)
        then have "submit_body sub x b = Some (?out\<lparr>held := True\<rparr>, b1)"
          using None cont by (simp add: submit_body_def Let_def)
        moreover from hold_child_progress [OF ok' x'(1-3) Some] have "progress 1 {oid ?x} ?b b1" "is_child ?x" .
        ultimately have "path_ok 1 x ?b (submit_body sub x b)" "is_child x"
          using out(2) by (auto intro: path_okI simp: is_child_def)
        with path_ok_trans [OF p] show ?thesis by simp
      next
        case (None)
        then have "submit_body sub x b = (if awaits_trigger ?x then submit_stop ?x ?out ?b
            else if peg ?x \<noteq> None then Some (submit_peg ?x ?out ?b) else submit_continuous sub ?x ?out ?b)"
          using \<open>submit_error ?x ?b = None\<close> cont by (simp add: submit_body_def Let_def)
        then show ?thesis
          using lift [OF submit_stop_ok [OF ok' x'(1-3) out(1)]] lift [OF submit_peg_ok [OF ok' x'(1-3) _ out(1)]]
            lift [OF submit_continuous_ok [OF sub ok' x'(4,1-3) out(1)]] by (simp split: if_split)
      qed
    qed
  qed
qed

lemma submit_fuel_ok: "sub_ok n (submit_fuel n)"
proof (induction n)
  case 0
  then show ?case by (simp add: sub_ok_def)
next
  case (Suc n)
  show ?case unfolding sub_ok_def submit_fuel.simps
  proof (intro allI impI)
    fix x b assume "book_ok b" "oid x \<notin> all_ids b" "well_formed x" "\<not> is_child x" "length (pending_orders b) < Suc n"
    with submit_body_ok [OF Suc.IH, of b x]
    show "\<exists>out b'. submit_body (submit_fuel n) x b = Some (out, b') \<and> progress 0 {oid x} b b' \<and> positive (trades out)"
      by (simp add: path_ok_def)
  qed
qed

lemma submit_ok:
  assumes "book_ok b" "oid x \<notin> all_ids b" "well_formed x"
  shows "\<exists>out b'. submit x b = Some (out, b') \<and> progress (if is_child x then 1 else 0) {oid x} b b' \<and> positive (trades out)"
  using submit_body_ok [OF submit_fuel_ok assms(1) order_refl assms(2,3)] by (simp only: submit_def submit_fuel.simps path_ok_def)

subsection \<open>More fuel changes nothing\<close>

definition sub_le :: "submission \<Rightarrow> submission \<Rightarrow> bool" where
  "sub_le sub sub' \<longleftrightarrow> (\<forall>x b r. sub x b = Some r \<longrightarrow> sub' x b = Some r)"

lemma bind_le:
  "Option.bind f g = Some r \<Longrightarrow> (\<And>y. f = Some y \<Longrightarrow> g y = Some r \<Longrightarrow> g' y = Some r) \<Longrightarrow> Option.bind f g' = Some r"
  by (cases f) auto

lemma release_mono:
  assumes "sub_le sub sub'"
  shows "release_child sub gid out b = Some r \<Longrightarrow> release_child sub' gid out b = Some r"
    "release_legs sub gid cs out b = Some r \<Longrightarrow> release_legs sub' gid cs out b = Some r"
    "release_children sub gid out b = Some r \<Longrightarrow> release_children sub' gid out b = Some r"
proof -
  have le: "sub x b = Some r \<Longrightarrow> sub' x b = Some r" for x b r using assms unfolding sub_le_def by blast
  show child: "release_child sub gid out b = Some r \<Longrightarrow> release_child sub' gid out b = Some r" for b r
    by (auto simp: release_child_def bind_eq_Some_conv dest!: le split: option.splits)
  show legs: "release_legs sub gid cs out b = Some r \<Longrightarrow> release_legs sub' gid cs out b = Some r" for cs out b r
    by (induction cs arbitrary: out b) (auto simp: bind_eq_Some_conv dest!: le)
  show "release_children sub gid out b = Some r \<Longrightarrow> release_children sub' gid out b = Some r"
    by (auto simp: release_children_def bind_eq_Some_conv dest!: child legs)
qed

lemma link_fills_mono:
  assumes "sub_le sub sub'"
  shows "link_fills sub x is out b = Some r \<Longrightarrow> link_fills sub' x is out b = Some r"
proof -
  have "link_fill sub x i out b = Some r \<Longrightarrow> link_fill sub' x i out b = Some r" for i out b r
    by (auto simp: link_fill_def bind_eq_Some_conv dest!: release_mono(3) [OF assms] split: option.splits if_splits)
  then show "link_fills sub x is out b = Some r \<Longrightarrow> link_fills sub' x is out b = Some r"
    by (induction "is" arbitrary: out b) (fastforce simp: bind_eq_Some_conv)+
qed

lemma submit_body_mono:
  assumes le: "sub_le sub sub'"
  shows "sub_le (submit_body sub) (submit_body sub')"
proof -
  have m: "submit_match sub x out b = Some r \<Longrightarrow> submit_match sub' x out b = Some r" for x out b r
    unfolding submit_match_def Let_def split_def
    by (elim bind_le) (simp add: process_link_fills_def link_fills_mono [OF le])
  have a: "submit_active sub x out b = Some r \<Longrightarrow> submit_active sub' x out b = Some r" for x out b r
    by (auto simp: submit_active_def dest!: m split: option.splits if_splits)
  have c: "submit_continuous sub x out b = Some r \<Longrightarrow> submit_continuous sub' x out b = Some r" for x out b r
    by (auto simp: submit_continuous_def Let_def dest!: a split: prod.splits if_splits sum.splits)
  show ?thesis
    unfolding sub_le_def submit_body_def Let_def by (auto dest!: c split: option.splits if_splits)
qed

lemma submit_fuel_mono: "m \<le> n \<Longrightarrow> sub_le (submit_fuel m) (submit_fuel n)"
proof (induction m arbitrary: n)
  case 0
  then show ?case by (simp add: sub_le_def)
next
  case (Suc m)
  then obtain k where "n = Suc k" "m \<le> k" by (cases n) auto
  with Suc.IH submit_body_mono show ?case by simp
qed

lemma submit_fuel_enough:
  assumes "book_ok b" "oid x \<notin> all_ids b" "well_formed x" "length (pending_orders b) < n"
  shows "submit_fuel n x b = submit x b"
proof -
  from submit_ok [OF assms(1-3)] obtain r where "submit x b = Some r" by blast
  moreover from this have "submit_fuel n x b = Some r"
    using submit_fuel_mono [of "Suc (length (pending_orders b))" n] assms(4)
    unfolding submit_def sub_le_def by (metis Suc_leI)
  ultimately show ?thesis by simp
qed

end
