(* ===== verification/Replica.thy ===== *)
theory Replica
  imports Submit
begin

section \<open>The feed's book replica (feed/book\_replica.cc)\<close>

text \<open>
  \<open>BookReplica\<close> rebuilds, per symbol, the market-by-order map and the matchable and displayed
  depth from the book-event stream. A \<open>std::map\<close> from prices to quantities is an association
  list sorted by price. The second half relates the replica to the table machine of
  \<open>Book_Steps\<close>: applying the events of a step to a replica in step with the table before it
  gives a replica in step with the table after it.
\<close>

type_synonym price_map = "(Ticks \<times> Quantity) list"

record OrderView =
  ov_id :: OrderId
  ov_side :: Side
  ov_price :: Ticks
  ov_qty :: Quantity
  ov_displayed :: Quantity

record SymBook =
  rb_bids :: price_map
  rb_asks :: price_map
  rb_disp_bids :: price_map
  rb_disp_asks :: price_map
  rb_orders :: "(OrderId \<times> OrderView) list"

record BookReplica =
  rep_books :: "(Symbol \<times> SymBook) list"
  last_seq :: SeqNo
  gaps :: nat

definition new_SymBook :: SymBook where
  "new_SymBook = \<lparr>rb_bids = [], rb_asks = [], rb_disp_bids = [], rb_disp_asks = [], rb_orders = []\<rparr>"

definition new_BookReplica :: BookReplica where
  "new_BookReplica = \<lparr>rep_books = [], last_seq = 0, gaps = 0\<rparr>"

definition side_map :: "SymBook \<Rightarrow> Side \<Rightarrow> price_map" where
  "side_map sb s = (if s = Buy then rb_bids sb else rb_asks sb)"

definition disp_map :: "SymBook \<Rightarrow> Side \<Rightarrow> price_map" where
  "disp_map sb s = (if s = Buy then rb_disp_bids sb else rb_disp_asks sb)"

definition bump :: "Ticks \<Rightarrow> Quantity \<Rightarrow> price_map \<Rightarrow> price_map" where
  "bump p delta m =
     (case map_of m p of
        None \<Rightarrow> if delta > 0 then insort_key fst (p, delta) m else m
      | Some q \<Rightarrow> if q + delta \<le> 0 then AList.delete p m else AList.update p (q + delta) m)"

definition bump_side :: "Side \<Rightarrow> Ticks \<Rightarrow> Quantity \<Rightarrow> SymBook \<Rightarrow> SymBook" where
  "bump_side s p delta sb =
     (if s = Buy then sb\<lparr>rb_bids := bump p delta (rb_bids sb)\<rparr> else sb\<lparr>rb_asks := bump p delta (rb_asks sb)\<rparr>)"

definition bump_disp :: "Side \<Rightarrow> Ticks \<Rightarrow> Quantity \<Rightarrow> SymBook \<Rightarrow> SymBook" where
  "bump_disp s p delta sb =
     (if s = Buy then sb\<lparr>rb_disp_bids := bump p delta (rb_disp_bids sb)\<rparr>
      else sb\<lparr>rb_disp_asks := bump p delta (rb_disp_asks sb)\<rparr>)"

definition set_view :: "OrderId \<Rightarrow> OrderView \<Rightarrow> SymBook \<Rightarrow> SymBook" where
  "set_view i ov sb = sb\<lparr>rb_orders := AList.update i ov (rb_orders sb)\<rparr>"

definition erase_view :: "OrderId \<Rightarrow> SymBook \<Rightarrow> SymBook" where
  "erase_view i sb = sb\<lparr>rb_orders := AList.delete i (rb_orders sb)\<rparr>"

definition apply_add :: "BookEvent \<Rightarrow> SymBook \<Rightarrow> SymBook" where
  "apply_add ev sb =
     bump_disp (ev_side ev) (ev_price ev) (ev_displayed ev)
       (bump_side (ev_side ev) (ev_price ev) (ev_qty ev)
         (set_view (ev_order_id ev) \<lparr>ov_id = ev_order_id ev, ov_side = ev_side ev, ov_price = ev_price ev,
            ov_qty = ev_qty ev, ov_displayed = ev_displayed ev\<rparr> sb))"

definition apply_cancel :: "BookEvent \<Rightarrow> SymBook \<Rightarrow> SymBook" where
  "apply_cancel ev sb =
     (case map_of (rb_orders sb) (ev_order_id ev) of
        None \<Rightarrow> sb
      | Some ov \<Rightarrow> erase_view (ev_order_id ev)
          (bump_disp (ov_side ov) (ov_price ov) (- ov_displayed ov)
            (bump_side (ov_side ov) (ov_price ov) (- ov_qty ov) sb)))"

definition apply_trade :: "BookEvent \<Rightarrow> SymBook \<Rightarrow> SymBook" where
  "apply_trade ev sb =
     (case map_of (rb_orders sb) (ev_order_id ev) of
        None \<Rightarrow> sb
      | Some ov \<Rightarrow>
          let ov' = ov\<lparr>ov_qty := ov_qty ov - ev_qty ev, ov_displayed := ov_displayed ov - ev_displayed ev\<rparr>;
              sb1 = set_view (ev_order_id ev) ov' sb;
              sb2 = bump_side (ov_side ov') (ov_price ov') (- ev_qty ev) sb1;
              sb3 = bump_disp (ov_side ov') (ov_price ov') (- ev_displayed ev) sb2
          in if ov_qty ov' \<le> 0 then erase_view (ev_order_id ev) sb3 else sb3)"

definition apply_reprice :: "BookEvent \<Rightarrow> SymBook \<Rightarrow> SymBook" where
  "apply_reprice ev sb =
     (case map_of (rb_orders sb) (ev_order_id ev) of
        None \<Rightarrow> sb
      | Some ov \<Rightarrow>
          let sb1 = bump_side (ov_side ov) (ov_price ov) (- ov_qty ov) sb;
              sb2 = bump_disp (ov_side ov) (ov_price ov) (- ov_displayed ov) sb1;
              ov' = ov\<lparr>ov_price := ev_price ev, ov_displayed := ev_displayed ev\<rparr>;
              sb3 = set_view (ev_order_id ev) ov' sb2;
              sb4 = bump_side (ov_side ov') (ov_price ov') (ov_qty ov') sb3
          in bump_disp (ov_side ov') (ov_price ov') (ov_displayed ov') sb4)"

definition apply_replenish :: "BookEvent \<Rightarrow> SymBook \<Rightarrow> SymBook" where
  "apply_replenish ev sb =
     (case map_of (rb_orders sb) (ev_order_id ev) of
        None \<Rightarrow> sb
      | Some ov \<Rightarrow>
          let ov' = ov\<lparr>ov_displayed := ov_displayed ov + ev_displayed ev\<rparr>
          in bump_disp (ov_side ov') (ov_price ov') (ev_displayed ev) (set_view (ev_order_id ev) ov' sb))"

definition apply_book :: "BookEvent \<Rightarrow> SymBook \<Rightarrow> SymBook" where
  "apply_book ev sb =
     (case ev_type ev of
        kAdd \<Rightarrow> apply_add ev sb
      | kCancel \<Rightarrow> apply_cancel ev sb
      | kTrade \<Rightarrow> apply_trade ev sb
      | kReprice \<Rightarrow> apply_reprice ev sb
      | kReplenish \<Rightarrow> apply_replenish ev sb
      | kTrigger \<Rightarrow> sb)"

definition sym_book :: "BookReplica \<Rightarrow> Symbol \<Rightarrow> SymBook" where
  "sym_book r sy = (case map_of (rep_books r) sy of None \<Rightarrow> new_SymBook | Some sb \<Rightarrow> sb)"

definition apply_event :: "BookEvent \<Rightarrow> BookReplica \<Rightarrow> bool \<times> BookReplica" where
  "apply_event ev r =
     (let gap = (last_seq r \<noteq> 0 \<and> ev_seq ev \<noteq> 0 \<and> ev_seq ev \<noteq> last_seq r + 1);
          r1 = (if gap then r\<lparr>gaps := gaps r + 1\<rparr> else r);
          r2 = (if ev_seq ev > last_seq r1 then r1\<lparr>last_seq := ev_seq ev\<rparr> else r1)
      in (gap, r2\<lparr>rep_books := AList.update (ev_symbol ev)
                     (apply_book ev (sym_book r2 (ev_symbol ev))) (rep_books r2)\<rparr>))"

subsection \<open>Reading the replica\<close>

definition view_map :: "SymBook \<Rightarrow> Side \<Rightarrow> bool \<Rightarrow> price_map" where
  "view_map sb s lit = (if lit then disp_map sb s else side_map sb s)"

definition best_of_side :: "BookReplica \<Rightarrow> Symbol \<Rightarrow> Side \<Rightarrow> bool \<Rightarrow> (Ticks \<times> Quantity) option" where
  "best_of_side r sy s lit =
     (case map_of (rep_books r) sy of
        None \<Rightarrow> None
      | Some sb \<Rightarrow>
          let m = view_map sb s lit
          in if m = [] then None else Some (if s = Buy then last m else hd m))"

definition depth_of :: "BookReplica \<Rightarrow> Symbol \<Rightarrow> Side \<Rightarrow> bool \<Rightarrow> nat \<Rightarrow> (Ticks \<times> Quantity) list" where
  "depth_of r sy s lit limit =
     (case map_of (rep_books r) sy of
        None \<Rightarrow> []
      | Some sb \<Rightarrow>
          let m = view_map sb s lit; out = (if s = Buy then rev m else m)
          in if limit = 0 then out else take limit out)"

definition replica_best_bid :: "BookReplica \<Rightarrow> Symbol \<Rightarrow> (Ticks \<times> Quantity) option" where
  "replica_best_bid r sy = best_of_side r sy Buy False"

definition replica_best_ask :: "BookReplica \<Rightarrow> Symbol \<Rightarrow> (Ticks \<times> Quantity) option" where
  "replica_best_ask r sy = best_of_side r sy Sell False"

definition best_displayed_bid :: "BookReplica \<Rightarrow> Symbol \<Rightarrow> (Ticks \<times> Quantity) option" where
  "best_displayed_bid r sy = best_of_side r sy Buy True"

definition best_displayed_ask :: "BookReplica \<Rightarrow> Symbol \<Rightarrow> (Ticks \<times> Quantity) option" where
  "best_displayed_ask r sy = best_of_side r sy Sell True"

definition depth :: "BookReplica \<Rightarrow> Symbol \<Rightarrow> Side \<Rightarrow> nat \<Rightarrow> (Ticks \<times> Quantity) list" where
  "depth r sy s limit = depth_of r sy s False limit"

definition displayed_depth :: "BookReplica \<Rightarrow> Symbol \<Rightarrow> Side \<Rightarrow> nat \<Rightarrow> (Ticks \<times> Quantity) list" where
  "displayed_depth r sy s limit = depth_of r sy s True limit"

definition orders_at :: "BookReplica \<Rightarrow> Symbol \<Rightarrow> Side \<Rightarrow> Ticks \<Rightarrow> OrderView list" where
  "orders_at r sy s p =
     (case map_of (rep_books r) sy of
        None \<Rightarrow> []
      | Some sb \<Rightarrow> filter (\<lambda>ov. ov_side ov = s \<and> ov_price ov = p) (map snd (rb_orders sb)))"

definition replica_symbol_count :: "BookReplica \<Rightarrow> nat" where
  "replica_symbol_count r = length (rep_books r)"

subsection \<open>Price maps\<close>

definition pos :: "Quantity \<Rightarrow> Quantity option" where
  "pos q = (if q > 0 then Some q else None)"

definition price_sorted :: "price_map \<Rightarrow> bool" where
  "price_sorted m \<longleftrightarrow> sorted_wrt (<) (map fst m)"

lemma map_fst_insort_key: "map fst (insort_key fst x m) = insort (fst x) (map fst m)"
  by (induction m) auto

lemma map_of_insort_key: "fst x \<notin> fst ` set m \<Longrightarrow> map_of (insort_key fst x m) = (map_of m)(fst x \<mapsto> snd x)"
  by (induction m) (auto simp: fun_eq_iff)

lemma price_sorted_bump: "price_sorted m \<Longrightarrow> price_sorted (bump p d m)"
proof -
  assume m: "price_sorted m"
  have "price_sorted (insort_key fst (p, d) m)" if "map_of m p = None"
    using m that by (auto simp: price_sorted_def map_fst_insort_key strict_sorted_iff distinct_insort sorted_insort map_of_eq_None_iff)
  moreover have "price_sorted (AList.delete p m)" using m by (simp add: price_sorted_def sorted_wrt_filter)
  moreover have "price_sorted (AList.update p v m)" if "map_of m p = Some q" for q v
    using m that by (simp add: price_sorted_def keys_update_present [OF map_of_Some_key [OF that]])
  ultimately show ?thesis using m by (simp add: bump_def split: option.split)
qed

lemma map_of_bump: "map_of m p = pos q \<Longrightarrow> 0 \<le> q \<Longrightarrow> map_of (bump p d m) = (map_of m)(p := pos (q + d))"
  by (auto simp: bump_def pos_def map_of_insort_key map_of_eq_None_iff fun_eq_iff split: if_splits option.splits)

definition tracks :: "(Side \<Rightarrow> price_map) \<Rightarrow> (Side \<Rightarrow> Ticks \<Rightarrow> Quantity) \<Rightarrow> bool" where
  "tracks M T \<longleftrightarrow> (\<forall>s. price_sorted (M s)) \<and> (\<forall>s p. map_of (M s) p = pos (T s p))"

lemma tracks_bump:
  assumes "tracks M T" "0 \<le> T s p" "\<And>t r. T' t r = T t r + (if t = s \<and> r = p then d else 0)"
  shows "tracks (M(s := bump p d (M s))) T'"
  using assms map_of_bump [of "M s" p "T s p" d] by (auto simp: tracks_def price_sorted_bump)

lemma bump_frame [simp]:
  "side_map (bump_side s p d sb) = (side_map sb)(s := bump p d (side_map sb s))"
  "disp_map (bump_side s p d sb) = disp_map sb" "rb_orders (bump_side s p d sb) = rb_orders sb"
  "disp_map (bump_disp s p d sb) = (disp_map sb)(s := bump p d (disp_map sb s))"
  "side_map (bump_disp s p d sb) = side_map sb" "rb_orders (bump_disp s p d sb) = rb_orders sb"
  "side_map (set_view i ov sb) = side_map sb" "disp_map (set_view i ov sb) = disp_map sb"
  "rb_orders (set_view i ov sb) = AList.update i ov (rb_orders sb)"
  "side_map (erase_view i sb) = side_map sb" "disp_map (erase_view i sb) = disp_map sb"
  "rb_orders (erase_view i sb) = AList.delete i (rb_orders sb)"
  by (auto simp: bump_side_def bump_disp_def set_view_def erase_view_def side_map_def disp_map_def fun_eq_iff)
    (metis Side.exhaust)+

subsection \<open>Depth of a table\<close>

definition tot :: "(Entry \<Rightarrow> Quantity) \<Rightarrow> table \<Rightarrow> Side \<Rightarrow> Ticks \<Rightarrow> Quantity" where
  "tot g m s p = (\<Sum>i \<in> dom m. let e = the (m i) in if side (e_order e) = s \<and> price (e_order e) = p then g e else 0)"

abbreviation e_leaves :: "Entry \<Rightarrow> Quantity" where
  "e_leaves e \<equiv> leaves (e_order e)"

lemma tot_split:
  assumes "finite (dom m)"
  shows "tot g (m(i \<mapsto> e)) s p = tot g (m(i := None)) s p + (if side (e_order e) = s \<and> price (e_order e) = p then g e else 0)"
proof -
  let ?f = "\<lambda>m i. let e = the (m i) in if side (e_order e) = s \<and> price (e_order e) = p then g e else 0"
  have "tot g (m(i \<mapsto> e)) s p = ?f (m(i \<mapsto> e)) i + (\<Sum>j \<in> dom m - {i}. ?f (m(i \<mapsto> e)) j)"
    unfolding tot_def using assms by (simp add: sum.insert_remove)
  also have "(\<Sum>j \<in> dom m - {i}. ?f (m(i \<mapsto> e)) j) = (\<Sum>j \<in> dom m - {i}. ?f (m(i := None)) j)"
    by (rule sum.cong) auto
  also have "\<dots> = tot g (m(i := None)) s p" unfolding tot_def by (simp add: Let_def)
  also have "?f (m(i \<mapsto> e)) i = (if side (e_order e) = s \<and> price (e_order e) = p then g e else 0)"
    by (simp add: Let_def)
  finally show ?thesis by (simp only: add.commute)
qed

lemma tot_join:
  assumes "finite (dom m)" "m i = None"
  shows "tot g (m(i \<mapsto> e)) s p = tot g m s p + (if s = side (e_order e) \<and> p = price (e_order e) then g e else 0)"
  using tot_split [OF assms(1), of g i e s p] assms(2) by (auto simp: fun_upd_idem)

lemma tot_leave:
  assumes "finite (dom m)" "m i = Some e"
  shows "tot g (m(i := None)) s p = tot g m s p + (if s = side (e_order e) \<and> p = price (e_order e) then - g e else 0)"
  using tot_split [OF assms(1), of g i e s p] assms(2) by (auto simp: fun_upd_idem)

lemma tot_change:
  assumes "finite (dom m)" "m i = Some e" "side (e_order e') = side (e_order e)" "price (e_order e') = price (e_order e)"
  shows "tot g (m(i \<mapsto> e')) s p = tot g m s p + (if s = side (e_order e) \<and> p = price (e_order e) then g e' - g e else 0)"
  using tot_split [OF assms(1), of g i e' s p] tot_leave [OF assms(1,2), of g s p] assms(3,4) by auto

definition table_ok :: "table \<Rightarrow> bool" where
  "table_ok m \<longleftrightarrow> finite (dom m) \<and> (\<forall>i e. m i = Some e \<longrightarrow> entry_ok i e)"

lemma shown_nonneg: "entry_ok i e \<Longrightarrow> 0 \<le> shown e"
  by (auto simp: shown_alt entry_ok_alt)

lemma tot_nonneg:
  assumes "table_ok m"
  shows "0 \<le> tot e_leaves m s p" "0 \<le> tot shown m s p"
  unfolding tot_def using assms shown_nonneg
  by (auto intro!: sum_nonneg simp: Let_def table_ok_def entry_ok_def less_imp_le)

subsection \<open>The replica is in step with the table\<close>

definition view_of :: "Entry \<Rightarrow> OrderView" where
  "view_of e = \<lparr>ov_id = oid (e_order e), ov_side = side (e_order e), ov_price = price (e_order e),
     ov_qty = leaves (e_order e), ov_displayed = shown e\<rparr>"

definition in_step :: "table \<Rightarrow> SymBook \<Rightarrow> bool" where
  "in_step m sb \<longleftrightarrow> (\<forall>i. map_of (rb_orders sb) i = map_option view_of (m i))
     \<and> tracks (side_map sb) (tot e_leaves m) \<and> tracks (disp_map sb) (tot shown m)"

lemma view_of_sel [simp]:
  "ov_id (view_of e) = oid (e_order e)" "ov_side (view_of e) = side (e_order e)" "ov_price (view_of e) = price (e_order e)"
  "ov_qty (view_of e) = leaves (e_order e)" "ov_displayed (view_of e) = shown e"
  by (simp_all add: view_of_def)

lemma view_eqI:
  "ov_id v = ov_id w \<Longrightarrow> ov_side v = ov_side w \<Longrightarrow> ov_price v = ov_price w \<Longrightarrow> ov_qty v = ov_qty w
    \<Longrightarrow> ov_displayed v = ov_displayed w \<Longrightarrow> v = (w :: OrderView)"
  by simp

lemma event_sel [simp]:
  "ev_type (order_event ty sy x q d) = ty" "ev_order_id (order_event ty sy x q d) = oid x"
  "ev_side (order_event ty sy x q d) = side x" "ev_price (order_event ty sy x q d) = price x"
  "ev_qty (order_event ty sy x q d) = q" "ev_displayed (order_event ty sy x q d) = d"
  "ev_symbol (order_event ty sy x q d) = sy"
  "ev_type (trade_event sy t d) = kTrade" "ev_order_id (trade_event sy t d) = maker_id t"
  "ev_qty (trade_event sy t d) = t_qty t" "ev_displayed (trade_event sy t d) = d" "ev_symbol (trade_event sy t d) = sy"
  "ev_type (reprice_event sy x p p' q d) = kReprice" "ev_order_id (reprice_event sy x p p' q d) = oid x"
  "ev_price (reprice_event sy x p p' q d) = p'" "ev_displayed (reprice_event sy x p p' q d) = d"
  "ev_symbol (reprice_event sy x p p' q d) = sy"
  by (simp_all add: order_event_def trade_event_def reprice_event_def)

lemma in_step_add:
  assumes ok: "table_ok m" and sync: "in_step m sb" and new: "m i = None" and e: "entry_ok i e"
  shows "in_step (m(i \<mapsto> e)) (apply_book (order_event kAdd sy (e_order e) (leaves (e_order e)) (shown e)) sb)"
proof -
  have fin: "finite (dom m)" using ok by (simp add: table_ok_def)
  have i: "oid (e_order e) = i" using e by (simp add: entry_ok_def)
  note nn = tot_nonneg [OF ok]
  have "tracks (side_map sb) (tot e_leaves m)" "tracks (disp_map sb) (tot shown m)" using sync by (simp_all add: in_step_def)
  from tracks_bump [OF this(1) nn(1) tot_join [OF fin new]] tracks_bump [OF this(2) nn(2) tot_join [OF fin new]] sync
  show ?thesis by (simp add: in_step_def apply_book_def apply_add_def i view_of_def)
qed

lemma in_step_cancel:
  assumes ok: "table_ok m" and sync: "in_step m sb" and old: "m i = Some e"
  shows "in_step (m(i := None)) (apply_book (order_event kCancel sy (e_order e) (leaves (e_order e)) (shown e)) sb)"
proof -
  have fin: "finite (dom m)" and "entry_ok i e" using ok old by (simp_all add: table_ok_def)
  then have i: "oid (e_order e) = i" by (simp add: entry_ok_def)
  note nn = tot_nonneg [OF ok]
  have "tracks (side_map sb) (tot e_leaves m)" "tracks (disp_map sb) (tot shown m)" using sync by (simp_all add: in_step_def)
  from tracks_bump [OF this(1) nn(1) tot_leave [OF fin old]] tracks_bump [OF this(2) nn(2) tot_leave [OF fin old]] sync old
  show ?thesis by (simp add: in_step_def apply_book_def apply_cancel_def i)
qed

lemma in_step_fill:
  assumes ok: "table_ok m" and sync: "in_step m sb" and old: "m i = Some e" and t: "maker_id t = i" "t_qty t < leaves (e_order e)"
  shows "in_step (m(i \<mapsto> filled_entry (t_qty t) e))
    (apply_book (trade_event sy t (if is_hidden e then 0 else t_qty t)) sb)"
proof -
  have fin: "finite (dom m)" using ok by (simp add: table_ok_def)
  let ?e = "filled_entry (t_qty t) e" and ?d = "if is_hidden e then 0 else t_qty t"
  note nn = tot_nonneg [OF ok]
  have g: "e_leaves ?e - e_leaves e = - t_qty t" "shown ?e - shown e = - ?d" by (simp_all add: shown_filled shown_alt)
  have sp: "side (e_order ?e) = side (e_order e)" "price (e_order ?e) = price (e_order e)" by simp_all
  note T = tot_change [OF fin old sp]
  have "tracks (side_map sb) (tot e_leaves m)" "tracks (disp_map sb) (tot shown m)" using sync by (simp_all add: in_step_def)
  from tracks_bump [OF this(1) nn(1) T [of e_leaves, unfolded g]] tracks_bump [OF this(2) nn(2) T [of shown, unfolded g]] sync old t
  show ?thesis
    by (auto simp: in_step_def apply_book_def apply_trade_def Let_def view_of_def shown_filled shown_alt)
qed

lemma in_step_fill_out:
  assumes ok: "table_ok m" and sync: "in_step m sb" and old: "m i = Some e" and t: "maker_id t = i" "t_qty t = leaves (e_order e)"
    and ex: "t_qty t \<le> exposed e"
  shows "in_step (m(i := None)) (apply_book (trade_event sy t (if is_hidden e then 0 else t_qty t)) sb)"
proof -
  have fin: "finite (dom m)" and eo: "entry_ok i e" using ok old by (simp_all add: table_ok_def)
  let ?d = "if is_hidden e then 0 else t_qty t"
  have d: "?d = shown e" using eo ex t(2) by (auto simp: shown_alt entry_ok_alt exposed_def)
  note nn = tot_nonneg [OF ok]
  have "tracks (side_map sb) (tot e_leaves m)" "tracks (disp_map sb) (tot shown m)" using sync by (simp_all add: in_step_def)
  from tracks_bump [OF this(1) nn(1) tot_leave [OF fin old]] tracks_bump [OF this(2) nn(2) tot_leave [OF fin old]] sync old t
  show ?thesis unfolding d by (simp add: in_step_def apply_book_def apply_trade_def Let_def)
qed

lemma in_step_replenish:
  assumes fin: "finite (dom m)" and nn: "\<And>s p. 0 \<le> tot e_leaves m s p" "\<And>s p. 0 \<le> tot shown m s p"
    and sync: "in_step m sb" and old: "m i = Some e" and i: "oid (e_order e) = i"
    and zero: "shown e = 0" and e': "e' = replenished e k" "is_iceberg e" "\<not> is_hidden e"
  shows "in_step (m(i \<mapsto> e')) (apply_book (order_event kReplenish sy (e_order e') (slice e') (slice e')) sb)"
proof -
  have sh: "shown e' = slice e'" using e' by (simp add: shown_alt)
  have g: "e_leaves e' - e_leaves e = 0" "shown e' - shown e = slice e'" using zero sh by (simp_all add: e'(1))
  have sp: "side (e_order e') = side (e_order e)" "price (e_order e') = price (e_order e)" by (simp_all add: e'(1))
  note T = tot_change [OF fin old sp]
  have "tot e_leaves (m(i \<mapsto> e')) = tot e_leaves m" using T [of e_leaves, unfolded g] by (simp add: fun_eq_iff)
  moreover have "tracks (side_map sb) (tot e_leaves m)" "tracks (disp_map sb) (tot shown m)" using sync by (simp_all add: in_step_def)
  moreover note tracks_bump [OF this(2) nn(2) T [of shown, unfolded g]]
  moreover have "oid (e_order e') = i" using i by (simp add: e'(1))
  ultimately show ?thesis
    using sync old zero sh sp by (auto simp: in_step_def apply_book_def apply_replenish_def Let_def view_of_def e'(1))
qed

lemma table_ok_delete: "table_ok m \<Longrightarrow> table_ok (m(i := None))"
  by (auto simp: table_ok_def)

lemma table_ok_update: "table_ok m \<Longrightarrow> entry_ok i e \<Longrightarrow> table_ok (m(i \<mapsto> e))"
  by (auto simp: table_ok_def)

lemma in_step_move:
  assumes ok: "table_ok m" and sync: "in_step m sb" and old: "m i = Some e"
  shows "in_step (m(i \<mapsto> moved e p k))
    (apply_book (reprice_event sy (e_order e) (price (e_order e)) p (leaves (e_order e)) (shown e)) sb)"
proof -
  let ?m = "m(i := None)" and ?e = "moved e p k"
  have fin: "finite (dom m)" "finite (dom ?m)" and "entry_ok i e" using ok old by (simp_all add: table_ok_def)
  then have i: "oid (e_order e) = i" by (simp add: entry_ok_def)
  have e': "e_leaves ?e = e_leaves e" "shown ?e = shown e" "side (e_order ?e) = side (e_order e)" "price (e_order ?e) = p"
    "oid (e_order ?e) = oid (e_order e)"
    by (simp_all add: moved_def shown_def)
  have upd: "?m(i \<mapsto> ?e) = m(i \<mapsto> ?e)" and none: "?m i = None" by simp_all
  note nn = tot_nonneg [OF ok] and nn' = tot_nonneg [OF table_ok_delete [OF ok, of i]]
  have "tracks (side_map sb) (tot e_leaves m)" "tracks (disp_map sb) (tot shown m)" using sync by (simp_all add: in_step_def)
  from tracks_bump [OF this(1) nn(1) tot_leave [OF fin(1) old]] tracks_bump [OF this(2) nn(2) tot_leave [OF fin(1) old]]
  have "tracks ((side_map sb)(side (e_order e) := bump (price (e_order e)) (- e_leaves e) (side_map sb (side (e_order e)))))
      (tot e_leaves ?m)"
    "tracks ((disp_map sb)(side (e_order e) := bump (price (e_order e)) (- shown e) (disp_map sb (side (e_order e)))))
      (tot shown ?m)" .
  from tracks_bump [OF this(1) nn'(1) tot_join [OF fin(2) none, of e_leaves ?e, unfolded e']]
    tracks_bump [OF this(2) nn'(2) tot_join [OF fin(2) none, of shown ?e, unfolded e']] sync old
  show ?thesis
    unfolding upd by (auto simp: in_step_def apply_book_def apply_reprice_def Let_def i view_of_def e')
qed

lemma entry_ok_filled:
  assumes "entry_ok i e" "0 < q" "q < exposed e"
  shows "entry_ok i (filled_entry q e)"
proof -
  have "admissible (e_order (filled_entry q e)) = admissible (e_order e)" by (simp add: admissible_def)
  with assms show ?thesis by (auto simp: entry_ok_def exposed_def is_iceberg_def filled_entry_def)
qed

lemma entry_ok_replenished:
  assumes "entry_ok i e" "is_iceberg e" "slice e < leaves (e_order e)"
  shows "entry_ok i (replenished (filled_entry (slice e) e) k)"
  using assms by (auto simp: entry_ok_def is_iceberg_def replenished_def filled_entry_def admissible_def)

lemma entry_ok_moved: "entry_ok i e \<Longrightarrow> entry_ok i (moved e p k)"
  by (simp add: entry_ok_def moved_def admissible_def)

lemma in_step_fill_replenish:
  assumes ok: "table_ok m" and sync: "in_step m sb" and old: "m i = Some e" and t: "maker_id t = i" "t_qty t = slice e"
    and e: "is_iceberg e" "slice e < leaves (e_order e)" and e': "e' = replenished (filled_entry (t_qty t) e) k"
  shows "in_step (m(i \<mapsto> e')) (fold apply_book
      [trade_event sy t (t_qty t), order_event kReplenish sy (e_order e') (slice e') (slice e')] sb)"
proof -
  have eo: "entry_ok i e" using ok old by (simp add: table_ok_def)
  then have nh: "\<not> is_hidden e" and i: "oid (e_order e) = i" using e(1) by (auto simp: entry_ok_alt entry_ok_def)
  let ?e = "filled_entry (t_qty t) e" let ?m = "m(i \<mapsto> ?e)"
  let ?sb = "apply_book (trade_event sy t (t_qty t)) sb"
  have s1: "in_step ?m ?sb" using in_step_fill [OF ok sync old t(1), of sy] t(2) e(2) nh by simp
  have zero: "shown ?e = 0" and ice: "is_iceberg ?e" "\<not> is_hidden ?e"
    using e(1) nh t(2) by (simp_all add: shown_alt)
  have m': "?m(i \<mapsto> e') = m(i \<mapsto> e')" and at: "?m i = Some ?e" by simp_all
  have fin: "finite (dom ?m)" using ok by (simp add: table_ok_def)
  have nn: "0 \<le> tot e_leaves ?m s p" "0 \<le> tot shown ?m s p" for s p
  proof -
    have "tot e_leaves ?m s p = tot e_leaves (m(i := None)) s p + (if side (e_order ?e) = s \<and> price (e_order ?e) = p then e_leaves ?e else 0)"
      "tot shown ?m s p = tot shown (m(i := None)) s p + (if side (e_order ?e) = s \<and> price (e_order ?e) = p then shown ?e else 0)"
      using tot_split [of m _ i ?e s p] ok by (simp_all only: table_ok_def)
    then show "0 \<le> tot e_leaves ?m s p" "0 \<le> tot shown ?m s p"
      using tot_nonneg [OF table_ok_delete [OF ok, of i], of s p] e(2) t(2) zero by (simp_all split: if_splits)
  qed
  have "in_step (?m(i \<mapsto> e')) (apply_book (order_event kReplenish sy (e_order e') (slice e') (slice e')) ?sb)"
    by (rule in_step_replenish [OF fin nn s1 at _ zero e' ice]) (simp add: i)
  then show ?thesis unfolding m' by simp
qed

lemma in_step_table_step:
  assumes "table_step False sy m es m'" "table_ok m" "in_step m sb"
  shows "table_ok m' \<and> in_step m' (fold apply_book es sb) \<and> (\<forall>ev \<in> set es. ev_symbol ev = sy)"
  using assms
proof (cases rule: table_step.cases)
  case silent
  with assms show ?thesis by simp
next
  case (marker x q d)
  with assms show ?thesis by (simp add: apply_book_def)
next
  case (outside_trade t d)
  with assms show ?thesis by (simp add: apply_book_def apply_trade_def in_step_def)
next
  case (join i e)
  with assms in_step_add table_ok_update show ?thesis by simp
next
  case (leave i e)
  with assms in_step_cancel table_ok_delete show ?thesis by simp
next
  case (fill_part i e t)
  have "t_qty t < leaves (e_order e)" using fill_part exposed_bounds by fastforce
  with assms fill_part in_step_fill [of m sb i e t sy] entry_ok_filled table_ok_update show ?thesis by simp
next
  case (fill_out i e t)
  with assms in_step_fill_out [of m sb i e t sy] table_ok_delete show ?thesis by simp
next
  case (fill_replenish i e t e' k)
  then have "entry_ok i e'" using entry_ok_replenished by simp
  with assms fill_replenish in_step_fill_replenish [of m sb i e t e' k sy] table_ok_update show ?thesis by simp
next
  case (move i e p k)
  with assms in_step_move entry_ok_moved table_ok_update show ?thesis by simp
qed simp_all

lemma in_step_table_steps:
  "table_steps False sy m es m' \<Longrightarrow> table_ok m \<Longrightarrow> in_step m sb \<Longrightarrow>
   table_ok m' \<and> in_step m' (fold apply_book es sb) \<and> (\<forall>ev \<in> set es. ev_symbol ev = sy)"
proof (induction arbitrary: sb rule: table_steps.induct)
  case (more m es m' es' m'')
  from in_step_table_step [OF more.hyps(1) more.prems] more.IH [of "fold apply_book es sb"] show ?case by auto
qed simp

subsection \<open>Applying a stream of events\<close>

definition apply_events :: "BookEvent list \<Rightarrow> BookReplica \<Rightarrow> BookReplica" where
  "apply_events es r = fold (\<lambda>ev r. snd (apply_event ev r)) es r"

lemma apply_events_simps [simp]:
  "apply_events [] r = r" "apply_events (ev # es) r = apply_events es (snd (apply_event ev r))"
  "apply_events (es @ es') r = apply_events es' (apply_events es r)"
  by (simp_all add: apply_events_def)

lemma sym_book_apply_event:
  "sym_book (snd (apply_event ev r)) sy =
     (if sy = ev_symbol ev then apply_book ev (sym_book r sy) else sym_book r sy)"
  by (simp add: apply_event_def Let_def sym_book_def)

lemma sym_book_apply_events:
  "sym_book (apply_events es r) sy = fold apply_book (filter (\<lambda>ev. ev_symbol ev = sy) es) (sym_book r sy)"
  by (induction es arbitrary: r) (auto simp: sym_book_apply_event)

lemma apply_book_seq [simp]: "apply_book (ev\<lparr>ev_seq := k\<rparr>) = apply_book ev"
  by (simp add: apply_book_def apply_add_def apply_cancel_def apply_trade_def apply_reprice_def apply_replenish_def
      Let_def fun_eq_iff split: BookEventType.splits option.splits)

subsection \<open>What an in-step replica shows\<close>

lemma book_table_ok: "book_core b \<Longrightarrow> table_ok (omap b)"
  by (auto simp: table_ok_def finite_dom_map_of dest: book_coreD)

lemma tot_level:
  assumes core: "book_core b"
  shows "tot e_leaves (omap b) s p = total (lvl b s p)" "tot shown (omap b) s p = displayed (lvl b s p)"
proof -
  let ?l = "lvl b s p"
  have ok: "lvl_ok (omap b) s p ?l" using book_coreD(3) [OF core, of s] by (simp add: lvls_ok_def)
  have S: "set (fifo ?l) = {i \<in> dom (omap b). side (e_order (the (omap b i))) = s \<and> price (e_order (the (omap b i))) = p}"
    using ok unfolding lvl_ok_def by force
  have "tot g (omap b) s p = (\<Sum>i\<leftarrow>fifo ?l. g (the (omap b i)))" for g
  proof -
    have "tot g (omap b) s p = (\<Sum>i \<in> set (fifo ?l). g (the (omap b i)))"
      unfolding tot_def S Let_def by (rule sum.inter_filter [symmetric]) (simp add: finite_dom_map_of)
    also have "\<dots> = (\<Sum>i\<leftarrow>fifo ?l. g (the (omap b i)))"
      using ok by (simp add: lvl_ok_def sum_list_distinct_conv_sum_set)
    finally show ?thesis .
  qed
  with ok show "tot e_leaves (omap b) s p = total ?l" "tot shown (omap b) s p = displayed ?l"
    by (simp_all add: lvl_ok_def)
qed

lemma in_step_maps:
  assumes core: "book_core b" and sync: "in_step (omap b) sb"
  shows "map_of (side_map sb s) p = pos (total (lvl b s p))" "map_of (disp_map sb s) p = pos (displayed (lvl b s p))"
    "price_sorted (side_map sb s)" "price_sorted (disp_map sb s)"
    "map_of (rb_orders sb) i = map_option view_of (omap b i)"
  using sync tot_level [OF core] by (simp_all add: in_step_def tracks_def)

text \<open>The top of a sorted price map.\<close>

lemma price_sorted_top:
  assumes "price_sorted m" "m \<noteq> []"
  shows "map_of m (fst (hd m)) = Some (snd (hd m))" "map_of m (fst (last m)) = Some (snd (last m))"
    "map_of m p = Some q \<Longrightarrow> fst (hd m) \<le> p" "map_of m p = Some q \<Longrightarrow> p \<le> fst (last m)"
proof -
  have d: "distinct (map fst m)" and so: "sorted (map fst m)" using assms(1) by (simp_all add: price_sorted_def strict_sorted_iff)
  show "map_of m (fst (hd m)) = Some (snd (hd m))" "map_of m (fst (last m)) = Some (snd (last m))"
    using assms(2) d by simp_all
  show "fst (hd m) \<le> p" if "map_of m p = Some q"
  proof -
    have "p \<in> set (map fst m)" using map_of_Some_key [OF that] by simp
    then show ?thesis using so assms(2) by (cases m) auto
  qed
  show "p \<le> fst (last m)" if "map_of m p = Some q"
  proof -
    have "p \<in> set (map fst m)" using map_of_Some_key [OF that] by simp
    then obtain k where k: "k < length m" "map fst m ! k = p" by (auto simp: in_set_conv_nth)
    have "map fst m ! k \<le> map fst m ! (length m - 1)" using so k(1) by (intro sorted_nth_mono) auto
    then show ?thesis using k assms(2) by (simp add: last_conv_nth)
  qed
qed

lemma replica_best_book:
  assumes core: "book_core b" and caches: "caches_ok b" and sync: "in_step (omap b) sb"
    and sb: "map_of (rep_books r) sy = Some sb"
  shows "best_of_side r sy s False = map_option (\<lambda>p. (p, total (lvl b s p))) (fst (ladder_best (ladder b s)))"
proof -
  let ?m = "side_map sb s" and ?L = "ladder b s"
  note M = in_step_maps [OF core sync]
  have side: "l_side ?L = s" by (rule book_coreD(1) [OF core])
  have spec: "case fst (ladder_best ?L) of None \<Rightarrow> \<forall>q. \<not> 0 < total (lvl b s q) | Some p \<Rightarrow> is_best ?L p"
    using ladder_best_spec [OF book_coreD(2) [OF core], of s] caches by (auto simp: caches_ok_def lvl_def split: option.splits)
  have best: "best_of_side r sy s False = (if ?m = [] then None else Some (if s = Buy then last ?m else hd ?m))"
    by (simp add: best_of_side_def sb view_map_def Let_def)
  show ?thesis
  proof (cases "?m = []")
    case True
    then have "\<not> 0 < total (lvl b s q)" for q using M(1) [of s q] by (simp add: pos_def split: if_splits)
    then have "fst (ladder_best ?L) = None" using spec by (auto simp: is_best_def lvl_def split: option.splits)
    with True best show ?thesis by simp
  next
    case False
    note T = price_sorted_top [OF M(3) [of s] False]
    define x where "x = (if s = Buy then last ?m else hd ?m)"
    have x: "map_of ?m (fst x) = Some (snd x)" using T(1,2) by (cases "s = Buy") (auto simp: x_def)
    then have tx: "0 < total (lvl b s (fst x))" "snd x = total (lvl b s (fst x))"
      using M(1) [of s "fst x"] by (simp_all add: pos_def split: if_splits)
    then obtain p where p: "fst (ladder_best ?L) = Some p" "is_best ?L p" using spec by (auto split: option.splits)
    have "0 < total (lvl b s p)" using p(2) by (simp add: is_best_def lvl_def)
    then have mp: "map_of ?m p = Some (total (lvl b s p))" using M(1) [of s p] by (simp add: pos_def)
    then have "\<not> better ?L p (fst x)" using T(3) [OF mp] T(4) [OF mp] side by (auto simp: better_def x_def split: if_splits)
    moreover have "\<not> better ?L (fst x) p" using p(2) tx(1) by (simp add: is_best_def lvl_def)
    ultimately have "p = fst x" by (auto simp: better_def split: if_splits)
    with False best p(1) tx(2) show ?thesis by (simp add: x_def prod_eq_iff)
  qed
qed

end
