(* ===== verification/Matching_Engine.thy ===== *)
theory Matching_Engine
  imports Replica
begin

section \<open>The per-symbol matching engine (core/matching\_engine.cc)\<close>

text \<open>
  \<open>MatchingEngine\<close> routes each operation to the book of its symbol, creating the book on
  first use, and is the event sink of every book: it stamps each event with one global
  sequence number and forwards it to the feed. Books call their sink synchronously and the
  sink does not call back, so an operation's events are forwarded, in order, when it returns;
  \<open>feed\<close> is the log of the events handed to the downstream sink.
\<close>

record Engine =
  eng_stp :: StpPolicy
  eng_mem_levels :: nat
  books :: "(Symbol \<times> Book) list"
  feed_sink :: bool
  feed :: "BookEvent list"
  event_seq :: SeqNo
  seq_base :: SeqNo

definition new_Engine :: "StpPolicy \<Rightarrow> nat \<Rightarrow> Engine" where
  "new_Engine policy n = \<lparr>eng_stp = policy, eng_mem_levels = n, books = [], feed_sink = False, feed = [],
     event_seq = 0, seq_base = 1\<rparr>"

definition fresh_book :: "Symbol \<Rightarrow> Engine \<Rightarrow> Book" where
  "fresh_book sy M = set_next_seq (seq_base M) (set_event_sink True
     (set_symbol sy (new_Book (eng_stp M) (eng_mem_levels M))))"

definition book_of :: "Symbol \<Rightarrow> Engine \<Rightarrow> Book option" where
  "book_of sy M = map_of (books M) sy"

definition book_for :: "Symbol \<Rightarrow> Engine \<Rightarrow> Book" where
  "book_for sy M = (case map_of (books M) sy of Some b \<Rightarrow> b | None \<Rightarrow> fresh_book sy M)"

definition set_seq_base :: "SeqNo \<Rightarrow> Engine \<Rightarrow> Engine" where
  "set_seq_base k M = M\<lparr>seq_base := k, books := map (\<lambda>(sy, b). (sy, set_next_seq k b)) (books M)\<rparr>"

definition engine_on_event :: "BookEvent \<Rightarrow> Engine \<Rightarrow> Engine" where
  "engine_on_event ev M =
     (let M1 = M\<lparr>event_seq := event_seq M + 1\<rparr>
      in if \<not> feed_sink M1 then M1
         else M1\<lparr>feed := feed M1 @ [ev\<lparr>ev_seq := event_seq M1\<rparr>]\<rparr>)"

definition store_book :: "Symbol \<Rightarrow> Book \<Rightarrow> Engine \<Rightarrow> Engine" where
  "store_book sy b M =
     fold engine_on_event (events b) (M\<lparr>books := AList.update sy (b\<lparr>events := []\<rparr>) (books M)\<rparr>)"

definition engine_submit :: "Symbol \<Rightarrow> Order \<Rightarrow> Engine \<Rightarrow> (SubmitOutcome \<times> Engine) option" where
  "engine_submit sy order M = do {
     (out, b) \<leftarrow> submit order (book_for sy M);
     Some (out, store_book sy b M)
   }"

definition engine_cancel :: "Symbol \<Rightarrow> OrderId \<Rightarrow> Engine \<Rightarrow> (bool \<times> Engine) option" where
  "engine_cancel sy i M =
     (case map_of (books M) sy of
        None \<Rightarrow> Some (False, M)
      | Some b \<Rightarrow> do { (r, b') \<leftarrow> cancel i b; Some (r, store_book sy b' M) })"

definition engine_take_requeued :: "Symbol \<Rightarrow> Engine \<Rightarrow> Order list \<times> Engine" where
  "engine_take_requeued sy M =
     (case map_of (books M) sy of
        None \<Rightarrow> ([], M)
      | Some b \<Rightarrow> let (xs, b') = take_requeued b in (xs, store_book sy b' M))"

definition engine_find :: "Symbol \<Rightarrow> OrderId \<Rightarrow> Engine \<Rightarrow> Order option" where
  "engine_find sy i M = (case book_of sy M of None \<Rightarrow> None | Some b \<Rightarrow> find_order i b)"

definition engine_best_bid :: "Symbol \<Rightarrow> Engine \<Rightarrow> Ticks option \<times> Engine" where
  "engine_best_bid sy M =
     (case book_of sy M of None \<Rightarrow> (None, M) | Some b \<Rightarrow> let (p, b') = best_bid b in (p, store_book sy b' M))"

definition engine_best_ask :: "Symbol \<Rightarrow> Engine \<Rightarrow> Ticks option \<times> Engine" where
  "engine_best_ask sy M =
     (case book_of sy M of None \<Rightarrow> (None, M) | Some b \<Rightarrow> let (p, b') = best_ask b in (p, store_book sy b' M))"

definition engine_total_qty_at :: "Symbol \<Rightarrow> Side \<Rightarrow> Ticks \<Rightarrow> Engine \<Rightarrow> Quantity" where
  "engine_total_qty_at sy s p M = (case book_of sy M of None \<Rightarrow> 0 | Some b \<Rightarrow> total_qty_at b s p)"

definition engine_displayed_qty_at :: "Symbol \<Rightarrow> Side \<Rightarrow> Ticks \<Rightarrow> Engine \<Rightarrow> Quantity" where
  "engine_displayed_qty_at sy s p M = (case book_of sy M of None \<Rightarrow> 0 | Some b \<Rightarrow> displayed_qty_at b s p)"

definition engine_resting_count :: "Symbol \<Rightarrow> Engine \<Rightarrow> nat" where
  "engine_resting_count sy M = (case book_of sy M of None \<Rightarrow> 0 | Some b \<Rightarrow> resting_count b)"

definition engine_expire :: "Symbol \<Rightarrow> Timestamp \<Rightarrow> Engine \<Rightarrow> (OrderId list \<times> Engine) option" where
  "engine_expire sy now M =
     (case map_of (books M) sy of
        None \<Rightarrow> Some ([], M)
      | Some b \<Rightarrow> do { (ids, b') \<leftarrow> expire now b; Some (ids, store_book sy b' M) })"

definition engine_seed_position :: "Symbol \<Rightarrow> ClientId \<Rightarrow> Quantity \<Rightarrow> Engine \<Rightarrow> Engine" where
  "engine_seed_position sy c q M = store_book sy (seed_position c q (book_for sy M)) M"

definition engine_position :: "Symbol \<Rightarrow> ClientId \<Rightarrow> Engine \<Rightarrow> Quantity" where
  "engine_position sy c M = (case book_of sy M of None \<Rightarrow> 0 | Some b \<Rightarrow> position b c)"

definition engine_run_opening :: "Symbol \<Rightarrow> Engine \<Rightarrow> (Trade list \<times> Engine) option" where
  "engine_run_opening sy M = do {
     (ts, b) \<leftarrow> run_opening_auction (book_for sy M);
     Some (ts, store_book sy b M)
   }"

definition engine_run_closing :: "Symbol \<Rightarrow> Engine \<Rightarrow> (Trade list \<times> Engine) option" where
  "engine_run_closing sy M = do {
     (ts, b) \<leftarrow> run_closing_auction (book_for sy M);
     Some (ts, store_book sy b M)
   }"

definition engine_auction_count :: "Symbol \<Rightarrow> bool \<Rightarrow> Engine \<Rightarrow> nat" where
  "engine_auction_count sy opening M = (case book_of sy M of None \<Rightarrow> 0 | Some b \<Rightarrow> auction_count b opening)"

definition engine_insert_resident :: "Symbol \<Rightarrow> Order \<Rightarrow> Engine \<Rightarrow> Engine" where
  "engine_insert_resident sy order M = store_book sy (insert_resident order (book_for sy M)) M"

definition engine_has_deep :: "Symbol \<Rightarrow> Side \<Rightarrow> Engine \<Rightarrow> bool" where
  "engine_has_deep sy s M = (case book_of sy M of None \<Rightarrow> False | Some b \<Rightarrow> has_deep b s)"

definition engine_worst_resident :: "Symbol \<Rightarrow> Side \<Rightarrow> Engine \<Rightarrow> Ticks option" where
  "engine_worst_resident sy s M = (case book_of sy M of None \<Rightarrow> None | Some b \<Rightarrow> worst_resident b s)"

definition has_symbol :: "Symbol \<Rightarrow> Engine \<Rightarrow> bool" where
  "has_symbol sy M = (map_of (books M) sy \<noteq> None)"

definition symbol_count :: "Engine \<Rightarrow> nat" where
  "symbol_count M = length (books M)"

definition set_book_event_sink :: "bool \<Rightarrow> Engine \<Rightarrow> Engine" where
  "set_book_event_sink on M = M\<lparr>feed_sink := on\<rparr>"

definition last_event_seq :: "Engine \<Rightarrow> SeqNo" where
  "last_event_seq M = event_seq M"

subsection \<open>Forwarding events\<close>

fun stamp_from :: "SeqNo \<Rightarrow> BookEvent list \<Rightarrow> BookEvent list" where
  "stamp_from k [] = []"
| "stamp_from k (ev # es) = ev\<lparr>ev_seq := k + 1\<rparr> # stamp_from (k + 1) es"

lemma fold_on_event:
  "books (fold engine_on_event es M) = books M" "eng_stp (fold engine_on_event es M) = eng_stp M"
  "eng_mem_levels (fold engine_on_event es M) = eng_mem_levels M" "feed_sink (fold engine_on_event es M) = feed_sink M"
  "seq_base (fold engine_on_event es M) = seq_base M" "event_seq (fold engine_on_event es M) = event_seq M + length es"
  "feed (fold engine_on_event es M) = feed M @ (if feed_sink M then stamp_from (event_seq M) es else [])"
  by (induction es arbitrary: M) (simp_all add: engine_on_event_def Let_def)

lemma store_book_frame [simp]:
  "eng_stp (store_book sy b M) = eng_stp M" "eng_mem_levels (store_book sy b M) = eng_mem_levels M"
  "feed_sink (store_book sy b M) = feed_sink M" "seq_base (store_book sy b M) = seq_base M"
  "books (store_book sy b M) = AList.update sy (b\<lparr>events := []\<rparr>) (books M)"
  "event_seq (store_book sy b M) = event_seq M + length (events b)"
  "feed (store_book sy b M) = feed M @ (if feed_sink M then stamp_from (event_seq M) (events b) else [])"
  by (simp_all add: store_book_def fold_on_event)

text \<open>A consumer of consecutive stamps sees no gap and applies the events themselves.\<close>

lemma apply_stamped:
  assumes "last_seq r = k"
  shows "gaps (apply_events (stamp_from k es) r) = gaps r" "last_seq (apply_events (stamp_from k es) r) = k + length es"
    "sym_book (apply_events (stamp_from k es) r) sy = sym_book (apply_events es r) sy"
proof -
  have "gaps (apply_events (stamp_from k es) r) = gaps r \<and> last_seq (apply_events (stamp_from k es) r) = k + length es"
    using assms by (induction es arbitrary: k r) (simp_all add: apply_event_def Let_def)
  then show "gaps (apply_events (stamp_from k es) r) = gaps r" "last_seq (apply_events (stamp_from k es) r) = k + length es"
    by simp_all
  have "fold apply_book (filter (\<lambda>ev. ev_symbol ev = sy) (stamp_from k es)) sb =
      fold apply_book (filter (\<lambda>ev. ev_symbol ev = sy) es) sb" for sb
    by (induction es arbitrary: k sb) simp_all
  then show "sym_book (apply_events (stamp_from k es) r) sy = sym_book (apply_events es r) sy"
    by (simp add: sym_book_apply_events)
qed

subsection \<open>The engine's invariant\<close>

definition hosted :: "Engine \<Rightarrow> Symbol \<Rightarrow> Book \<Rightarrow> bool" where
  "hosted M sy b \<longleftrightarrow> book_ok b \<and> book_symbol b = sy \<and> event_sink b \<and> mem_levels b = eng_mem_levels M \<and> stp b = eng_stp M"

definition engine_ok :: "Engine \<Rightarrow> bool" where
  "engine_ok M \<longleftrightarrow> (\<forall>sy b. map_of (books M) sy = Some b \<longrightarrow> hosted M sy b \<and> events b = [])"

lemma fresh_book_frame [simp]:
  "ladder (fresh_book sy M) = ladder (new_Book (eng_stp M) (eng_mem_levels M))" "orders (fresh_book sy M) = []"
  "pegged (fresh_book sy M) = []" "stops (fresh_book sy M) = []" "opening_auction (fresh_book sy M) = []"
  "closing_auction (fresh_book sy M) = []" "groups (fresh_book sy M) = []" "events (fresh_book sy M) = []"
  "book_symbol (fresh_book sy M) = sy" "event_sink (fresh_book sy M)" "mem_levels (fresh_book sy M) = eng_mem_levels M"
  "stp (fresh_book sy M) = eng_stp M" "order_group (fresh_book sy M) = Map.empty"
  by (simp_all add: fresh_book_def set_next_seq_def set_event_sink_def set_symbol_def)
    (simp_all add: new_Book_def)

lemma fresh_book_ok: "hosted M sy (fresh_book sy M)"
proof -
  let ?n = "new_Book (eng_stp M) (eng_mem_levels M)"
  have ok: "book_ok ?n" by (rule new_Book_ok)
  have "book_core (fresh_book sy M)"
    by (rule book_core_cong [of ?n]) (use ok in \<open>simp_all add: book_ok_def\<close>, simp_all add: new_Book_def)
  moreover have "caches_ok (fresh_book sy M)" using ok by (simp add: book_ok_def caches_ok_def)
  moreover have "pools_ok (fresh_book sy M)" by (simp add: pools_ok_def waiting_def pending_orders_def)
  ultimately show ?thesis by (simp add: hosted_def book_ok_def)
qed

lemma book_for_ok: "engine_ok M \<Longrightarrow> hosted M sy (book_for sy M) \<and> events (book_for sy M) = []"
  by (auto simp: book_for_def engine_ok_def fresh_book_ok split: option.split)

lemma hosted_progress: "hosted M sy b \<Longrightarrow> progress k I b b' \<Longrightarrow> hosted M sy b'"
  by (simp add: hosted_def progress_def evolves_def)

lemma events_ok:
  assumes "book_ok b"
  shows "book_ok (b\<lparr>events := es\<rparr>)"
proof -
  have "book_core (b\<lparr>events := es\<rparr>)" by (rule book_core_cong [of b]) (use assms in \<open>simp_all add: book_ok_def\<close>)
  moreover have "pools_ok (b\<lparr>events := es\<rparr>)"
    by (rule pools_ok_cong [of b]) (use assms in \<open>simp_all add: book_ok_def pools_eq_def\<close>)
  ultimately show ?thesis using assms by (simp add: book_ok_def caches_ok_def)
qed

lemma store_book_ok:
  assumes "engine_ok M" "hosted M sy b"
  shows "engine_ok (store_book sy b M)"
  using assms events_ok by (auto simp: engine_ok_def hosted_def)

lemma book_for_store:
  "book_for sy' (store_book sy b M) = (if sy' = sy then b\<lparr>events := []\<rparr> else book_for sy' M)"
  by (simp add: book_for_def fresh_book_def split: option.split)

subsection \<open>Books that change\<close>

lemma seed_position_progress: "book_ok b \<Longrightarrow> progress 0 {} b (seed_position c q b)"
  by (rule cong_progress) (auto simp: seed_position_def pools_eq_def position_of_def reserved_on_def intro!: evolves_silent)

lemma take_requeued_progress: "book_ok b \<Longrightarrow> progress 0 {} b (snd (take_requeued b))"
  by (rule cong_progress) (auto simp: take_requeued_def pools_eq_def position_of_def intro!: evolves_silent)

lemma set_next_seq_progress: "book_ok b \<Longrightarrow> progress 0 {} b (set_next_seq k b)"
  by (rule cong_progress) (auto simp: set_next_seq_def pools_eq_def position_of_def intro!: evolves_silent)

lemma best_bid_progress: "book_ok b \<Longrightarrow> progress 0 {} b (snd (best_bid b))"
  using read_best_progress [of b Buy] by (simp add: best_bid_def upd_ladder_def ladder_def split_def Let_def)

lemma best_ask_progress: "book_ok b \<Longrightarrow> progress 0 {} b (snd (best_ask b))"
  using read_best_progress [of b Sell] by (simp add: best_ask_def upd_ladder_def ladder_def split_def Let_def)

lemma auction_progress:
  assumes "book_ok b"
  shows "\<exists>ts b'. cross_auction op_en b = Some (ts, b') \<and> progress 0 {} b b'"
proof -
  from cross_auction_ok [OF assms, of op_en] obtain b' ts new
    where c: "cross_auction op_en b = Some (ts @ new, b')" "book_ok b'" "evolves b b'" "groups b' = groups b"
      "all_ids b' \<subseteq> all_ids b" by (elim exE conjE) (rule that; assumption)
  then have "progress 0 {} b b'" by (simp add: progress_def pending_orders_def)
  with c(1) show ?thesis by blast
qed

text \<open>The operations of the engine as steps; a submitted order brings an id its book does not know.\<close>

inductive engine_step :: "Engine \<Rightarrow> Engine \<Rightarrow> bool" where
  submitted: "engine_submit sy x M = Some (out, M') \<Longrightarrow> oid x \<notin> all_ids (book_for sy M) \<Longrightarrow> well_formed x
    \<Longrightarrow> engine_step M M'"
| cancelled: "engine_cancel sy i M = Some (r, M') \<Longrightarrow> engine_step M M'"
| expired: "engine_expire sy now M = Some (ids, M') \<Longrightarrow> engine_step M M'"
| opened: "engine_run_opening sy M = Some (ts, M') \<Longrightarrow> engine_step M M'"
| closed: "engine_run_closing sy M = Some (ts, M') \<Longrightarrow> engine_step M M'"
| seeded: "engine_step M (engine_seed_position sy c q M)"
| drained: "engine_step M (snd (engine_take_requeued sy M))"
| based: "engine_step M (set_seq_base k M)"
| bid_read: "engine_step M (snd (engine_best_bid sy M))"
| ask_read: "engine_step M (snd (engine_best_ask sy M))"

inductive engine_reaches :: "Engine \<Rightarrow> Engine \<Rightarrow> bool" for M0 :: Engine where
  start: "engine_reaches M0 M0"
| step: "engine_reaches M0 M \<Longrightarrow> engine_step M M' \<Longrightarrow> engine_reaches M0 M'"

definition touches :: "Engine \<Rightarrow> Engine \<Rightarrow> bool" where
  "touches M M' \<longleftrightarrow> M' = M \<or> (\<exists>k. M' = set_seq_base k M)
     \<or> (\<exists>sy k I b. M' = store_book sy b M \<and> progress k I (book_for sy M) b)"

lemma touchesI: "progress k I (book_for sy M) b \<Longrightarrow> touches M (store_book sy b M)"
  by (auto simp: touches_def)

lemma engine_step_touches:
  assumes "engine_step M M'" "engine_ok M"
  shows "touches M M'"
proof -
  have ok: "book_ok (book_for sy M)" for sy using book_for_ok [OF assms(2)] by (simp add: hosted_def)
  have at: "map_of (books M) sy = Some b \<Longrightarrow> book_for sy M = b" for sy b by (simp add: book_for_def)
  have same: "touches M M" by (simp add: touches_def)
  from assms(1) show ?thesis
  proof cases
    case (submitted sy x out)
    from submit_ok [OF ok submitted(2,3)] submitted(1) show ?thesis
      by (auto simp: engine_submit_def intro: touchesI)
  next
    case (cancelled sy i r)
    with cancel_ok [OF ok, of i sy] same show ?thesis
      by (auto simp: engine_cancel_def at split: option.splits intro: touchesI dest!: at)
  next
    case (expired sy now ids)
    with expire_ok [OF ok, of now sy] same show ?thesis
      by (auto simp: engine_expire_def split: option.splits intro: touchesI dest!: at)
  next
    case (opened sy ts)
    with auction_progress [OF ok, of True sy] show ?thesis
      by (auto simp: engine_run_opening_def run_opening_auction_def intro: touchesI)
  next
    case (closed sy ts)
    with auction_progress [OF ok, of False sy] show ?thesis
      by (auto simp: engine_run_closing_def run_closing_auction_def intro: touchesI)
  next
    case (seeded sy c q)
    then show ?thesis using touchesI [OF seed_position_progress [OF ok]] by (simp add: engine_seed_position_def)
  next
    case (drained sy)
    with touchesI [OF take_requeued_progress [OF ok], of sy] same show ?thesis
      by (auto simp: engine_take_requeued_def split_def Let_def split: option.split dest!: at)
  next
    case (based k)
    then show ?thesis by (auto simp: touches_def)
  next
    case (bid_read sy)
    with touchesI [OF best_bid_progress [OF ok], of sy] same show ?thesis
      by (auto simp: engine_best_bid_def book_of_def split_def Let_def split: option.split dest!: at)
  next
    case (ask_read sy)
    with touchesI [OF best_ask_progress [OF ok], of sy] same show ?thesis
      by (auto simp: engine_best_ask_def book_of_def split_def Let_def split: option.split dest!: at)
  qed
qed

subsection \<open>The feed mirrors the books\<close>

definition mirrors :: "Engine \<Rightarrow> BookReplica \<Rightarrow> bool" where
  "mirrors M r \<longleftrightarrow> (\<forall>sy. in_step (omap (book_for sy M)) (sym_book r sy)) \<and> last_seq r = event_seq M \<and> gaps r = 0"

definition feeding :: "Engine \<Rightarrow> bool" where
  "feeding M \<longleftrightarrow> engine_ok M \<and> feed_sink M \<and> eng_mem_levels M = 0
     \<and> mirrors M (apply_events (feed M) new_BookReplica)"

lemma in_step_empty: "in_step Map.empty new_SymBook"
  by (simp add: in_step_def tracks_def tot_def price_sorted_def side_map_def disp_map_def new_SymBook_def pos_def)

lemma start_feeding: "feeding (set_book_event_sink True (new_Engine policy 0))"
  by (simp add: feeding_def mirrors_def engine_ok_def set_book_event_sink_def new_Engine_def book_for_def
      new_BookReplica_def sym_book_def in_step_empty)

lemma set_seq_base_feeding:
  assumes "feeding M"
  shows "feeding (set_seq_base k M)"
proof -
  let ?M = "set_seq_base k M"
  have at: "map_of (books ?M) sy = map_option (set_next_seq k) (map_of (books M) sy)" for sy
    using map_of_map [of "set_next_seq k" "books M"] by (simp add: set_seq_base_def split_def)
  have om: "omap (book_for sy ?M) = omap (book_for sy M)" for sy
  proof (cases "map_of (books M) sy")
    case None
    then show ?thesis by (simp add: book_for_def at)
  next
    case (Some b)
    then show ?thesis by (simp add: book_for_def at set_next_seq_def)
  qed
  have "engine_ok ?M"
    unfolding engine_ok_def
  proof (intro allI impI)
    fix sy b assume "map_of (books ?M) sy = Some b"
    then obtain b0 where b0: "map_of (books M) sy = Some b0" "b = set_next_seq k b0" by (auto simp: at)
    have h: "hosted M sy b0" "events b0 = []" using assms b0(1) by (simp_all add: feeding_def engine_ok_def)
    then have "hosted M sy b" using hosted_progress [OF h(1) set_next_seq_progress] b0(2) by (simp add: hosted_def)
    moreover have "events b = []" using h(2) b0(2) by (simp add: set_next_seq_def)
    ultimately show "hosted ?M sy b \<and> events b = []" by (simp add: hosted_def set_seq_base_def)
  qed
  with assms show ?thesis by (simp add: feeding_def mirrors_def om) (simp add: set_seq_base_def)
qed

lemma store_book_feeding:
  assumes M: "feeding M" and p: "progress k I (book_for sy M) b"
  shows "feeding (store_book sy b M)"
proof -
  let ?b = "book_for sy M" and ?r = "apply_events (feed M) new_BookReplica" and ?M = "store_book sy b M"
  have ok: "engine_ok M" "feed_sink M" "eng_mem_levels M = 0" and mi: "mirrors M ?r" using M by (simp_all add: feeding_def)
  have h: "hosted M sy ?b" "events ?b = []" using book_for_ok [OF ok(1)] by simp_all
  from p obtain es where es: "table_steps False sy (omap ?b) es (omap b)" "events b = es"
    using h ok(3) by (auto simp: progress_def evolves_def hosted_def)
  have tab: "table_ok (omap ?b)" using h(1) by (simp add: hosted_def book_ok_def book_table_ok)
  have ls: "last_seq ?r = event_seq M" "gaps ?r = 0" using mi by (simp_all add: mirrors_def)
  let ?r' = "apply_events (stamp_from (event_seq M) es) ?r"
  have feed: "apply_events (feed ?M) new_BookReplica = ?r'" using ok(2) es(2) by simp
  have "in_step (omap (book_for sy' ?M)) (sym_book ?r' sy')" for sy'
  proof -
    have "in_step (omap ?b) (sym_book ?r sy)" using mi by (simp add: mirrors_def)
    note S = in_step_table_steps [OF es(1) tab this]
    have filt: "filter (\<lambda>ev. ev_symbol ev = sy') es = (if sy' = sy then es else [])"
      using S by (auto simp: filter_empty_conv)
    have "in_step (omap (book_for sy' M)) (sym_book ?r sy')" using mi by (simp add: mirrors_def)
    moreover have "sym_book ?r' sy' = fold apply_book (if sy' = sy then es else []) (sym_book ?r sy')"
      unfolding apply_stamped(3) [OF ls(1)] sym_book_apply_events [of es] filt ..
    ultimately show ?thesis using S by (simp add: book_for_store)
  qed
  moreover have "last_seq ?r' = event_seq ?M" "gaps ?r' = 0"
    using apply_stamped(1,2) [OF ls(1)] ls(2) es(2) by simp_all
  moreover have "engine_ok ?M" by (rule store_book_ok [OF ok(1) hosted_progress [OF h(1) p]])
  ultimately show ?thesis using ok unfolding feeding_def mirrors_def feed by simp
qed

lemma engine_step_feeding: "engine_step M M' \<Longrightarrow> feeding M \<Longrightarrow> feeding M'"
  using engine_step_touches [of M M'] store_book_feeding set_seq_base_feeding
  by (auto simp: touches_def feeding_def)

lemma reaches_feeding:
  "engine_reaches M0 M \<Longrightarrow> M0 = set_book_event_sink True (new_Engine policy 0) \<Longrightarrow> feeding M"
  by (induction rule: engine_reaches.induct) (auto simp: start_feeding intro: engine_step_feeding)

end
