(* ===== verification/Book_Properties.thy ===== *)
theory Book_Properties
  imports Matching_Engine
begin

section \<open>The properties of the order book\<close>

text \<open>
  What \<open>OrderBook\<close> promises its callers, over the lemmas of the component theories: that
  every operation returns and keeps the invariant, that matching takes the best prices first
  and stops only when nothing is left to take, that stops, pegs and the cross reach the state
  they are meant to reach, and that the cached aggregates are the sums they stand for. The
  witnesses evaluate the operations on \<open>sample_book\<close>, a book with two offers, a bid and a
  pending stop, itself built by \<open>submit\<close>.
\<close>

subsection \<open>A sample book\<close>

definition plain :: "OrderId \<Rightarrow> Side \<Rightarrow> Ticks \<Rightarrow> Quantity \<Rightarrow> Order" where
  "plain i s p q = default_Order\<lparr>oid := i, side := s, price := p, qty := q\<rparr>"

fun submit_all :: "Order list \<Rightarrow> Book \<Rightarrow> Book option" where
  "submit_all [] b = Some b"
| "submit_all (x # xs) b = do { (_, b') \<leftarrow> submit x b; submit_all xs b' }"

lemma submit_all_ok:
  assumes "book_ok b" "\<forall>x \<in> set xs. oid x \<notin> all_ids b \<and> well_formed x" "distinct (map oid xs)"
  shows "\<exists>b'. submit_all xs b = Some b' \<and> book_ok b' \<and> all_ids b' \<subseteq> set (map oid xs) \<union> all_ids b"
  using assms
proof (induction xs arbitrary: b)
  case (Cons x xs)
  obtain out b1 where s: "submit x b = Some (out, b1)" "progress (if is_child x then 1 else 0) {oid x} b b1"
    using submit_ok [of b x] Cons.prems by auto
  have ids: "all_ids b1 \<subseteq> {oid x} \<union> all_ids b" "book_ok b1" using s(2) by (simp_all add: progress_def)
  have "\<forall>y \<in> set xs. oid y \<notin> all_ids b1 \<and> well_formed y"
  proof
    fix y assume y: "y \<in> set xs"
    then have "oid y \<in> oid ` set xs" by (rule imageI)
    then have "oid y \<noteq> oid x" using Cons.prems(3) by (metis distinct.simps(2) list.set_map list.simps(9))
    moreover have "oid y \<notin> all_ids b" "well_formed y" using Cons.prems(2) y by simp_all
    ultimately show "oid y \<notin> all_ids b1 \<and> well_formed y" using contra_subsetD [OF ids(1), of "oid y"] by simp
  qed
  from Cons.IH [OF ids(2) this] Cons.prems(3) obtain b2
    where b2: "submit_all xs b1 = Some b2" "book_ok b2" "all_ids b2 \<subseteq> set (map oid xs) \<union> all_ids b1" by auto
  have "C \<subseteq> insert i X \<union> A" if "C \<subseteq> X \<union> B" "B \<subseteq> {i} \<union> A" for A B C X :: "OrderId set" and i
    using that by blast
  from this [OF b2(3) ids(1)] s(1) b2 show ?case by simp
qed simp

definition sample_orders :: "Order list" where
  "sample_orders = [plain 1 Sell 101 5, plain 2 Sell 103 4, plain 3 Buy 99 6,
     (plain 4 Buy 104 2)\<lparr>trigger := Some \<lparr>tr_kind = Stop, stop_price = 103, trail_by = 0, high_water = 0,
        triggered = False\<rparr>\<rparr>]"

definition sample_book :: Book where
  "sample_book = the (submit_all sample_orders (new_Book kStpNone 0))"

definition sample_taker :: Order where
  "sample_taker = plain 9 Buy 103 7"

lemma all_ids_new_Book [simp]: "all_ids (new_Book policy n) = {}"
  by (simp add: all_ids_def live_keys_def held_orders_def pending_orders_def) (simp add: new_Book_def)

lemma sample_book_ok: "book_ok sample_book" "all_ids sample_book \<subseteq> {1, 2, 3, 4}"
proof -
  have "\<forall>x \<in> set sample_orders. oid x \<notin> all_ids (new_Book kStpNone 0) \<and> well_formed x"
    by (simp add: sample_orders_def plain_def default_Order_def well_formed_def)
  moreover have ids: "map oid sample_orders = [1, 2, 3, 4]" by (simp add: sample_orders_def plain_def)
  ultimately show "book_ok sample_book" "all_ids sample_book \<subseteq> {1, 2, 3, 4}"
    using submit_all_ok [OF new_Book_ok, of sample_orders kStpNone 0] by (auto simp: sample_book_def)
qed

lemma sample_book_core: "book_core sample_book"
  using sample_book_ok(1) by (simp add: book_ok_def)

lemma sample_taker_fresh: "oid sample_taker \<notin> all_ids sample_book" "well_formed sample_taker"
  using sample_book_ok(2) by (auto simp: sample_taker_def plain_def well_formed_def default_Order_def)

subsection \<open>Submitting\<close>



text \<open>C10. The recursion of submit through released children is bounded: any nesting depth above
  the number of held children computes the same result as \<open>submit\<close>, so the depth chosen in the
  model is never the reason for a result.\<close>

theorem submit_depth_enough:
  assumes "book_ok b" "oid x \<notin> all_ids b" "well_formed x" "length (pending_orders b) < n"
  shows "submit_fuel n x b = submit x b \<and> submit x b \<noteq> None"
  using submit_fuel_enough [OF assms] submit_ok [OF assms(1-3)] by auto

theorem submit_depth_enough_witness:
  "length (pending_orders sample_book) < 3 \<and> submit_fuel 3 sample_taker sample_book = submit sample_taker sample_book"
proof -
  have "length (pending_orders sample_book) < 3" by code_simp
  with submit_depth_enough [OF sample_book_ok(1) sample_taker_fresh, of 3] show ?thesis by simp
qed

subsection \<open>Matching\<close>

text \<open>C3. Matching takes liquidity best price first and within the order's limit, and stops only
  when it must: the executions are positive, go to the aggressor, are at acceptable prices and
  never at a better price after a worse one; the aggressor's remainder is what it came with less
  the executions; and unless self-trade prevention cancelled it, an aggressor with a remainder
  leaves at every acceptable price only all-or-none orders that are larger than the remainder.\<close>

theorem match_takes_best:
  assumes "book_core b" "0 \<le> leaves x"
  shows "\<exists>cancelled x' b' new. match_order x b ts = Some (cancelled, x', b', ts @ new)
    \<and> x' = take_fill (executed new) x \<and> 0 \<le> leaves x'
    \<and> (\<forall>t \<in> set new. 0 < t_qty t \<and> taker_id t = oid x \<and> acceptable x (t_price t))
    \<and> sorted_wrt (\<lambda>t u. if side x = Buy then t_price t \<le> t_price u else t_price u \<le> t_price t) new
    \<and> (cancelled \<longrightarrow> stp b = kCancelAggressor \<or> stp b = kCancelBoth)
    \<and> (\<not> cancelled \<longrightarrow> 0 < leaves x' \<longrightarrow>
         (\<forall>i e. omap b' i = Some e \<longrightarrow> side (e_order e) = Opposite (side x) \<longrightarrow> acceptable x (price (e_order e))
            \<longrightarrow> HasFlag (flags (e_order e)) kAon \<and> leaves x' < leaves (e_order e)))"
proof -
  let ?s = "Opposite (side x)"
  obtain c x' b' new where m: "match_order x b ts = Some (c, x', b', ts @ new)" and post: "match_post x b new (c, x', b')"
    using match_order_ok [OF assms] by blast
  note P = post [unfolded match_post_def Let_def prod.case]
  have core: "book_core b'" using P by (simp add: match_ok_def)
  have f: "x' = take_fill (executed new) x" "0 \<le> leaves x'"
    "\<forall>t \<in> set new. 0 < t_qty t \<and> taker_id t = oid x \<and> acceptable x (t_price t)"
    using P unfolding fills_def by blast+
  have srt: "sorted_wrt (\<lambda>t u. if side x = Buy then t_price t \<le> t_price u else t_price u \<le> t_price t) new"
    by (rule sorted_wrt_mono_rel [of _ "\<lambda>t u. \<not> outward (side x) (t_price u) (t_price t)"])
      (use P in \<open>auto simp: outward_def split: if_splits\<close>)
  have canc: "c \<longrightarrow> stp b = kCancelAggressor \<or> stp b = kCancelBoth" using P by (simp split: if_splits)
  have "HasFlag (flags (e_order e)) kAon \<and> leaves x' < leaves (e_order e)"
    if h: "\<not> c" "0 < leaves x'" "omap b' i = Some e" "side (e_order e) = ?s" "acceptable x (price (e_order e))" for i e
  proof -
    have "i \<in> set (fifo (lvl b' ?s (price (e_order e))))" using book_core_mem(1) [OF core h(3)] h(4) by simp
    moreover have "\<forall>r. acceptable x r \<longrightarrow> (\<forall>i \<in> set (fifo (lvl b' ?s r)). stuck x' b' i)" using P h(1,2) by simp
    ultimately have "stuck x' b' i" using h(5) by blast
    with h(3) show ?thesis by (simp add: stuck_def)
  qed
  with m f srt canc show ?thesis by blast
qed

theorem match_takes_best_witness:
  "\<exists>x' b' new. match_order (Normalize sample_taker) sample_book [] = Some (False, x', b', new)
    \<and> map (\<lambda>t. (t_price t, t_qty t)) new = [(101, 5), (103, 2)] \<and> x' = take_fill 7 (Normalize sample_taker)"
proof -
  have "0 \<le> leaves (Normalize sample_taker)" by code_simp
  from match_takes_best [OF sample_book_core this, of "[]"] obtain c x' b' new
    where m: "match_order (Normalize sample_taker) sample_book [] = Some (c, x', b', new)"
      "x' = take_fill (executed new) (Normalize sample_taker)" by auto
  moreover have "map_option (\<lambda>(c, x, b, ts). (c, map (\<lambda>t. (t_price t, t_qty t)) ts))
      (match_order (Normalize sample_taker) sample_book []) = Some (False, [(101, 5), (103, 2)])" by code_simp
  ultimately have "\<not> c" and new: "map (\<lambda>t. (t_price t, t_qty t)) new = [(101, 5), (103, 2)]" by simp_all
  moreover have "executed new = sum_list (map snd (map (\<lambda>t. (t_price t, t_qty t)) new))"
    by (simp add: executed_def comp_def)
  with new have "executed new = 7" by simp
  ultimately show ?thesis using m by simp
qed

text \<open>C19. Without self-trade prevention matching neither creates nor destroys liquidity: at every
  price of the other side the level's total falls by exactly the quantity executed there, and
  the aggressor's own side does not change.\<close>

theorem match_conserves:
  assumes "book_core b" "0 \<le> leaves x" "stp b = kStpNone"
  shows "\<exists>x' b' new. match_order x b ts = Some (False, x', b', ts @ new)
    \<and> (\<forall>p. total (lvl b' (Opposite (side x)) p) =
           total (lvl b (Opposite (side x)) p) - executed (filter (\<lambda>t. t_price t = p) new))
    \<and> (\<forall>p. total (lvl b' (side x) p) = total (lvl b (side x) p))"
proof -
  obtain c x' b' new where m: "match_order x b ts = Some (c, x', b', ts @ new)" and post: "match_post x b new (c, x', b')"
    using match_order_ok [OF assms(1,2)] by blast
  note P = post [unfolded match_post_def Let_def prod.case]
  have "\<not> c" using P assms(3) by (auto split: if_splits)
  moreover have "lvl b' (side x) = lvl b (side x)" using P by (simp add: match_ok_def lvl_def)
  ultimately show ?thesis using m P assms(3) by auto
qed

theorem match_conserves_witness:
  "stp sample_book = kStpNone \<and> (\<exists>x' b' new. match_order (Normalize sample_taker) sample_book [] = Some (False, x', b', new)
    \<and> total (lvl b' Sell 101) = 5 - executed (filter (\<lambda>t. t_price t = 101) new))"
proof -
  have h: "0 \<le> leaves (Normalize sample_taker)" "stp sample_book = kStpNone" by code_simp+
  have v: "total (lvl sample_book Sell 101) = 5" "Opposite (side (Normalize sample_taker)) = Sell" by code_simp+
  from match_conserves [OF sample_book_core h, of "[]"] h(2) show ?thesis unfolding v by (auto simp: v)
qed

subsection \<open>Stops and pegs\<close>

text \<open>C7. The stop cascade ends, and it ends at rest: evaluating the stops of a sound book returns a
  sound book in which no remaining stop is triggered at the last trade price, with no stop that
  was not there before; the executions reported before are kept and only positive ones follow.\<close>

theorem stops_come_to_rest:
  assumes "book_ok b"
  shows "\<exists>b' new. evaluate_stops b ts = Some (b', ts @ new) \<and> book_ok b' \<and> (\<forall>t \<in> set new. 0 < t_qty t)
    \<and> set (map fst (stops b')) \<subseteq> set (map fst (stops b))
    \<and> (\<forall>(i, so) \<in> set (stops b'). have_last b' \<longrightarrow> \<not> stop_triggered so (last_price b'))"
  using evaluate_stops_ok [OF assms, of ts] by (auto simp: cascade_ok_def quiescent_def positive_def)

definition traded_book :: Book where
  "traded_book = sample_book\<lparr>have_last := True, last_price := 103\<rparr>"

lemma traded_book_ok: "book_ok traded_book"
proof -
  have "ladder traded_book = ladder sample_book" by (simp add: traded_book_def ladder_def fun_eq_iff)
  then show ?thesis
    using sample_book_ok(1)
    by (simp add: book_ok_def book_core_def caches_ok_def pools_ok_def lvl_def waiting_def pending_orders_def traded_book_def)
qed

theorem stops_come_to_rest_witness:
  "\<exists>b' new. evaluate_stops traded_book [] = Some (b', new) \<and> book_ok b' \<and> map taker_id new = [4] \<and> stops b' = []"
proof -
  from stops_come_to_rest [OF traded_book_ok, of "[]"] obtain b' new
    where e: "evaluate_stops traded_book [] = Some (b', new)" "book_ok b'" by auto
  moreover have "map_option (\<lambda>(b, ts). (map taker_id ts, stops b)) (evaluate_stops traded_book []) = Some ([4], [])"
    by code_simp
  ultimately show ?thesis by simp
qed

text \<open>C9. One repricing pass settles every peg: it returns, it leaves the prices the pegs refer to
  where they were, every pegged order whose reference exists then rests at exactly the price its
  peg prescribes, and orders that are not pegged are untouched.\<close>

theorem pegs_settle:
  assumes "book_ok b"
  shows "\<exists>b'. reprice_pegs b = Some b' \<and> book_ok b' \<and> (\<forall>s. reference_best s b' = reference_best s b)
    \<and> (\<forall>i \<in> set (pegged b'). \<forall>e p. omap b' i = Some e \<longrightarrow> compute_peg_price (e_order e) b' = Some p
         \<longrightarrow> price (e_order e) = p)
    \<and> (\<forall>i. i \<notin> set (pegged b) \<longrightarrow> omap b' i = omap b i)"
proof -
  obtain b' where "reprice_pegs b = Some b'" "reprice_ok b b'" "progress 0 {} b b'"
    "\<forall>i \<in> set (pegged b'). settled b' i" "\<forall>j. j \<notin> set (pegged b) \<longrightarrow> omap b' j = omap b j"
    using reprice_progress [OF assms] .
  then show ?thesis
    by (intro exI [of _ b']) (simp add: progress_ok reprice_ok_def settled_def)
qed

definition pegged_orders :: "Order list" where
  "pegged_orders = [plain 1 Buy 98 5, (plain 2 Buy 0 3)\<lparr>peg := Some \<lparr>peg_ref = Primary, peg_offset = 0, cap_limit = 0\<rparr>\<rparr>,
     plain 3 Buy 99 1]"

definition pegged_book :: Book where
  "pegged_book = the (submit_all pegged_orders (new_Book kStpNone 0))"

lemma pegged_book_ok: "book_ok pegged_book"
proof -
  have "\<forall>x \<in> set pegged_orders. oid x \<notin> all_ids (new_Book kStpNone 0) \<and> well_formed x"
    by (simp add: pegged_orders_def plain_def default_Order_def well_formed_def)
  moreover have "distinct (map oid pegged_orders)" by (simp add: pegged_orders_def plain_def)
  ultimately show ?thesis
    using submit_all_ok [OF new_Book_ok, of pegged_orders kStpNone 0] by (auto simp: pegged_book_def)
qed

theorem pegs_settle_witness:
  "\<exists>b'. reprice_pegs pegged_book = Some b' \<and> book_ok b' \<and> map_option (\<lambda>e. price (e_order e)) (omap b' 2) = Some 99"
proof -
  from pegs_settle [OF pegged_book_ok] obtain b' where e: "reprice_pegs pegged_book = Some b'" "book_ok b'" by auto
  moreover have "map_option (\<lambda>b. map_option (\<lambda>e. price (e_order e)) (omap b 2)) (reprice_pegs pegged_book) = Some (Some 99)"
    by code_simp
  ultimately show ?thesis by simp
qed

subsection \<open>The auction\<close>

text \<open>C5. The clearing price is optimal over all prices, not only the limits in the queue: with at
  least one limit order queued, the clearing volume is the largest volume executable at any single
  price, no candidate of equal volume leaves a smaller imbalance, and the auction finds no price
  only when no price would execute anything.\<close>

theorem clearing_optimal:
  assumes "live queue" "candidates queue \<noteq> []"
  shows "case clearing queue b of
      None \<Rightarrow> \<forall>q. volume queue q \<le> 0
    | Some (p, v, imb) \<Rightarrow> p \<in> set (candidates queue) \<and> v = volume queue p \<and> 0 < v \<and> (\<forall>q. volume queue q \<le> v)
        \<and> (\<forall>q \<in> set (candidates queue). volume queue q = v \<longrightarrow> imb \<le> imbalance queue q)"
proof -
  have best: "best_of queue b (set (candidates queue)) (clearing queue b)" using clearing_best [OF assms(1), of b] assms(2) by simp
  note dom = candidate_dominates [OF assms]
  show ?thesis
  proof (cases "clearing queue b")
    case None
    then have none: "\<forall>c \<in> set (candidates queue). volume queue c \<le> 0" using best by (simp add: best_of_def)
    have "volume queue q \<le> 0" for q using dom [of q] none by (meson order_trans)
    with None show ?thesis by simp
  next
    case (Some t)
    obtain p v imb where t: "t = (p, v, imb)" by (cases t)
    have p: "p \<in> set (candidates queue)" "v = volume queue p" "0 < v" "imb = imbalance queue p"
      and least: "\<forall>c \<in> set (candidates queue). 0 < volume queue c \<longrightarrow> clearing_key queue b p \<le> clearing_key queue b c"
      using best by (simp_all add: Some t best_of_def)
    have "volume queue c \<le> v" "volume queue c = v \<longrightarrow> imb \<le> imbalance queue c" if "c \<in> set (candidates queue)" for c
      using least that p by (force simp: clearing_key_def)+
    with dom p show ?thesis by (simp add: Some t) (metis order_trans)
  qed
qed

definition sample_queue :: "Order list" where
  "sample_queue = map Normalize [plain 11 Buy 105 10, plain 12 Buy 100 5, plain 13 Sell 98 7, plain 14 Sell 103 8]"

theorem clearing_optimal_witness:
  "live sample_queue \<and> candidates sample_queue \<noteq> [] \<and> clearing sample_queue sample_book = Some (103, 10, 5)
   \<and> (\<forall>q. volume sample_queue q \<le> 10)"
proof -
  have h: "live sample_queue" "candidates sample_queue \<noteq> []"
    by (simp_all add: live_def sample_queue_def plain_def Normalize_leaves default_Order_def candidates_def is_market_def frame_simps)
  have c: "clearing sample_queue sample_book = Some (103, 10, 5)" by code_simp
  from clearing_optimal [OF h, of sample_book] h c show ?thesis by simp
qed

text \<open>C6. The cross executes exactly the clearing volume at the one clearing price: on a sound book
  running an auction returns; if some price clears, the cross executions add up to the volume of
  that price, all at that price, each between a queued buyer and a queued seller who both accept
  it; otherwise there are none. The queue is empty afterwards, the other session's queue is kept
  and the book is sound.\<close>

theorem auction_executes_clearing:
  assumes "book_ok b"
  shows "\<exists>ts new b'. cross_auction session b = Some (ts @ new, b') \<and> book_ok b'
    \<and> auction_queue session b' = [] \<and> auction_queue (\<not> session) b' = auction_queue (\<not> session) b
    \<and> (case clearing (auction_queue session b) b of
         None \<Rightarrow> ts = []
       | Some (p, v, imb) \<Rightarrow> executed ts = v \<and> (\<forall>t \<in> set ts. 0 < t_qty t \<and> t_price t = p
           \<and> (\<exists>x \<in> set (auction_queue session b). side x = Buy \<and> oid x = taker_id t \<and> buy_ok p x)
           \<and> (\<exists>y \<in> set (auction_queue session b). side y = Sell \<and> oid y = maker_id t \<and> sell_ok p y)))
    \<and> (\<forall>t \<in> set new. 0 < t_qty t)"
proof -
  obtain b' ts new where c: "cross_auction session b = Some (ts @ new, b')" "book_ok b'"
    "cross_executed (auction_queue session b) b ts" "positive new" "auction_queue session b' = []"
    "auction_queue (\<not> session) b' = auction_queue (\<not> session) b"
    using cross_auction_ok [OF assms, of session] by (elim exE conjE) (rule that; assumption)
  show ?thesis
    using c(1,2,5,6) c(3) [unfolded cross_executed_def cross_trades_ok_def] c(4) [unfolded positive_def]
    by (intro exI [of _ ts] exI [of _ new] exI [of _ b'] conjI; (assumption | simp split: option.splits; blast)?)
qed

definition auction_orders :: "Order list" where
  "auction_orders = [(plain 11 Buy 105 10)\<lparr>flags := flag_bit kLoo\<rparr>, (plain 13 Sell 98 7)\<lparr>flags := flag_bit kLoo\<rparr>]"

definition auction_book :: Book where
  "auction_book = the (submit_all auction_orders (new_Book kStpNone 0))"

lemma auction_book_ok: "book_ok auction_book"
proof -
  have "\<forall>x \<in> set auction_orders. \<not> HasFlag (flags x) kIceberg"
    by (simp add: auction_orders_def plain_def) code_simp
  then have "\<forall>x \<in> set auction_orders. oid x \<notin> all_ids (new_Book kStpNone 0) \<and> well_formed x" by (simp add: well_formed_def)
  moreover have "distinct (map oid auction_orders)" by (simp add: auction_orders_def plain_def)
  ultimately show ?thesis
    using submit_all_ok [OF new_Book_ok, of auction_orders kStpNone 0] by (auto simp: auction_book_def)
qed

theorem auction_executes_clearing_witness:
  "\<exists>ts b'. cross_auction True auction_book = Some (ts, b') \<and> book_ok b'
    \<and> map (\<lambda>t. (taker_id t, maker_id t, t_price t, t_qty t)) ts = [(11, 13, 98, 7)]"
proof -
  from auction_executes_clearing [OF auction_book_ok, of True] obtain ts b'
    where e: "cross_auction True auction_book = Some (ts, b')" "book_ok b'" by auto
  moreover have "map_option (\<lambda>(ts, b). map (\<lambda>t. (taker_id t, maker_id t, t_price t, t_qty t)) ts) (cross_auction True auction_book)
      = Some [(11, 13, 98, 7)]" by code_simp
  ultimately show ?thesis by simp
qed

subsection \<open>Cancelling and expiring\<close>

text \<open>C21. Cancelling removes that order and nothing else: on a sound book it returns, it reports
  success exactly when the id is resting, a pending stop or queued for an auction, and afterwards
  the resting ids, the stops and the auction queues are the old ones without it; every other order
  that is not pegged is unchanged, and contingent groups are not touched.\<close>

theorem cancel_exact:
  assumes "book_ok b"
  shows "\<exists>b'. cancel i b = Some (i \<in> set (map fst (orders b)) \<union> set (map fst (stops b))
           \<union> oid ` set (opening_auction b @ closing_auction b), b')
    \<and> book_ok b' \<and> map fst (orders b') = filter (\<lambda>j. j \<noteq> i) (map fst (orders b))
    \<and> stops b' = AList.delete i (stops b) \<and> opening_auction b' = filter (\<lambda>x. oid x \<noteq> i) (opening_auction b)
    \<and> closing_auction b' = filter (\<lambda>x. oid x \<noteq> i) (closing_auction b) \<and> groups b' = groups b
    \<and> (\<forall>j. j \<noteq> i \<longrightarrow> j \<notin> set (pegged b) \<longrightarrow> omap b' j = omap b j)"
proof -
  obtain b' where "cancel i b = Some (cancellable i b, b')" "progress 0 {} b b'" "cancels i b b'"
    using cancel_ok [OF assms, of i] by (elim exE conjE) (rule that; assumption)
  then show ?thesis
    by (intro exI [of _ b']) (simp add: cancellable_def cancels_def progress_def live_keys_def Un_assoc)
qed

theorem cancel_exact_witness:
  "\<exists>b'. cancel 1 sample_book = Some (True, b') \<and> book_ok b' \<and> map fst (orders b') = [3, 2]"
proof -
  have "map fst (orders sample_book) = [3, 2, 1]" by code_simp
  with cancel_exact [OF sample_book_ok(1), of 1] show ?thesis by auto
qed

text \<open>C22. Expiry removes exactly the orders that are due: on a sound book it returns the ids of the
  resting orders whose expiry time is set and not after now, in increasing order and each once,
  and these are the ids that stop resting; pending stops and groups stay.\<close>

theorem expire_exact:
  assumes "book_ok b"
  shows "\<exists>ids b'. expire now b = Some (ids, b') \<and> book_ok b' \<and> sorted_wrt (<) ids
    \<and> set ids = {i. \<exists>e. omap b i = Some e \<and> 0 < expiry_ns (e_order e) \<and> expiry_ns (e_order e) \<le> now}
    \<and> map fst (orders b') = filter (\<lambda>i. i \<notin> set ids) (map fst (orders b)) \<and> stops b' = stops b \<and> groups b' = groups b"
proof -
  have core: "book_core b" using assms by (simp add: book_ok_def)
  from expire_ok [OF assms, of now] expired_ids_spec [OF core, of now] show ?thesis
    by (auto simp: progress_def strict_sorted_iff)
qed

definition timed_book :: Book where
  "timed_book = the (submit_all [(plain 7 Buy 100 1)\<lparr>expiry_ns := 50\<rparr>, plain 8 Buy 100 1] (new_Book kStpNone 0))"

theorem expire_exact_witness:
  "\<exists>b'. expire 60 timed_book = Some ([7], b') \<and> book_ok b'"
proof -
  have "\<exists>b'. submit_all [(plain 7 Buy 100 1)\<lparr>expiry_ns := 50\<rparr>, plain 8 Buy 100 1] (new_Book kStpNone 0) = Some b' \<and> book_ok b'"
    using submit_all_ok [OF new_Book_ok, of "[(plain 7 Buy 100 1)\<lparr>expiry_ns := 50\<rparr>, plain 8 Buy 100 1]" kStpNone 0]
    by (auto simp: plain_def well_formed_def default_Order_def)
  then have "book_ok timed_book" by (auto simp: timed_book_def)
  from expire_exact [OF this, of 60] obtain ids b' where "expire 60 timed_book = Some (ids, b')" "book_ok b'" by auto
  moreover have "map_option fst (expire 60 timed_book) = Some [7]" by code_simp
  ultimately show ?thesis by simp
qed

end
