(* ===== verification/Submit_Properties.thy ===== *)
theory Submit_Properties
  imports Book_Properties
begin

section \<open>What the order attributes promise\<close>

text \<open>
  The contracts of the order attributes: post-only orders never take liquidity, all-or-none and
  fill-or-kill orders are never filled in part, immediate-or-cancel and market orders never rest,
  reduce-only orders stay within the position, and the resident window stays within its bound.
  The section ends with the aggregates a caller can read.
\<close>

subsection \<open>The path of an order without trigger and link\<close>

lemma stamp_sel:
  "tif (stamp x b) = tif (Normalize x)" "flags (stamp x b) = flags (Normalize x)" "discretion (stamp x b) = discretion x"
  "filled (stamp x b) = filled x" "leaves (stamp x b) = leaves (Normalize x)"
  by (simp_all add: stamp_def frame_simps)

lemma submit_plain:
  assumes "link x = None" "trigger x = None"
  shows "submit x b =
    (let order = stamp x b; b1 = b\<lparr>next_seq := Suc (next_seq b)\<rparr>; out = default_Outcome\<lparr>out_order_id := oid x\<rparr>
     in case submit_error order b1 of
          Some reason \<Rightarrow> Some (reject reason out, b1)
        | None \<Rightarrow>
            if IsOpeningAuction (flags order) \<or> IsClosingAuction (flags order)
            then Some (out\<lparr>held := True\<rparr>, queue_auction order b1)
            else if peg x \<noteq> None then Some (submit_peg order out b1)
            else submit_continuous (submit_fuel (length (pending_orders b))) order out b1)"
proof -
  have "hold_child (stamp x b) b1 = None" "\<not> awaits_trigger (stamp x b)" for b1
    using assms by (simp_all add: hold_child_def awaits_trigger_def stamp_sel)
  then show ?thesis by (auto simp: submit_def submit_body_def stamp_sel Let_def split: option.split)
qed

lemma process_link_fills_none: "link x = None \<Longrightarrow> trades out = [] \<Longrightarrow> process_link_fills sub x out b = Some (out, b)"
  by (simp add: process_link_fills_def linked_fills_def)

lemma rest_outcome_frame [simp]:
  "trades (fst (rest_outcome x out b)) = trades out" "out_filled (fst (rest_outcome x out b)) = out_filled out"
  by (simp_all add: rest_outcome_def split_def Let_def)

lemma rest_outcomeD: "rest_outcome x out b = (out', b') \<Longrightarrow> trades out' = trades out \<and> out_filled out' = out_filled out"
  using rest_outcome_frame [of x out b] by simp

lemma submit_peg_frame:
  "submit_peg x out b = (out', b') \<Longrightarrow> trades out' = trades out \<and> out_filled out' = out_filled out"
  by (auto simp: submit_peg_def reject_def split_def Let_def split: option.splits)

lemma default_Outcome_sel [simp]:
  "trades default_Outcome = []" "out_filled default_Outcome = 0" "\<not> rested default_Outcome" "\<not> rested_deep default_Outcome"
  by (simp_all add: default_Outcome_def)

lemma reject_frame [simp]:
  "trades (reject r out) = trades out" "out_filled (reject r out) = out_filled out"
  "rested (reject r out) = rested out" "rested_deep (reject r out) = rested_deep out"
  by (simp_all add: reject_def)

lemma reduce_only_cap_sel:
  assumes "reduce_only_cap x b = Inr y"
  shows "flags y = flags x" "side y = side x" "otype y = otype x" "tif y = tif x" "link y = link x" "filled y = filled x"
    "acceptable y = acceptable x" "\<not> HasFlag (flags x) kReduceOnly \<Longrightarrow> y = x" "oid y = oid x" "peg y = peg x"
proof -
  have "y = x \<or> (\<exists>c. y = x\<lparr>leaves := c, qty := c\<rparr>)"
    using assms unfolding reduce_only_cap_def Let_def by (metis Inl_Inr_False Inr_inject)
  then show "flags y = flags x" "side y = side x" "otype y = otype x" "tif y = tif x" "link y = link x" "filled y = filled x"
    "acceptable y = acceptable x" "oid y = oid x" "peg y = peg x"
    by (auto simp: acceptable_def effective_limit_def fun_eq_iff)
  show "\<not> HasFlag (flags x) kReduceOnly \<Longrightarrow> y = x" using assms by (simp add: reduce_only_cap_def)
qed

subsection \<open>Nothing to match\<close>

lemma match_walk_nothing:
  "\<forall>p \<in> set ps. total (lvl b (Opposite (side x)) p) = 0 \<or> \<not> acceptable x p \<Longrightarrow>
   match_walk ps x b ts = Some (False, x, b, ts)"
  by (induction ps) auto

lemma match_order_nothing:
  "\<forall>p. total (lvl b (Opposite (side x)) p) = 0 \<or> \<not> acceptable x p \<Longrightarrow> match_order x b ts = Some (False, x, b, ts)"
  by (simp add: match_order_def Let_def match_walk_nothing)

lemma not_crossing:
  assumes core: "book_core b" and caches: "caches_ok b" and no: "\<not> fst (crosses x b)"
  shows "total (lvl b (Opposite (side x)) p) = 0 \<or> \<not> acceptable x p"
proof -
  let ?s = "Opposite (side x)" let ?L = "ladder b ?s"
  have side: "l_side ?L = ?s" by (rule book_coreD(1) [OF core])
  have nn: "0 \<le> total (lvl b ?s p)" by (rule book_core_level(1) [OF core])
  have spec: "case fst (ladder_best ?L) of None \<Rightarrow> \<forall>q. \<not> 0 < total (lvl b ?s q) | Some q \<Rightarrow> is_best ?L q"
    using ladder_best_spec [OF book_coreD(2) [OF core], of ?s] caches by (auto simp: caches_ok_def lvl_def split: option.splits)
  show ?thesis
  proof (cases "fst (ladder_best ?L)")
    case None
    then show ?thesis using spec nn by (auto simp: order.order_iff_strict)
  next
    case (Some q)
    then have best: "is_best ?L q" and na: "\<not> acceptable x q" using spec no by (simp_all add: crosses_alt)
    show ?thesis
    proof (cases "total (lvl b ?s p) = 0 \<or> p = q")
      case False
      then have "0 < total (level_at ?L p)" using nn by (simp add: lvl_def)
      then have "\<not> better ?L p q" using best by (simp add: is_best_def)
      then have "outward (side x) q p"
        using False side by (cases "side x") (auto simp: better_def outward_def)
      with na show ?thesis using acceptable_outward by blast
    qed (use na in auto)
  qed
qed

subsection \<open>Post-only\<close>


text \<open>The offers of \<open>sample_book\<close> start at 101, so a post-only bid at 100 rests and one at 101 is refused.\<close>

definition maker_bid :: "Ticks \<Rightarrow> Order" where
  "maker_bid p = (plain 9 Buy p 7)\<lparr>tif := GTX\<rparr>"


subsection \<open>All or none\<close>

lemma avail_walk_bound:
  "\<forall>p. 0 \<le> total (level_at L p) \<Longrightarrow>
   avail_walk x L ps a \<le> a + (\<Sum>p\<leftarrow>ps. if acceptable x p then total (level_at L p) else 0)"
proof (induction ps arbitrary: a)
  case (Cons p ps)
  have nn: "0 \<le> (\<Sum>p\<leftarrow>ps. if acceptable x p then total (level_at L p) else 0)"
    by (rule sum_list_nonneg) (use Cons.prems in auto)
  have "0 \<le> total (level_at L p)" using Cons.prems by blast
  with nn Cons.IH [OF Cons.prems, of a] Cons.IH [OF Cons.prems, of "a + total (level_at L p)"] show ?case by auto
qed simp

lemma executed_nonneg: "fills P x new x' \<Longrightarrow> 0 \<le> executed (filter Q new)"
  unfolding executed_def by (rule sum_list_nonneg) (auto simp: fills_def less_imp_le)

lemma strict_sorted_distinct_better: "sorted_wrt (better L) ps \<Longrightarrow> distinct ps"
  by (induction ps) (auto simp: better_def split: if_splits)

lemma executed_by_price:
  "distinct ps \<Longrightarrow> \<forall>t \<in> set ts. 0 \<le> t_qty t \<Longrightarrow> (\<Sum>p\<leftarrow>ps. executed (filter (\<lambda>t. t_price t = p) ts)) \<le> executed ts"
proof (induction ts)
  case (Cons t ts)
  have "(\<Sum>p\<leftarrow>ps. if t_price t = p then t_qty t else 0) = (if t_price t \<in> set ps then t_qty t else 0)"
    using Cons.prems(1) by (induction ps) auto
  then have one: "(\<Sum>p\<leftarrow>ps. if t_price t = p then t_qty t else 0) \<le> t_qty t" using Cons.prems by simp
  have "(\<Sum>p\<leftarrow>ps. executed (filter (\<lambda>u. t_price u = p) (t # ts))) =
      (\<Sum>p\<leftarrow>ps. (if t_price t = p then t_qty t else 0) + executed (filter (\<lambda>u. t_price u = p) ts))"
    by (rule arg_cong [of _ _ sum_list], rule map_cong) auto
  with one Cons show ?case by (simp add: sum_list_addf)
qed simp

lemma match_fills_available:
  assumes core: "book_core b" and stp: "stp b = kStpNone" and pos: "0 < leaves x"
    and avail: "leaves x \<le> available_fill x b"
    and plain: "\<forall>i e. omap b i = Some e \<longrightarrow> side (e_order e) = Opposite (side x) \<longrightarrow> \<not> HasFlag (flags (e_order e)) kAon"
  shows "\<exists>x' b' new. match_order x b ts = Some (False, x', b', ts @ new) \<and> leaves x' = 0 \<and> executed new = leaves x
    \<and> fills (acceptable x) x new x'"
proof -
  let ?s = "Opposite (side x)" let ?L = "ladder b (Opposite (side x))"
  obtain c x' b' new where m: "match_order x b ts = Some (c, x', b', ts @ new)" and post: "match_post x b new (c, x', b')"
    using match_order_ok [OF core] pos by (metis less_imp_le)
  note P = post [unfolded match_post_def Let_def prod.case]
  have "\<not> c" using P stp by (auto split: if_splits)
  have core': "book_core b'" and keys: "keys_le b b'" and own: "lvl b' (side x) = lvl b (side x)"
    using P by (simp_all add: match_ok_def lvl_def)
  have f: "fills (acceptable x) x new x'" using P by blast
  note F = fills_frame [OF f]
  have cons: "total (lvl b' ?s r) = total (lvl b ?s r) - executed (filter (\<lambda>t. t_price t = r) new)" for r
    using P stp by blast
  have "leaves x' = 0"
  proof (rule ccontr)
    assume "leaves x' \<noteq> 0"
    then have left: "\<forall>r. acceptable x r \<longrightarrow> (\<forall>i \<in> set (fifo (lvl b' ?s r)). stuck x' b' i)" using P \<open>\<not> c\<close> by simp
    have empty: "total (lvl b' ?s r) = 0" if r: "acceptable x r" for r
    proof (rule ccontr)
      assume "total (lvl b' ?s r) \<noteq> 0"
      then obtain i where i: "i \<in> set (fifo (lvl b' ?s r))"
        using book_core_level(3) [OF core', of ?s r] by (cases "fifo (lvl b' ?s r)") auto
      then obtain e where e: "omap b' i = Some e" "HasFlag (flags (e_order e)) kAon" using left r by (auto simp: stuck_def)
      have "flags_of b' i = Some (flags (e_order e))" using e(1) by (simp add: flags_of_def)
      then have "flags_of b i = Some (flags (e_order e))" using keys by (auto simp: keys_le_def map_le_def dom_def)
      then obtain e0 where e0: "omap b i = Some e0" "flags (e_order e0) = flags (e_order e)" by (auto simp: flags_of_def)
      have "side (e_order e0) \<noteq> ?s" using plain e0(1) e(2) unfolding e0(2) [symmetric] by blast
      then have "side (e_order e0) = side x" by (simp add: side_neq_Opposite)
      then have "i \<in> set (fifo (lvl b' (side x) (price (e_order e0))))" using book_core_mem(1) [OF core e0(1)] own by simp
      from book_core_queue [OF core' this] book_core_queue [OF core' i] show False by (metis Opposite_neq(1) option.inject)
    qed
    let ?ps = "walk_prices ?L"
    have "distinct ?ps" using strict_sorted_distinct_better [OF walk_prices_sorted] .
    have "leaves x \<le> avail_walk x ?L ?ps 0" using avail pos by (auto simp: available_fill_def Let_def split: if_splits)
    also have "\<dots> \<le> (\<Sum>p\<leftarrow>?ps. if acceptable x p then total (lvl b ?s p) else 0)"
      using avail_walk_bound [of ?L x ?ps 0] book_core_level(1) [OF core] unfolding lvl_def by simp
    also have "\<dots> \<le> (\<Sum>p\<leftarrow>?ps. executed (filter (\<lambda>t. t_price t = p) new))"
      by (rule sum_list_mono) (use cons empty book_core_level(1) [OF core] in \<open>auto simp: executed_nonneg [OF f]\<close>)
    also have "\<dots> \<le> executed new"
      by (rule executed_by_price [OF \<open>distinct ?ps\<close>]) (use f in \<open>auto simp: fills_def less_imp_le\<close>)
    finally show False using F(4,9) \<open>leaves x' \<noteq> 0\<close> by simp
  qed
  with m \<open>\<not> c\<close> f F(4) show ?thesis by auto
qed

text \<open>Settling contingent groups only appends executions to the outcome.\<close>

definition only_trades :: "SubmitOutcome \<Rightarrow> SubmitOutcome \<Rightarrow> bool" where
  "only_trades out out' \<longleftrightarrow> (\<exists>ts. out' = out\<lparr>trades := ts\<rparr>)"

lemma only_trades_refl [simp]: "only_trades out out"
  unfolding only_trades_def by (intro exI [of _ "trades out"]) simp

lemma only_trades_trans [trans]: "only_trades a b \<Longrightarrow> only_trades b c \<Longrightarrow> only_trades a c"
  by (auto simp: only_trades_def)

lemma only_trades_append [simp]: "only_trades out (append_trades out co)"
  by (auto simp: only_trades_def append_trades_def)

lemma only_tradesD:
  "only_trades out out' \<Longrightarrow> out_filled out' = out_filled out \<and> rested out' = rested out \<and> rested_deep out' = rested_deep out"
  by (auto simp: only_trades_def)

lemma release_only_trades:
  "release_child sub gid out b = Some (out', b') \<Longrightarrow> only_trades out out'"
  "release_legs sub gid cs out b = Some (out', b') \<Longrightarrow> only_trades out out'"
  "release_children sub gid out b = Some (out', b') \<Longrightarrow> only_trades out out'"
proof -
  show child: "release_child sub gid out b = Some (out', b') \<Longrightarrow> only_trades out out'" for out b out' b'
    by (auto simp: release_child_def bind_eq_Some_conv split: option.splits)
  show legs: "release_legs sub gid cs out b = Some (out', b') \<Longrightarrow> only_trades out out'" for cs out b out' b'
    by (induction cs arbitrary: out b) (auto simp: bind_eq_Some_conv intro: only_trades_trans [OF only_trades_append])
  show "release_children sub gid out b = Some (out', b') \<Longrightarrow> only_trades out out'"
    by (auto simp: release_children_def bind_eq_Some_conv dest!: child legs intro: only_trades_trans)
qed

lemma link_fills_only_trades: "link_fills sub x is out b = Some (out', b') \<Longrightarrow> only_trades out out'"
proof (induction "is" arbitrary: out b)
  case (Cons i "is")
  have "only_trades out out1" if "link_fill sub x i out b = Some (out1, b1)" for out1 b1
    using that by (auto simp: link_fill_def bind_eq_Some_conv Let_def dest: release_only_trades(3) split: option.splits if_splits)
  with Cons show ?case by (auto simp: bind_eq_Some_conv intro: only_trades_trans)
qed simp

text \<open>What the matching path reports.\<close>

lemma submit_match_report:
  assumes m: "match_order x b (trades out) = Some (c, x1, b1, ts)" and s: "submit_match sub x out b = Some (out', b')"
  shows "out_filled out' = filled x1" "\<not> rests x1 \<Longrightarrow> rested out' = rested out \<and> rested_deep out' = rested_deep out"
proof -
  let ?out1 = "out\<lparr>trades := ts, out_filled := filled x1\<rparr>"
  obtain out2 b2 where r: "(if rests x1 \<and> \<not> c then rest_outcome x1 ?out1 b1 else (?out1, b1)) = (out2, b2)"
    by (metis prod.exhaust)
  have o2: "out_filled out2 = filled x1" "\<not> rests x1 \<Longrightarrow> rested out2 = rested out \<and> rested_deep out2 = rested_deep out"
    using r by (auto split: if_splits dest: rest_outcomeD)
  from s m r obtain ts3 b3 where "link_fills sub x1 (linked_fills x1 ts3 b3) (out2\<lparr>trades := ts3\<rparr>) b3 = Some (out', b')"
    by (auto simp: submit_match_def process_link_fills_def Let_def bind_eq_Some_conv)
  from only_tradesD [OF link_fills_only_trades [OF this]] o2
  show "out_filled out' = filled x1" "\<not> rests x1 \<Longrightarrow> rested out' = rested out \<and> rested_deep out' = rested_deep out" by simp_all
qed

lemma submit_active_aon:
  assumes ok: "book_ok b" and x: "HasFlag (flags x) kAon" "0 < leaves x" "filled x = 0" and stp: "stp b = kStpNone"
    and plain: "\<forall>i e. omap b i = Some e \<longrightarrow> side (e_order e) = Opposite (side x) \<longrightarrow> \<not> HasFlag (flags (e_order e)) kAon"
    and out: "out_filled out = 0" and s: "submit_active sub x out b = Some (out', b')"
  shows "out_filled out' = 0 \<or> out_filled out' = leaves x"
proof (cases "available_fill x b < leaves x")
  case True
  with x(1) s out rest_outcome_frame(2) [of x out b] show ?thesis
    by (auto simp: submit_active_def Let_def split_def bind_eq_Some_conv split: if_splits)
next
  case False
  have core: "book_core b" using ok by (simp add: book_ok_def)
  from False have "leaves x \<le> available_fill x b" by simp
  from match_fills_available [OF core stp x(2) this plain, of "trades out"] obtain x1 b1 new
    where m: "match_order x b (trades out) = Some (False, x1, b1, trades out @ new)" "executed new = leaves x"
      "fills (acceptable x) x new x1" by blast
  from fills_frame(5) [OF m(3)] m(2) x(3) have "filled x1 = leaves x" by simp
  with False x(1) s out submit_match_report(1) [OF m(1)] show ?thesis
    by (auto simp: submit_active_def split: option.splits if_splits)
qed


text \<open>A fill-or-kill bid for more than the offers of \<open>sample_book\<close> at its limit, and one they cover.\<close>

definition fok_bid :: "Quantity \<Rightarrow> Order" where
  "fok_bid q = (plain 9 Buy 102 q)\<lparr>tif := FOK\<rparr>"


subsection \<open>Immediate or cancel\<close>


definition ioc_bid :: Order where
  "ioc_bid = (plain 9 Buy 101 9)\<lparr>tif := IOC\<rparr>"


subsection \<open>Reduce-only orders\<close>


definition account_book :: Book where
  "account_book = seed_position 7 10 (new_Book kStpNone 0)"

definition reduce_offer :: Order where
  "reduce_offer = (plain 5 Sell 100 15)\<lparr>client_id := 7, flags := flag_bit kReduceOnly\<rparr>"

lemma account_book_ok: "book_ok account_book" "all_ids account_book = {}" "reserved_exact account_book" "well_formed reduce_offer"
proof -
  show "book_ok account_book"
    unfolding account_book_def by (rule progress_ok [OF seed_position_progress [OF new_Book_ok]])
  show "all_ids account_book = {}"
    using seed_position_progress [OF new_Book_ok [of kStpNone 0], of 7 10] by (simp add: account_book_def progress_def)
  show "reserved_exact account_book"
    by (simp add: reserved_exact_def account_book_def seed_position_def position_of_def reserved_on_def new_Book_def new_Position_def)
  have "\<not> HasFlag (flags reduce_offer) kIceberg" by code_simp
  then show "well_formed reduce_offer" by (simp add: well_formed_def)
qed




subsection \<open>The resident window\<close>

abbreviation populated :: "Book \<Rightarrow> Side \<Rightarrow> Ticks set" where
  "populated b s \<equiv> {p. 0 < total (lvl b s p)}"

lemma deep_of_emit_add [simp]: "deep_of (emit_add x b) s = deep_of b s"
  by (simp add: emit_add_def deep_of_def Let_def)

lemma finite_populated_lvl: "finite (populated b s)"
  using finite_populated by (simp add: lvl_def)

lemma populated_count_lvl: "book_core b \<Longrightarrow> populated_count (ladder b s) = card (populated b s)"
  using populated_count_card [OF book_coreD(2), of b s] by (simp only: lvl_def)

lemma populated_rest_resident:
  assumes "book_core b" "omap b (oid x) = None" "0 < leaves x" "admissible x"
  shows "populated (rest_resident x b) (side x) = insert (price x) (populated b (side x))"
  using populated_place [OF assms] book_core_rest_resident(3) [OF assms] by simp

lemma rest_evicts:
  assumes core: "book_core b" and x: "omap b (oid x) = None" "0 < leaves x" "admissible x"
    and w: "0 < mem_levels b" "\<not> beyond_window x b" "opens_level x b"
      "mem_levels b < populated_count (ladder (rest_resident x b) (side x))"
    and r: "rest x b = (resident, ev, b')"
  shows "resident \<and> has_deep b' (side x) \<and> (\<exists>wp. wp \<noteq> price x \<and> (\<forall>y \<in> set ev. price y = wp)
    \<and> wp \<in> populated (rest_resident x b) (side x) \<and> populated b' (side x) = populated (rest_resident x b) (side x) - {wp})"
proof -
  let ?s = "side x"
  note core1 = book_core_rest_resident(1) [OF core x]
  obtain wp where wp: "worst_price (ladder (rest_resident x b) ?s) = Some wp" "wp \<noteq> price x"
    using evicted_is_other [OF core x w(1,3,2,4)] by blast
  obtain b2 where b2: "evict_worst ?s (rest_resident x b) = (b2, ev)" and b': "b' = emit_add x b2" and "resident"
    using r w by (auto simp: rest_def Let_def split: prod.splits)
  note E = evict_worst_step [OF core1 wp(1) b2]
  have "populated b' ?s = populated (rest_resident x b) ?s - {wp}" using E(5) [of ?s] by (auto simp: b' split: if_splits)
  moreover have "wp \<in> populated (rest_resident x b) ?s" using worst_price_level(1) [OF core1 wp(1)] by simp
  moreover have "price y = wp" if y: "y \<in> set ev" for y
  proof -
    obtain i where i: "i \<in> set (fifo (lvl (rest_resident x b) ?s wp))" "y = e_order (the (omap (rest_resident x b) i))"
      using y unfolding E(13) by auto
    from book_core_queue [OF core1 i(1)] i(2) show ?thesis by (metis option.sel)
  qed
  moreover have "has_deep b' ?s" using E(14) by (simp add: b' has_deep_def deep_of_note_deep)
  ultimately show ?thesis using \<open>resident\<close> wp(2) by blast
qed

text \<open>C8. Resting an order keeps the resident window within its bound: if a side holds at most
  \<open>mem_levels\<close> populated price levels, it still does after an order rested there. An order that is
  kept is in the book, one that is not is recorded as deep, and what was evicted is of one price
  level, which is never the level of the order that rested.\<close>

theorem rest_keeps_window:
  assumes core: "book_core b" and x: "omap b (oid x) = None" "0 < leaves x" "admissible x"
    and w: "0 < mem_levels b" "populated_count (ladder b (side x)) \<le> mem_levels b" and r: "rest x b = (resident, ev, b')"
  shows "populated_count (ladder b' (side x)) \<le> mem_levels b \<and> book_core b'
    \<and> (resident \<longleftrightarrow> omap b' (oid x) \<noteq> None) \<and> (\<not> resident \<longrightarrow> has_deep b' (side x))
    \<and> (ev \<noteq> [] \<longrightarrow> has_deep b' (side x) \<and> (\<exists>wp. wp \<noteq> price x \<and> (\<forall>y \<in> set ev. price y = wp)))"
proof -
  let ?s = "side x" let ?P = "populated b ?s"
  note R = rest_step [OF core x r]
  have core': "book_core b'" using R by blast
  have res: "resident \<longleftrightarrow> omap b' (oid x) \<noteq> None" using R by (simp split: if_splits)
  have full: "card ?P \<le> mem_levels b" using w(2) populated_count_lvl [OF core] by simp
  have count: "populated_count (ladder b' ?s) = card (populated b' ?s)" by (rule populated_count_lvl [OF core'])
  note core1 = book_core_rest_resident(1) [OF core x]
  note P1 = populated_rest_resident [OF core x]
  consider (beyond) "beyond_window x b"
    | (over) "\<not> beyond_window x b" "opens_level x b" "mem_levels b < populated_count (ladder (rest_resident x b) ?s)"
    | (under) "\<not> beyond_window x b" "opens_level x b \<longrightarrow> populated_count (ladder (rest_resident x b) ?s) \<le> mem_levels b"
    by (meson not_le)
  then show ?thesis
  proof cases
    case beyond
    with r have b': "b' = emit_add x (note_deep ?s (price x) b)" "\<not> resident" "ev = []" by (simp_all add: rest_def)
    then show ?thesis using full count res core' by (simp add: has_deep_def deep_of_note_deep)
  next
    case over
    from rest_evicts [OF core x w(1) over r] obtain wp where e: "resident" "has_deep b' ?s" "wp \<noteq> price x" "\<forall>y \<in> set ev. price y = wp"
      "wp \<in> insert (price x) ?P" "populated b' ?s = insert (price x) ?P - {wp}" unfolding P1 by blast
    have "card (populated b' ?s) = card (insert (price x) ?P) - 1"
      unfolding e(6) by (rule card_Diff_singleton [OF e(5)])
    also have "\<dots> \<le> card ?P" using card_insert_le_m1 [of "Suc (card ?P)" ?P "price x"] by simp
    finally have "card (populated b' ?s) \<le> card ?P" .
    with full count e res core' show ?thesis by auto
  next
    case under
    with r w(1) have b': "b' = emit_add x (rest_resident x b)" "resident" "ev = []" by (auto simp: rest_def Let_def)
    have "price x \<in> ?P" if "\<not> opens_level x b"
      using that opens_level_empty [OF w(1), of x] book_core_level(1) [OF core, of ?s "price x"] by simp
    then have "card (insert (price x) ?P) \<le> mem_levels b"
      using under(2) full populated_count_lvl [OF core1, of ?s] P1 by (cases "opens_level x b") (simp_all add: insert_absorb)
    then show ?thesis using count core' res b' P1 by simp
  qed
qed

definition small_book :: Book where
  "small_book = the (submit_all [plain 1 Buy 100 5] (new_Book kStpNone 1))"

theorem rest_keeps_window_witness:
  "\<exists>ev b'. rest (Normalize (plain 2 Buy 101 3)) small_book = (True, ev, b') \<and> map oid ev = [1]
    \<and> populated_count (bids b') \<le> 1 \<and> has_deep b' Buy"
proof -
  let ?x = "Normalize (plain 2 Buy 101 3)"
  have "\<exists>b'. submit_all [plain 1 Buy 100 5] (new_Book kStpNone 1) = Some b' \<and> book_ok b'"
    using submit_all_ok [OF new_Book_ok, of "[plain 1 Buy 100 5]" kStpNone 1]
    by (auto simp: plain_def well_formed_def default_Order_def)
  then have core: "book_core small_book" by (auto simp: small_book_def book_ok_def)
  have h: "omap small_book (oid ?x) = None" "0 < leaves ?x" "0 < mem_levels small_book"
    "populated_count (ladder small_book (side ?x)) \<le> mem_levels small_book" by code_simp+
  have a: "admissible ?x" by (simp add: admissible_def Normalize_HasFlag plain_def default_Order_def)
  have v: "mem_levels small_book = 1" "side ?x = Buy" by code_simp+
  have e: "(\<lambda>(r, ev, b). (r, map oid ev)) (rest ?x small_book) = (True, [1])" by code_simp
  obtain r ev b' where rest: "rest ?x small_book = (r, ev, b')" by (metis prod_cases3)
  then have r: "r" "map oid ev = [1]" using e by auto
  from rest_keeps_window [OF core h(1,2) a h(3,4) rest] r rest show ?thesis by (auto simp: v ladder_def)
qed

subsection \<open>What a caller reads\<close>



text \<open>The best bid is the highest price at which a buy order rests and the best ask the lowest at
  which a sell order rests; each is absent exactly when its side is empty. Reading them only moves
  the price cache: no order and no level changes.\<close>

lemma best_prices:
  assumes "book_ok b"
  shows "(fst (best_bid b) = Some p \<longleftrightarrow> (\<exists>i e. omap b i = Some e \<and> side (e_order e) = Buy \<and> price (e_order e) = p)
           \<and> (\<forall>i e. omap b i = Some e \<longrightarrow> side (e_order e) = Buy \<longrightarrow> price (e_order e) \<le> p))
    \<and> (fst (best_ask b) = Some p \<longleftrightarrow> (\<exists>i e. omap b i = Some e \<and> side (e_order e) = Sell \<and> price (e_order e) = p)
           \<and> (\<forall>i e. omap b i = Some e \<longrightarrow> side (e_order e) = Sell \<longrightarrow> p \<le> price (e_order e)))
    \<and> orders (snd (best_bid b)) = orders b \<and> lvl (snd (best_bid b)) = lvl b \<and> lvl (snd (best_ask b)) = lvl b"
proof -
  have core: "book_core b" and caches: "caches_ok b" using assms by (simp_all add: book_ok_def)
  have pop: "0 < total (level_at (ladder b s) q) \<longleftrightarrow> (\<exists>i e. omap b i = Some e \<and> side (e_order e) = s \<and> price (e_order e) = q)" for s q
    using book_core_level(2) [OF core, of s q] book_coreD(3) [OF core, of s]
    unfolding lvl_def [symmetric] lvls_ok_def lvl_ok_def by (metis list.set_intros(1) list.set_cases empty_iff neq_Nil_conv set_empty)
  have best: "fst (ladder_best (ladder b s)) = Some p \<longleftrightarrow> (\<exists>i e. omap b i = Some e \<and> side (e_order e) = s \<and> price (e_order e) = p)
      \<and> (\<forall>i e. omap b i = Some e \<longrightarrow> side (e_order e) = s \<longrightarrow> \<not> better (ladder b s) (price (e_order e)) p)" for s
    using ladder_best_iff [OF book_coreD(2) [OF core], of s p] caches
    unfolding is_best_def pop caches_ok_def by blast
  have lvl: "lvl (upd_ladder b s (\<lambda>_. snd (ladder_best (ladder b s)))) = lvl b" for s
    by (simp add: fun_eq_iff lvl_def ladder_best_frame)
  have eq: "best_bid b = (fst (ladder_best (ladder b Buy)), upd_ladder b Buy (\<lambda>_. snd (ladder_best (ladder b Buy))))"
    "best_ask b = (fst (ladder_best (ladder b Sell)), upd_ladder b Sell (\<lambda>_. snd (ladder_best (ladder b Sell))))"
    by (simp_all add: best_bid_def best_ask_def upd_ladder_def ladder_def split_def Let_def)
  show ?thesis
    unfolding eq fst_conv snd_conv lvl best
    using book_coreD(1) [OF core] by (simp add: better_def not_less)
qed

end
