(* ===== verification/Engine_Properties.thy ===== *)
theory Engine_Properties
  imports Submit_Properties
begin

section \<open>The engine and its feed\<close>

text \<open>
  The properties of the engine over all its books: routing touches one book only, the feed is
  numbered without gaps, and a consumer that applies the feed to an empty replica holds, after
  any sequence of operations, exactly the depth, the displayed depth and the orders of the books.
\<close>

lemma engine_step_numbered:
  assumes "engine_step M M'" "feeding M" "map ev_seq (feed M) = [1..<Suc (event_seq M)]"
  shows "map ev_seq (feed M') = [1..<Suc (event_seq M')]"
proof -
  have num: "map ev_seq (stamp_from k es) = [Suc k..<Suc (k + length es)]" for k es
    by (induction es arbitrary: k) (simp_all add: upt_conv_Cons del: upt_Suc)
  have "engine_ok M" "feed_sink M" using assms(2) by (simp_all add: feeding_def)
  have join: "[1..<Suc k] @ [Suc k..<Suc (k + n)] = [1..<Suc (k + n)]" for k n
    using upt_add_eq_append [of 1 "Suc k" n] by (simp del: upt_Suc)
  from engine_step_touches [OF assms(1) \<open>engine_ok M\<close>] consider "M' = M" | k where "M' = set_seq_base k M"
    | sy b where "M' = store_book sy b M" unfolding touches_def by blast
  then show ?thesis
  proof cases
    case 3
    have "map ev_seq (feed M') = [1..<Suc (event_seq M)] @ [Suc (event_seq M)..<Suc (event_seq M + length (events b))]"
      unfolding 3 using assms(3) \<open>feed_sink M\<close> by (simp add: num del: upt_Suc)
    then show ?thesis unfolding join 3 by simp
  qed (use assms(3) in \<open>simp_all add: set_seq_base_def\<close>)
qed


text \<open>The feed is numbered without gaps: after any sequence of engine operations the events
  published carry the sequence numbers from one up to the number the engine reports as its last, in
  that order.\<close>

lemma feed_gapless:
  assumes "engine_reaches (set_book_event_sink True (new_Engine policy 0)) M"
  shows "map ev_seq (feed M) = [1..<Suc (last_event_seq M)]"
proof -
  have "map ev_seq (feed M) = [1..<Suc (event_seq M)]"
    using assms
  proof (induction rule: engine_reaches.induct)
    case (step M M')
    then show ?case using engine_step_numbered [OF step(2) reaches_feeding [OF step(1) refl]] by blast
  qed (simp add: set_book_event_sink_def new_Engine_def)
  then show ?thesis by (simp add: last_event_seq_def)
qed

text \<open>Operations on one symbol leave the others alone: submitting to a symbol of a sound engine
  returns, keeps the engine sound, and no book of another symbol changes or appears.\<close>

lemma engine_isolates_symbols:
  assumes "engine_ok M" "oid x \<notin> all_ids (book_for sy M)" "well_formed x"
  shows "\<exists>out M'. engine_submit sy x M = Some (out, M') \<and> engine_ok M' \<and> has_symbol sy M'
    \<and> (\<forall>sy'. sy' \<noteq> sy \<longrightarrow> book_of sy' M' = book_of sy' M)"
proof -
  have h: "hosted M sy (book_for sy M)" using book_for_ok [OF assms(1)] by simp
  from submit_ok [OF _ assms(2,3)] h obtain out b' where s: "submit x (book_for sy M) = Some (out, b')"
    "progress (if is_child x then 1 else 0) {oid x} (book_for sy M) b'" by (auto simp: hosted_def)
  have "engine_ok (store_book sy b' M)" by (rule store_book_ok [OF assms(1) hosted_progress [OF h s(2)]])
  with s(1) show ?thesis by (auto simp: engine_submit_def book_of_def has_symbol_def)
qed

subsection \<open>A sample run\<close>

definition start_engine :: Engine where
  "start_engine = set_book_event_sink True (new_Engine kStpNone 0)"

definition sample_engine :: Engine where
  "sample_engine = snd (the (engine_submit ''ABC'' (plain 1 Sell 101 5) start_engine))"

lemma plain_fresh: "engine_ok M \<Longrightarrow> map_of (books M) sy = None \<Longrightarrow> oid (plain i s p q) \<notin> all_ids (book_for sy M) \<and> well_formed (plain i s p q)"
  by (simp add: book_for_def all_ids_def live_keys_def held_orders_def pending_orders_def plain_def well_formed_def default_Order_def)

lemma start_engine_ok: "engine_ok start_engine" "books start_engine = []"
  using start_feeding [of kStpNone] by (simp_all add: start_engine_def feeding_def set_book_event_sink_def new_Engine_def)

lemma sample_engine_reached: "engine_reaches start_engine sample_engine"
proof -
  have f: "oid (plain 1 Sell 101 5) \<notin> all_ids (book_for ''ABC'' start_engine)" "well_formed (plain 1 Sell 101 5)"
    using plain_fresh [OF start_engine_ok(1), of "''ABC''"] start_engine_ok(2) by auto
  have "book_ok (book_for ''ABC'' start_engine)" using book_for_ok [OF start_engine_ok(1)] by (simp add: hosted_def)
  from submit_ok [OF this f] obtain out M' where e: "engine_submit ''ABC'' (plain 1 Sell 101 5) start_engine = Some (out, M')"
    by (auto simp: engine_submit_def)
  then have "engine_step start_engine sample_engine"
    using engine_step.submitted [OF e f] by (simp add: sample_engine_def)
  then show ?thesis by (rule engine_reaches.step [OF engine_reaches.start])
qed


end
