(* ===== verification/Bytes.thy ===== *)
theory Bytes
  imports Types
begin

section \<open>Bytes, little-endian integers and decimal numbers\<close>

text \<open>
  A \<open>std::string\<close> or \<open>std::string_view\<close> of bytes is a \<open>string\<close>: a HOL character is exactly a
  byte, \<open>of_char\<close> its value and \<open>char_of\<close> the cast of a number to a byte (which keeps its low
  eight bits). Fixed-width integers on the wire are words.
\<close>

type_synonym bytes = string

subsection \<open>Little-endian integers (feed/feed\_wire.cc, ipc/helper\_codec.cc)\<close>

definition PutUint :: "64 word \<Rightarrow> nat \<Rightarrow> bytes" where
  "PutUint v n = map (\<lambda>i. char_of (unat (drop_bit (8 * i) v AND 0xFF))) [0..<n]"

definition GetUint :: "bytes \<Rightarrow> nat \<Rightarrow> 64 word" where
  "GetUint p n = fold (\<lambda>i v. v OR push_bit (8 * i) (of_nat (of_char (p ! i)))) [0..<n] 0"

definition PutU16 :: "16 word \<Rightarrow> bytes" where
  "PutU16 v = [char_of (unat (v AND 0xFF)), char_of (unat (drop_bit 8 v AND 0xFF))]"

definition PutU32 :: "32 word \<Rightarrow> bytes" where
  "PutU32 v = map (\<lambda>i. char_of (unat (drop_bit (8 * i) v AND 0xFF))) [0..<4]"

definition PutU64 :: "64 word \<Rightarrow> bytes" where
  "PutU64 v = map (\<lambda>i. char_of (unat (drop_bit (8 * i) v AND 0xFF))) [0..<8]"

lemma bit_of_char: "bit (of_char c :: nat) j \<Longrightarrow> j < 8"
proof (rule ccontr)
  assume b: "bit (of_char c :: nat) j" and "\<not> j < 8"
  then have "(2::nat) ^ 8 \<le> 2 ^ j" by (intro power_increasing) auto
  moreover have "(of_char c :: nat) < 2 ^ 8" by simp
  ultimately have "(of_char c :: nat) < 2 ^ j" by (rule less_le_trans [rotated])
  with b show False by (simp add: bit_iff_odd)
qed

lemma length_PutUint [simp]: "length (PutUint v n) = n"
  by (simp add: PutUint_def)

lemma length_PutU [simp]: "length (PutU16 a) = 2" "length (PutU32 b) = 4" "length (PutU64 v) = 8"
  by (simp_all add: PutU16_def PutU32_def PutU64_def)

lemma bit_low_byte: "bit (unat (w AND 0xFF) mod 256) j \<longleftrightarrow> j < 8 \<and> bit w j" for w :: "'a::len word"
proof -
  have "w AND 0xFF = take_bit 8 w" by (simp add: take_bit_eq_mask mask_eq_exp_minus_1)
  then have "unat (w AND 0xFF) = take_bit 8 (unat w)" by (simp only: unsigned_take_bit_eq)
  then have "unat (w AND 0xFF) mod 256 = take_bit 8 (unat w)" by (simp add: take_bit_eq_mod)
  then show ?thesis by (simp add: bit_take_bit_iff bit_unsigned_iff)
qed

lemma nth_PutUint: "i < n \<Longrightarrow> bit (of_char (PutUint v n ! i) :: nat) j \<longleftrightarrow> j < 8 \<and> bit v (8 * i + j)"
  by (simp add: PutUint_def bit_low_byte bit_drop_bit_eq)

lemma bit_GetUint: "bit (GetUint p n) k \<longleftrightarrow> k < 64 \<and> k div 8 < n \<and> bit (of_char (p ! (k div 8)) :: nat) (k mod 8)"
proof (induction n)
  case (Suc n)
  have "bit (push_bit (8 * n) (of_nat (of_char (p ! n))) :: 64 word) k \<longleftrightarrow>
      k < 64 \<and> k div 8 = n \<and> bit (of_char (p ! n) :: nat) (k mod 8)"
  proof -
    have "bit (push_bit (8 * n) (of_nat (of_char (p ! n))) :: 64 word) k \<longleftrightarrow> k < 64 \<and> 8 * n \<le> k \<and> bit (of_char (p ! n) :: nat) (k - 8 * n)"
      by (auto simp: bit_push_bit_iff bit_of_nat_iff)
    also have "\<dots> \<longleftrightarrow> k < 64 \<and> k div 8 = n \<and> bit (of_char (p ! n) :: nat) (k mod 8)"
    proof (cases "k div 8 = n")
      case True
      then have "8 * n \<le> k" "k - 8 * n = k mod 8" using div_mult_mod_eq [of k 8] by linarith+
      with True show ?thesis by simp
    next
      case False
      then have "\<not> (8 * n \<le> k \<and> k - 8 * n < 8)" by (auto simp: div_nat_eqI)
      with False bit_of_char [of "p ! n" "k - 8 * n"] show ?thesis by blast
    qed
    finally show ?thesis .
  qed
  with Suc show ?case by (auto simp: GetUint_def bit_or_iff less_Suc_eq)
qed (simp add: GetUint_def)

lemma GetUint_PutUint:
  assumes "n \<le> 8"
  shows "GetUint (PutUint v n @ rest) n = take_bit (8 * n) v"
proof (rule bit_eqI)
  fix k assume "possible_bit TYPE(64 word) k"
  then have k: "k < 64" by simp
  have "8 * (k div 8) + k mod 8 = k" by simp
  moreover have "k div 8 < n \<longleftrightarrow> k < 8 * n" by (simp add: div_less_iff_less_mult mult.commute)
  ultimately show "bit (GetUint (PutUint v n @ rest) n) k = bit (take_bit (8 * n) v) k"
    using k nth_PutUint [of "k div 8" n v "k mod 8"] by (auto simp: bit_GetUint bit_take_bit_iff nth_append)
qed

lemma low_byte_ucast:
  fixes w :: "'a::len word"
  assumes "LENGTH('a) \<le> 64"
  shows "unat (drop_bit k (ucast w :: 64 word) AND 0xFF) mod 256 = unat (drop_bit k w AND 0xFF) mod 256"
  using assms by (intro bit_eqI) (auto simp: bit_low_byte bit_drop_bit_eq bit_ucast_iff dest: bit_imp_le_length)

lemma char_of_cong: "m mod 256 = n mod 256 \<Longrightarrow> char_of m = char_of n" for m n :: nat
  by (metis char_of_mod_256)

lemma PutU_eq: "PutU16 a = PutUint (ucast a) 2" "PutU32 b = PutUint (ucast b) 4" "PutU64 v = PutUint v 8"
proof -
  have byte16: "char_of (unat (drop_bit k a AND 0xFF)) = char_of (unat (drop_bit k (ucast a :: 64 word) AND 0xFF))" for k
    by (rule char_of_cong) (use low_byte_ucast [of k a] in simp)
  have byte32: "char_of (unat (drop_bit k b AND 0xFF)) = char_of (unat (drop_bit k (ucast b :: 64 word) AND 0xFF))" for k
    by (rule char_of_cong) (use low_byte_ucast [of k b] in simp)
  have two: "[0..<2] = [0, 1 :: nat]" by (simp add: upt_rec)
  show "PutU16 a = PutUint (ucast a) 2" using byte16 [of 0] byte16 [of 8] by (simp add: PutU16_def PutUint_def two)
  show "PutU32 b = PutUint (ucast b) 4" unfolding PutU32_def PutUint_def byte32 ..
  show "PutU64 v = PutUint v 8" by (simp add: PutU64_def PutUint_def)
qed

lemma GetUint_take: "n \<le> m \<Longrightarrow> GetUint (take m p) n = GetUint p n"
  unfolding GetUint_def by (rule fold_cong) simp_all

lemma GetUint_8: "GetUint (PutUint v 8 @ rest) 8 = v"
  using GetUint_PutUint [of 8 v rest] take_bit_word_eq_self [of 64 v] by simp

lemma GetUint_len: "n < 2 ^ 16 \<Longrightarrow> unat (GetUint (PutUint (ucast (of_nat n :: 16 word)) 2 @ rest) 2) = n"
  by (simp add: GetUint_PutUint unsigned_take_bit_eq unsigned_ucast_eq unsigned_of_nat take_bit_nat_eq_self)

lemma GetUint_len32: "n < 2 ^ 32 \<Longrightarrow> unat (GetUint (PutUint (ucast (of_nat n :: 32 word)) 4 @ rest) 4) = n"
  by (simp add: GetUint_PutUint unsigned_take_bit_eq unsigned_ucast_eq unsigned_of_nat take_bit_nat_eq_self)

lemma unat_back: "n < 2 ^ 64 \<Longrightarrow> unat (of_nat n :: 64 word) = n"
  by (simp add: unsigned_of_nat take_bit_nat_eq_self)

subsection \<open>Decimal numbers (\<open>std::to_string\<close>)\<close>

definition digit :: "nat \<Rightarrow> char" where
  "digit d = char_of (48 + d)"

definition is_digit :: "char \<Rightarrow> bool" where
  "is_digit c \<longleftrightarrow> 48 \<le> (of_char c :: nat) \<and> (of_char c :: nat) \<le> 57"

definition digit_val :: "char \<Rightarrow> nat" where
  "digit_val c = of_char c - 48"

fun decimal :: "nat \<Rightarrow> bytes" where
  "decimal n = (if n < 10 then [digit n] else decimal (n div 10) @ [digit (n mod 10)])"

declare decimal.simps [simp del]

text \<open>\<open>std::to_string\<close> of a signed integer.\<close>

definition to_string_int :: "int \<Rightarrow> string" where
  "to_string_int n = (if n < 0 then ''-'' @ decimal (nat (- n)) else decimal (nat n))"

definition of_decimal :: "bytes \<Rightarrow> nat" where
  "of_decimal s = foldl (\<lambda>v c. v * 10 + digit_val c) 0 s"

lemma decimal_grows: "a \<le> foldl (\<lambda>v c. v * 10 + digit_val c) a t"
proof (induction t arbitrary: a)
  case (Cons c t)
  from Cons.IH [of "a * 10 + digit_val c"] show ?case by simp
qed simp

lemma digit_back [simp]: "d < 10 \<Longrightarrow> digit_val (digit d) = d" "d < 10 \<Longrightarrow> is_digit (digit d)"
  by (simp_all add: digit_def digit_val_def is_digit_def)

lemma decimal_digits: "decimal n \<noteq> []" "list_all is_digit (decimal n)"
  by (induction n rule: decimal.induct) (subst decimal.simps, simp)+

lemma of_decimal_decimal [simp]: "of_decimal (decimal n) = n"
proof (induction n rule: decimal.induct)
  case (1 n)
  then show ?case by (subst decimal.simps) (simp add: of_decimal_def)
qed

lemma length_decimal: "n < 10 ^ k \<Longrightarrow> 0 < k \<Longrightarrow> length (decimal n) \<le> k"
proof (induction k arbitrary: n)
  case (Suc k)
  show ?case
  proof (cases "n < 10")
    case False
    then have "0 < k" using Suc.prems by (cases k) auto
    moreover have "n div 10 < 10 ^ k" using Suc.prems by (simp add: div_less_iff_less_mult mult.commute)
    ultimately show ?thesis using Suc.IH [of "n div 10"] False by (subst decimal.simps) simp
  qed (subst decimal.simps, simp)
qed simp

subsection \<open>Single bytes and big-endian integers (net/ws\_frame.cc, util/sha1.cc)\<close>

definition byte :: "char \<Rightarrow> 8 word" where
  "byte c = of_nat (of_char c)"

definition chr :: "8 word \<Rightarrow> char" where
  "chr w = char_of (unat w)"

definition PutBE :: "64 word \<Rightarrow> nat \<Rightarrow> bytes" where
  "PutBE v n = map (\<lambda>i. chr (ucast (drop_bit (8 * i) v AND 0xFF))) (rev [0..<n])"

definition GetBE :: "bytes \<Rightarrow> 64 word" where
  "GetBE p = foldl (\<lambda>v c. push_bit 8 v OR ucast (byte c)) 0 p"

lemma byte_chr [simp]: "byte (chr w) = w"
proof -
  have "unat w mod 256 = unat w" using unsigned_less [of w, where 'a = nat] by simp
  then show ?thesis by (simp add: byte_def chr_def)
qed

lemma chr_byte [simp]: "chr (byte c) = c"
proof -
  have "unat (of_nat (of_char c) :: 8 word) = of_char c" by (simp add: unsigned_of_nat take_bit_nat_eq_self)
  then show ?thesis by (simp add: byte_def chr_def)
qed

lemma length_PutBE [simp]: "length (PutBE v n) = n"
  by (simp add: PutBE_def)

lemma PutBE_Suc: "PutBE v (Suc n) = chr (ucast (drop_bit (8 * n) v AND 0xFF)) # PutBE v n"
  by (simp add: PutBE_def)

lemma GetBE_step:
  "push_bit n (push_bit 8 acc OR ucast (ucast (drop_bit n v AND 0xFF) :: 8 word)) OR take_bit n v
     = push_bit (8 + n) acc OR take_bit (8 + n) v" for acc v :: "64 word"
proof (rule bit_eqI)
  fix k
  have "drop_bit n v AND 0xFF = take_bit 8 (drop_bit n v)" by (simp add: take_bit_eq_mask mask_eq_exp_minus_1)
  then show "bit (push_bit n (push_bit 8 acc OR ucast (ucast (drop_bit n v AND 0xFF) :: 8 word)) OR take_bit n v) k
      = bit (push_bit (8 + n) acc OR take_bit (8 + n) v) k"
    by (auto simp: bit_or_iff bit_push_bit_iff bit_ucast_iff bit_take_bit_iff bit_drop_bit_eq not_le not_less
        add.commute dest: bit_imp_le_length)
qed

lemma GetBE_PutBE_from:
  "foldl (\<lambda>v c. push_bit 8 v OR ucast (byte c)) acc (PutBE v n) = push_bit (8 * n) acc OR take_bit (8 * n) v"
proof (induction n arbitrary: acc)
  case (Suc n)
  then show ?case using GetBE_step [of "8 * n" acc v] by (simp add: PutBE_Suc)
qed (simp add: PutBE_def)

lemma GetBE_PutBE: "GetBE (PutBE v n) = take_bit (8 * n) v"
  by (simp add: GetBE_def GetBE_PutBE_from)

end
