(* ===== verification/Byte_Buffer.thy ===== *)
theory Byte_Buffer
  imports Bytes
begin

section \<open>The receive and send buffer (util/buffer.h)\<close>

text \<open>
  \<open>Buffer\<close> is a vector of bytes with a read and a write cursor: bytes are appended at the write
  cursor, consumed at the read cursor, and the live bytes are moved to the front when space is
  needed or the consumed head has grown large. The locale \<open>byte_queue\<close> is what its users rely
  on: a queue of bytes whose contents grow at the back and shrink at the front. The buffer is its
  interpretation, so all the cursor arithmetic is discharged here once.
\<close>

record Buffer =
  storage :: bytes
  read_pos :: nat
  write_pos :: nat

definition new_Buffer :: Buffer where
  "new_Buffer = \<lparr>storage = [], read_pos = 0, write_pos = 0\<rparr>"

definition buf_size :: "Buffer \<Rightarrow> nat" where
  "buf_size b = write_pos b - read_pos b"

definition buf_empty :: "Buffer \<Rightarrow> bool" where
  "buf_empty b \<longleftrightarrow> buf_size b = 0"

definition view :: "Buffer \<Rightarrow> bytes" where
  "view b = take (buf_size b) (drop (read_pos b) (storage b))"

definition clear :: "Buffer \<Rightarrow> Buffer" where
  "clear b = b\<lparr>read_pos := 0, write_pos := 0\<rparr>"

definition compact :: "Buffer \<Rightarrow> Buffer" where
  "compact b =
     (let n = buf_size b;
          st = (if n > 0 \<and> read_pos b > 0
                then take n (drop (read_pos b) (storage b)) @ drop n (storage b) else storage b)
      in b\<lparr>storage := st, read_pos := 0, write_pos := n\<rparr>)"

definition maybe_compact :: "Buffer \<Rightarrow> Buffer" where
  "maybe_compact b =
     (if read_pos b > 0 \<and> read_pos b \<ge> length (storage b) div 2 then compact b else b)"

definition reserve_tail :: "nat \<Rightarrow> Buffer \<Rightarrow> Buffer" where
  "reserve_tail len b =
     (if length (storage b) - write_pos b \<ge> len then b
      else let b1 = (if read_pos b > 0 then compact b else b)
           in if length (storage b1) - write_pos b1 < len
              then b1\<lparr>storage := storage b1 @ replicate (write_pos b1 + len - length (storage b1)) (char_of (0::nat))\<rparr>
              else b1)"

text \<open>Writing through the pointer \<open>reserve\<close> returns, and \<open>std::memcpy\<close> to the write cursor.\<close>

definition poke :: "bytes \<Rightarrow> Buffer \<Rightarrow> Buffer" where
  "poke s b = b\<lparr>storage := take (write_pos b) (storage b) @ s @ drop (write_pos b + length s) (storage b)\<rparr>"

definition commit :: "nat \<Rightarrow> Buffer \<Rightarrow> Buffer" where
  "commit len b = b\<lparr>write_pos := write_pos b + len\<rparr>"

definition buf_reserve :: "nat \<Rightarrow> Buffer \<Rightarrow> Buffer" where
  "buf_reserve len b = reserve_tail len b"

definition buf_append :: "bytes \<Rightarrow> Buffer \<Rightarrow> Buffer" where
  "buf_append s b = (if s = [] then b else commit (length s) (poke s (reserve_tail (length s) b)))"

definition consume :: "nat \<Rightarrow> Buffer \<Rightarrow> Buffer" where
  "consume len b =
     (if len \<ge> buf_size b then clear b else maybe_compact (b\<lparr>read_pos := read_pos b + len\<rparr>))"

subsection \<open>The cursors\<close>

definition buffer_ok :: "Buffer \<Rightarrow> bool" where
  "buffer_ok b \<longleftrightarrow> read_pos b \<le> write_pos b \<and> write_pos b \<le> length (storage b)"

lemma length_view: "buffer_ok b \<Longrightarrow> length (view b) = buf_size b"
  by (auto simp: buffer_ok_def view_def buf_size_def)

lemma compact_ok:
  assumes "buffer_ok b"
  shows "buffer_ok (compact b) \<and> view (compact b) = view b \<and> write_pos (compact b) = buf_size b"
  using assms by (auto simp: compact_def Let_def buffer_ok_def view_def buf_size_def)

lemma maybe_compact_ok: "buffer_ok b \<Longrightarrow> buffer_ok (maybe_compact b) \<and> view (maybe_compact b) = view b"
  by (simp add: maybe_compact_def compact_ok)

lemma reserve_tail_ok:
  assumes "buffer_ok b"
  shows "buffer_ok (reserve_tail len b) \<and> view (reserve_tail len b) = view b
    \<and> write_pos (reserve_tail len b) + len \<le> length (storage (reserve_tail len b))"
proof -
  let ?b1 = "if read_pos b > 0 then compact b else b"
  have b1: "buffer_ok ?b1" "view ?b1 = view b" using assms compact_ok [OF assms] by simp_all
  have grown: "view (?b1\<lparr>storage := storage ?b1 @ zs\<rparr>) = view b" for zs
    unfolding b1(2) [symmetric] using b1(1) by (simp add: view_def buffer_ok_def buf_size_def)
  show ?thesis
    using assms b1 grown unfolding reserve_tail_def Let_def by (auto simp: buffer_ok_def split del: if_split split: if_splits)
qed

lemma commit_poke_ok:
  assumes "buffer_ok b" "write_pos b + length s \<le> length (storage b)"
  shows "buffer_ok (commit (length s) (poke s b)) \<and> view (commit (length s) (poke s b)) = view b @ s"
  using assms by (auto simp: buffer_ok_def commit_def poke_def view_def buf_size_def drop_take min_absorb2)

subsection \<open>The contract\<close>

locale byte_queue =
  fixes inv :: "'b \<Rightarrow> bool" and contents :: "'b \<Rightarrow> bytes" and empty :: 'b
    and push :: "bytes \<Rightarrow> 'b \<Rightarrow> 'b" and pop :: "nat \<Rightarrow> 'b \<Rightarrow> 'b"
  assumes empty_ok: "inv empty" "contents empty = []"
    and push_ok: "inv b \<Longrightarrow> inv (push s b)" "inv b \<Longrightarrow> contents (push s b) = contents b @ s"
    and pop_ok: "inv b \<Longrightarrow> inv (pop n b)" "inv b \<Longrightarrow> contents (pop n b) = drop n (contents b)"
begin

lemma push_all: "inv b \<Longrightarrow> inv (fold push ss b) \<and> contents (fold push ss b) = contents b @ concat ss"
  by (induction ss arbitrary: b) (simp_all add: push_ok)

lemma pop_pop: "inv b \<Longrightarrow> contents (pop m (pop n b)) = contents (pop (n + m) b)"
  by (simp add: pop_ok add.commute)

lemma push_pop: "inv b \<Longrightarrow> contents (pop (length (contents b)) (push s b)) = s"
  by (simp add: push_ok pop_ok)

end

interpretation buffer: byte_queue buffer_ok view new_Buffer buf_append consume
proof
  show "buffer_ok new_Buffer" "view new_Buffer = []" by (simp_all add: new_Buffer_def buffer_ok_def view_def)
  show "buffer_ok (buf_append s b)" if "buffer_ok b" for s b
    using that reserve_tail_ok [OF that] commit_poke_ok by (simp add: buf_append_def)
  show "view (buf_append s b) = view b @ s" if "buffer_ok b" for s b
    using that reserve_tail_ok [OF that] commit_poke_ok by (simp add: buf_append_def)
  have keep: "buffer_ok (b\<lparr>read_pos := read_pos b + n\<rparr>)" "view (b\<lparr>read_pos := read_pos b + n\<rparr>) = drop n (view b)"
    if "buffer_ok b" "n < buf_size b" for n b
    using that by (auto simp: buffer_ok_def view_def buf_size_def drop_take add.commute diff_diff_left)
  show "buffer_ok (consume n b)" if "buffer_ok b" for n b
    using that keep maybe_compact_ok by (simp add: consume_def clear_def buffer_ok_def [of "b\<lparr>read_pos := 0, write_pos := 0\<rparr>"])
  show "view (consume n b) = drop n (view b)" if "buffer_ok b" for n b
    using that keep maybe_compact_ok length_view [OF that] by (simp add: consume_def clear_def view_def [of "b\<lparr>read_pos := 0, write_pos := 0\<rparr>"] buf_size_def [of "b\<lparr>read_pos := 0, write_pos := 0\<rparr>"])
qed

subsection \<open>Properties\<close>

text \<open>C32. The buffer is a queue of bytes, whatever the cursors and compactions do: appending chunks and
  consuming any number of bytes leaves exactly the bytes that were there, followed by the chunks
  in order, without the consumed ones; a read through \<open>reserve\<close> and \<open>commit\<close> appends the bytes
  that were written there.\<close>

theorem buffer_is_queue:
  assumes "buffer_ok b" "length s \<le> len"
  shows "view (consume n (fold buf_append chunks b)) = drop n (view b @ concat chunks)
    \<and> view (commit (length s) (poke s (buf_reserve len b))) = view b @ s
    \<and> buffer_ok (consume n (fold buf_append chunks b)) \<and> buffer_ok (commit (length s) (poke s (buf_reserve len b)))"
proof -
  note P = buffer.push_all [OF assms(1), of chunks]
  have "buffer_ok (buf_reserve len b)" "view (buf_reserve len b) = view b"
    "write_pos (buf_reserve len b) + length s \<le> length (storage (buf_reserve len b))"
    using reserve_tail_ok [OF assms(1), of len] assms(2) by (simp_all add: buf_reserve_def)
  with P show ?thesis using commit_poke_ok [of "buf_reserve len b" s] by (simp add: buffer.pop_ok)
qed

theorem buffer_is_queue_witness:
  "buffer_ok new_Buffer \<and> view (consume 2 (fold buf_append [''ab'', ''cd''] new_Buffer)) = ''cd''"
  using buffer_is_queue [of new_Buffer "''x''" 1 2 "[''ab'', ''cd'']"] buffer.empty_ok by simp

end
