(* ===== verification/Stream_Codec.thy ===== *)
theory Stream_Codec
  imports Byte_Buffer "HOL-Library.Sublist"
begin

section \<open>Messages on a byte stream\<close>

text \<open>
  Every stream decoder of the program has one shape: it looks at the unconsumed bytes and either
  needs more, or yields a message and the number of bytes it took, or rejects the stream. The
  readers all run it in the same loop over a buffer. \<open>stream_codec\<close> is the contract between an
  encoder and such a decoder, proved for each wire format of the program; from it follows that
  a reader recovers exactly the messages that were written, however the stream was cut into
  reads. What is written may carry more than the message that is read back (a masking key, say);
  \<open>val\<close> is the message in it.
\<close>

datatype 'a Decode = kIncomplete | kComplete 'a nat | kError string

text \<open>The decoders take the message off the buffer when it is complete.\<close>

definition decode_buffer :: "(bytes \<Rightarrow> 'a Decode) \<Rightarrow> Buffer \<Rightarrow> 'a Decode \<times> Buffer" where
  "decode_buffer dec b =
     (case dec (view b) of kComplete x n \<Rightarrow> (kComplete x n, consume n b) | r \<Rightarrow> (r, b))"

text \<open>The loop of a reader: all messages at the front of the buffer, in order, and the error that
  stopped it, if any.\<close>

definition drain_step :: "(bytes \<Rightarrow> 'a Decode) \<Rightarrow> 'a list \<times> Buffer
    \<Rightarrow> (('a list \<times> Buffer) + ('a list \<times> string option \<times> Buffer)) option" where
  "drain_step dec = (\<lambda>(out, b).
     case decode_buffer dec b of
       (kIncomplete, b') \<Rightarrow> Some (Inr (out, None, b'))
     | (kError err, b') \<Rightarrow> Some (Inr (out, Some err, b'))
     | (kComplete x n, b') \<Rightarrow> Some (Inl (out @ [x], b')))"

definition drain :: "(bytes \<Rightarrow> 'a Decode) \<Rightarrow> Buffer \<Rightarrow> ('a list \<times> string option \<times> Buffer) option" where
  "drain dec b = iter (drain_step dec) ([], b)"

text \<open>A connection: each read appends a chunk and drains the buffer, until an error closes it.\<close>

fun reads :: "(bytes \<Rightarrow> 'a Decode) \<Rightarrow> bytes list \<Rightarrow> Buffer \<Rightarrow> ('a list \<times> string option \<times> Buffer) option" where
  "reads dec [] b = Some ([], None, b)"
| "reads dec (c # cs) b = do {
     (xs, err, b1) \<leftarrow> drain dec (buf_append c b);
     (case err of
        Some e \<Rightarrow> Some (xs, Some e, b1)
      | None \<Rightarrow> do { (ys, err', b2) \<leftarrow> reads dec cs b1; Some (xs @ ys, err', b2) })
   }"

subsection \<open>The loop ends\<close>

lemma drain_step_cases:
  "dec (view b) = kIncomplete \<Longrightarrow> drain_step dec (out, b) = Some (Inr (out, None, b))"
  "dec (view b) = kError err \<Longrightarrow> drain_step dec (out, b) = Some (Inr (out, Some err, b))"
  "dec (view b) = kComplete x n \<Longrightarrow> drain_step dec (out, b) = Some (Inl (out @ [x], consume n b))"
  by (simp_all add: drain_step_def decode_buffer_def)

text \<open>A decoder that takes at least one byte per message cannot keep the loop running.\<close>

lemma drain_ends:
  assumes took: "\<And>v x n. dec v = kComplete x n \<Longrightarrow> 0 < n \<and> n \<le> length v" and ok: "buffer_ok b"
  shows "\<exists>xs err b'. drain dec b = Some (xs, err, b') \<and> buffer_ok b'
    \<and> (err = None \<longrightarrow> dec (view b') = kIncomplete) \<and> suffix (view b') (view b)"
proof -
  have "\<exists>r. iter (drain_step dec) ([], b) = Some r \<and> buffer_ok (snd (snd r))
      \<and> (fst (snd r) = None \<longrightarrow> dec (view (snd (snd r))) = kIncomplete) \<and> suffix (view (snd (snd r))) (view b)"
  proof (rule iter_total [where I = "\<lambda>st. buffer_ok (snd st) \<and> suffix (view (snd st)) (view b)" and m = "\<lambda>st. length (view (snd st))"])
    show "buffer_ok (snd ([], b)) \<and> suffix (view (snd ([], b))) (view b)" using ok by simp
    fix st :: "'a list \<times> Buffer" assume I: "buffer_ok (snd st) \<and> suffix (view (snd st)) (view b)"
    obtain out c where st: "st = (out, c)" by (cases st)
    show "(\<exists>s'. drain_step dec st = Some (Inl s') \<and> (buffer_ok (snd s') \<and> suffix (view (snd s')) (view b))
          \<and> length (view (snd s')) < length (view (snd st)))
        \<or> (\<exists>r. drain_step dec st = Some (Inr r) \<and> buffer_ok (snd (snd r))
            \<and> (fst (snd r) = None \<longrightarrow> dec (view (snd (snd r))) = kIncomplete) \<and> suffix (view (snd (snd r))) (view b))"
    proof (cases "dec (view c)")
      case (kComplete x n)
      have "suffix (drop n (view c)) (view b)" using I st by (auto intro: suffix_order.trans suffix_drop)
      then show ?thesis using took [OF kComplete] drain_step_cases(3) [where dec = dec, OF kComplete] I st by (auto simp: buffer.pop_ok)
    qed (use I st drain_step_cases(1,2) [of dec c] in \<open>auto\<close>)
  qed
  then show ?thesis by (auto simp: drain_def)
qed

subsection \<open>The contract\<close>

locale stream_codec =
  fixes enc :: "'e \<Rightarrow> bytes" and dec :: "bytes \<Rightarrow> 'a Decode" and ok :: "'e \<Rightarrow> bool" and val :: "'e \<Rightarrow> 'a"
  assumes nonempty: "ok x \<Longrightarrow> enc x \<noteq> []"
    and whole: "ok x \<Longrightarrow> dec (enc x @ rest) = kComplete (val x) (length (enc x))"
    and partial: "ok x \<Longrightarrow> strict_prefix p (enc x) \<Longrightarrow> dec p = kIncomplete"
begin

lemma nothing_yet: "list_all ok xs \<Longrightarrow> xs \<noteq> [] \<Longrightarrow> dec [] = kIncomplete"
  using partial [of "hd xs" "[]"] nonempty [of "hd xs"] by (cases xs) (auto simp: strict_prefix_def)

lemma drain_from:
  assumes "list_all ok xs" "buffer_ok b" "view b = concat (map enc xs) @ p" "dec p = kIncomplete"
  shows "\<exists>b'. iter (drain_step dec) (out, b) = Some (out @ map val xs, None, b') \<and> view b' = p \<and> buffer_ok b'"
  using assms
proof (induction xs arbitrary: b out)
  case Nil
  then show ?case using drain_step_cases(1) [of dec b out] by simp
next
  case (Cons x xs)
  have "dec (view b) = kComplete (val x) (length (enc x))" using Cons.prems whole by simp
  note step = drain_step_cases(3) [where dec = dec, OF this, of out]
  let ?b = "consume (length (enc x)) b"
  have "buffer_ok ?b" "view ?b = concat (map enc xs) @ p" using Cons.prems by (simp_all add: buffer.pop_ok)
  from Cons.IH [OF _ this Cons.prems(4), of "out @ [val x]"] Cons.prems(1) show ?case by (simp add: step)
qed

lemma drain_all:
  assumes "list_all ok xs" "buffer_ok b" "view b = concat (map enc xs) @ p" "dec p = kIncomplete"
  shows "\<exists>b'. drain dec b = Some (map val xs, None, b') \<and> view b' = p \<and> buffer_ok b'"
  using drain_from [OF assms, of "[]"] by (simp add: drain_def)

text \<open>Cutting an encoded sequence anywhere leaves whole messages and part of one.\<close>

lemma cut:
  assumes "list_all ok xs" "concat (map enc xs) = v @ w"
  shows "\<exists>ys zs p. xs = ys @ zs \<and> v = concat (map enc ys) @ p \<and> concat (map enc zs) = p @ w
    \<and> (p = [] \<or> (\<exists>z. ok z \<and> strict_prefix p (enc z)))"
  using assms
proof (induction xs arbitrary: v)
  case (Cons x xs)
  show ?case
  proof (cases "strict_prefix v (enc x)")
    case True
    with Cons.prems show ?thesis by (intro exI [of _ "[]"] exI [of _ "x # xs"] exI [of _ v]) auto
  next
    case False
    have "prefix (enc x) v \<or> prefix v (enc x)"
      using Cons.prems(2) by (metis concat.simps(2) list.simps(9) prefixI prefix_same_cases)
    then obtain v' where v: "v = enc x @ v'" using False by (metis prefixE prefix_order.le_less self_append_conv)
    with Cons.prems have "concat (map enc xs) = v' @ w" by simp
    from Cons.IH [OF _ this] Cons.prems(1) obtain ys zs p
      where "xs = ys @ zs" "v' = concat (map enc ys) @ p" "concat (map enc zs) = p @ w"
        "p = [] \<or> (\<exists>z. ok z \<and> strict_prefix p (enc z))" by auto
    then show ?thesis using v by (intro exI [of _ "x # ys"] exI [of _ zs] exI [of _ p]) auto
  qed
qed simp

lemma reads_all:
  assumes "list_all ok xs" "buffer_ok b" "concat (map enc xs) = view b @ concat cs" "xs \<noteq> [] \<or> dec [] = kIncomplete"
    "cs = [] \<Longrightarrow> xs = []"
  shows "\<exists>b'. reads dec cs b = Some (map val xs, None, b') \<and> view b' = [] \<and> buffer_ok b'"
  using assms
proof (induction cs arbitrary: xs b)
  case Nil
  then show ?case by simp
next
  case (Cons c cs)
  let ?b = "buf_append c b"
  have b: "buffer_ok ?b" "view ?b = view b @ c" using Cons.prems(2) by (simp_all add: buffer.push_ok)
  have idle: "dec [] = kIncomplete" using Cons.prems(1,4) nothing_yet by blast
  have "concat (map enc xs) = view ?b @ concat cs" using Cons.prems(3) b by simp
  from cut [OF Cons.prems(1) this] obtain ys zs p where c: "xs = ys @ zs" "view ?b = concat (map enc ys) @ p"
    "concat (map enc zs) = p @ concat cs" "p = [] \<or> (\<exists>z. ok z \<and> strict_prefix p (enc z))" by blast
  have "dec p = kIncomplete" using c(4) idle partial by auto
  from drain_all [OF _ b(1) c(2) this] Cons.prems(1) c(1) obtain b'
    where d: "drain dec ?b = Some (map val ys, None, b')" "view b' = p" "buffer_ok b'" by auto
  have last: "zs = []" if "cs = []"
  proof (rule ccontr)
    assume ne: "zs \<noteq> []"
    then obtain z zs' where z: "zs = z # zs'" "ok z" using Cons.prems(1) c(1) by (cases zs) auto
    have "prefix (enc z) p" using c(3) z(1) that by auto
    then have "dec p = kComplete (val z) (length (enc z))" using whole [OF z(2)] by (auto simp: prefix_def)
    with \<open>dec p = kIncomplete\<close> show False by simp
  qed
  have "list_all ok zs" using Cons.prems(1) c(1) by simp
  from Cons.IH [OF this d(3)] c(3) d(2) idle last obtain b2
    where r: "reads dec cs b' = Some (map val zs, None, b2)" "view b2 = []" "buffer_ok b2" by auto
  with d show ?case by (simp add: c(1))
qed

text \<open>However the stream is cut into reads, the reader recovers the messages, in order, and
  nothing is left over.\<close>

lemma reads_recover:
  assumes "list_all ok xs" "xs \<noteq> []" "concat cs = concat (map enc xs)"
  shows "\<exists>b'. reads dec cs new_Buffer = Some (map val xs, None, b') \<and> view b' = []"
proof -
  have "cs \<noteq> []" using assms nonempty by (cases xs) auto
  then show ?thesis
    using reads_all [OF assms(1) buffer.empty_ok(1), of cs] assms(2) assms(3) [symmetric] by (auto simp: buffer.empty_ok)
qed

end

end
