(* ===== verification/Feed_Wire.thy ===== *)
theory Feed_Wire
  imports Stream_Codec
begin

section \<open>The feed's wire format (feed/feed\_wire.cc)\<close>

text \<open>
  A book event is a record of sixty bytes, little-endian scalars with a two-byte symbol length,
  followed by the symbol. Unsigned fields of the event are naturals and signed ones integers in
  the model; on the wire they are 64-bit words, so the round trip holds for events whose fields
  fit, which is what the source's types guarantee, and whose symbol is shorter than 65536 bytes,
  which the encoder does not check.
\<close>

definition kFeedRecordFixed :: nat where
  "kFeedRecordFixed = 1 + 1 + 2 + 8 + 8 + 8 + 8 + 8 + 8 + 8"

fun type_tag :: "BookEventType \<Rightarrow> nat" where
  "type_tag kAdd = 0"
| "type_tag kCancel = 1"
| "type_tag kTrade = 2"
| "type_tag kReprice = 3"
| "type_tag kReplenish = 4"
| "type_tag kTrigger = 5"

definition kMaxType :: nat where
  "kMaxType = type_tag kTrigger"

definition tag_type :: "nat \<Rightarrow> BookEventType" where
  "tag_type n = (if n = 0 then kAdd else if n = 1 then kCancel else if n = 2 then kTrade else if n = 3 then kReprice
     else if n = 4 then kReplenish else kTrigger)"

definition EncodeBookEvent :: "BookEvent \<Rightarrow> bytes" where
  "EncodeBookEvent ev =
     [char_of (type_tag (ev_type ev)), char_of (if ev_side ev = Sell then 1 else 0 :: nat)]
     @ PutUint (ucast (of_nat (length (ev_symbol ev)) :: 16 word)) 2
     @ PutUint (of_nat (ev_seq ev)) 8
     @ PutUint (of_nat (ev_order_id ev)) 8
     @ PutUint (of_nat (ev_taker_id ev)) 8
     @ PutUint (of_int (ev_price ev)) 8
     @ PutUint (of_int (ev_prev_price ev)) 8
     @ PutUint (of_int (ev_qty ev)) 8
     @ PutUint (of_int (ev_displayed ev)) 8
     @ ev_symbol ev"

definition DecodeBookEvent :: "bytes \<Rightarrow> BookEvent Decode" where
  "DecodeBookEvent v =
     (if length v < kFeedRecordFixed then kIncomplete
      else let ty = of_char (v ! 0) :: nat
           in if ty > kMaxType then kError ''''
              else let sd = of_char (v ! 1) :: nat;
                       symbol_len = unat (GetUint (drop 2 v) 2);
                       total = kFeedRecordFixed + symbol_len
                   in if length v < total then kIncomplete
                      else kComplete
                        \<lparr>ev_seq = unat (GetUint (drop 4 v) 8),
                         ev_symbol = take symbol_len (drop kFeedRecordFixed v),
                         ev_type = tag_type ty,
                         ev_order_id = unat (GetUint (drop 12 v) 8),
                         ev_taker_id = unat (GetUint (drop 20 v) 8),
                         ev_side = (if sd = 1 then Sell else Buy),
                         ev_price = sint (GetUint (drop 28 v) 8),
                         ev_prev_price = sint (GetUint (drop 36 v) 8),
                         ev_qty = sint (GetUint (drop 44 v) 8),
                         ev_displayed = sint (GetUint (drop 52 v) 8)\<rparr> total)"

subsection \<open>Round trip\<close>

definition fits_int64 :: "int \<Rightarrow> bool" where
  "fits_int64 i \<longleftrightarrow> - (2 ^ 63) \<le> i \<and> i < 2 ^ 63"

definition wire_ok :: "BookEvent \<Rightarrow> bool" where
  "wire_ok ev \<longleftrightarrow> length (ev_symbol ev) < 2 ^ 16 \<and> ev_seq ev < 2 ^ 64 \<and> ev_order_id ev < 2 ^ 64 \<and> ev_taker_id ev < 2 ^ 64
     \<and> fits_int64 (ev_price ev) \<and> fits_int64 (ev_prev_price ev) \<and> fits_int64 (ev_qty ev) \<and> fits_int64 (ev_displayed ev)"

lemma sint_back: "fits_int64 i \<Longrightarrow> sint (of_int i :: 64 word) = i"
  by (simp add: fits_int64_def signed_of_int signed_take_bit_int_eq_self)

lemma tag_type_back [simp]: "tag_type (type_tag t) = t"
  by (cases t) (simp_all add: tag_type_def)

lemma type_tag_le: "type_tag t \<le> 5"
  by (cases t) simp_all

lemma tag_byte [simp]: "type_tag t mod 256 = type_tag t"
  using type_tag_le [of t] by simp

lemma length_EncodeBookEvent: "length (EncodeBookEvent ev) = kFeedRecordFixed + length (ev_symbol ev)"
  by (simp add: EncodeBookEvent_def kFeedRecordFixed_def)

lemma decode_whole:
  assumes "wire_ok ev"
  shows "DecodeBookEvent (EncodeBookEvent ev @ rest) = kComplete ev (length (EncodeBookEvent ev))"
proof -
  let ?v = "EncodeBookEvent ev @ rest"
  have head: "of_char (?v ! 0) = type_tag (ev_type ev)" "of_char (?v ! 1) = (if ev_side ev = Sell then 1 else 0 :: nat)"
    by (simp_all add: EncodeBookEvent_def)
  have len: "unat (GetUint (drop 2 ?v) 2) = length (ev_symbol ev)"
    using assms GetUint_len by (simp add: EncodeBookEvent_def wire_ok_def)
  have fields: "GetUint (drop 4 ?v) 8 = of_nat (ev_seq ev)" "GetUint (drop 12 ?v) 8 = of_nat (ev_order_id ev)"
    "GetUint (drop 20 ?v) 8 = of_nat (ev_taker_id ev)" "GetUint (drop 28 ?v) 8 = of_int (ev_price ev)"
    "GetUint (drop 36 ?v) 8 = of_int (ev_prev_price ev)" "GetUint (drop 44 ?v) 8 = of_int (ev_qty ev)"
    "GetUint (drop 52 ?v) 8 = of_int (ev_displayed ev)"
    by (simp_all add: EncodeBookEvent_def GetUint_8)
  have sym: "take (length (ev_symbol ev)) (drop kFeedRecordFixed ?v) = ev_symbol ev"
    by (simp add: EncodeBookEvent_def kFeedRecordFixed_def)
  have side: "(if (if ev_side ev = Sell then 1 else 0 :: nat) = 1 then Sell else Buy) = ev_side ev" by (cases "ev_side ev") simp_all
  have "\<not> kMaxType < type_tag (ev_type ev)" using type_tag_le [of "ev_type ev"] by (simp add: kMaxType_def)
  with assms show ?thesis
    unfolding DecodeBookEvent_def Let_def head len fields sym side
    by (simp add: length_EncodeBookEvent unat_back sint_back wire_ok_def)
qed

lemma decode_part:
  assumes ok: "wire_ok ev" and p: "strict_prefix p (EncodeBookEvent ev)"
  shows "DecodeBookEvent p = kIncomplete"
proof (cases "length p < kFeedRecordFixed")
  case False
  let ?e = "EncodeBookEvent ev"
  have le: "60 \<le> length p" using False by (simp add: kFeedRecordFixed_def)
  have short: "length p < kFeedRecordFixed + length (ev_symbol ev)"
    using p prefix_length_less length_EncodeBookEvent by metis
  have tk: "p = take (length p) ?e" using p by (auto simp: strict_prefix_def prefix_def)
  have "p ! 0 = ?e ! 0" using tk le by (metis nth_take less_le_trans zero_less_numeral)
  then have ty: "of_char (p ! 0) = type_tag (ev_type ev)" by (simp add: EncodeBookEvent_def)
  have "drop 2 p = take (length p - 2) (drop 2 ?e)" using drop_take [of 2 "length p" ?e] tk by simp
  then have "GetUint (drop 2 p) 2 = GetUint (drop 2 ?e) 2" using le by (simp add: GetUint_take)
  then have len: "unat (GetUint (drop 2 p) 2) = length (ev_symbol ev)"
    using ok GetUint_len by (simp add: EncodeBookEvent_def wire_ok_def)
  have "\<not> kMaxType < type_tag (ev_type ev)" using type_tag_le [of "ev_type ev"] by (simp add: kMaxType_def)
  with False short show ?thesis unfolding DecodeBookEvent_def Let_def ty len by simp
qed (simp add: DecodeBookEvent_def)

interpretation feed_wire: stream_codec EncodeBookEvent DecodeBookEvent wire_ok "\<lambda>x. x"
  by unfold_locales (auto simp: decode_whole decode_part, simp add: EncodeBookEvent_def)

subsection \<open>Properties\<close>

text \<open>C28. The feed survives any fragmentation of the stream: however the encodings of a sequence of
  events are cut into reads, the reader of the feed recovers exactly those events, in order, with no
  error and nothing left over.\<close>

theorem feed_wire_roundtrip:
  assumes "list_all wire_ok evs" "evs \<noteq> []" "concat chunks = concat (map EncodeBookEvent evs)"
  shows "\<exists>b. reads DecodeBookEvent chunks new_Buffer = Some (evs, None, b) \<and> view b = []"
  using feed_wire.reads_recover [OF assms] by simp

definition sample_event :: BookEvent where
  "sample_event = \<lparr>ev_seq = 7, ev_symbol = ''ABC'', ev_type = kTrade, ev_order_id = 3, ev_taker_id = 9, ev_side = Sell,
     ev_price = 101, ev_prev_price = -5, ev_qty = 4, ev_displayed = 2\<rparr>"

theorem feed_wire_roundtrip_witness:
  "\<exists>b. reads DecodeBookEvent [take 5 (EncodeBookEvent sample_event), drop 5 (EncodeBookEvent sample_event)] new_Buffer
     = Some ([sample_event], None, b) \<and> view b = []"
proof -
  have "list_all wire_ok [sample_event]" by (simp add: wire_ok_def fits_int64_def sample_event_def)
  then show ?thesis
    using feed_wire_roundtrip [of "[sample_event]" "[take 5 (EncodeBookEvent sample_event), drop 5 (EncodeBookEvent sample_event)]"]
    by simp
qed

end
