(* ===== verification/Helper_Codec.thy ===== *)
theory Helper_Codec
  imports Stream_Codec
begin

section \<open>The helper protocol (ipc/helper\_message.h, ipc/helper\_codec.cc)\<close>

text \<open>
  Messages to and from helper processes: a request id, a type and a list of fields, in a text
  encoding (a line per field, a blank line at the end) and in a length-prefixed binary one. Both
  codecs satisfy \<open>stream_codec\<close>: the binary one for every message that fits its length fields and
  the payload cap, the text one for messages without line breaks, without \<open>=\<close> in keys, and
  whose keys are not the two reserved ones.
\<close>

record HelperMessage =
  req_id :: nat
  msg_type :: string
  msg_fields :: "(string \<times> string) list"

definition new_HelperMessage :: HelperMessage where
  "new_HelperMessage = \<lparr>req_id = 0, msg_type = '''', msg_fields = []\<rparr>"

fun find_field :: "string \<Rightarrow> (string \<times> string) list \<Rightarrow> string option" where
  "find_field key [] = None"
| "find_field key (kv # kvs) = (if fst kv = key then Some (snd kv) else find_field key kvs)"

definition msg_get :: "string \<Rightarrow> HelperMessage \<Rightarrow> string option" where
  "msg_get key msg = find_field key (msg_fields msg)"

definition msg_set :: "string \<Rightarrow> string \<Rightarrow> HelperMessage \<Rightarrow> HelperMessage" where
  "msg_set key val msg = msg\<lparr>msg_fields := msg_fields msg @ [(key, val)]\<rparr>"

subsection \<open>The text codec\<close>

definition newline :: char where
  "newline = CHR 0x0A"

definition carriage :: char where
  "carriage = CHR 0x0D"

definition kMaxTextRecord :: nat where
  "kMaxTextRecord = 64 * 1024 * 1024"

definition kMaxU64 :: nat where
  "kMaxU64 = 2 ^ 64 - 1"

definition TrimCr :: "bytes \<Rightarrow> bytes" where
  "TrimCr s = (if s \<noteq> [] \<and> last s = carriage then butlast s else s)"

definition text_encode :: "HelperMessage \<Rightarrow> bytes" where
  "text_encode msg =
     ''req_id='' @ decimal (req_id msg) @ [newline]
     @ ''type='' @ msg_type msg @ [newline]
     @ concat (map (\<lambda>kv. fst kv @ ''='' @ snd kv @ [newline]) (msg_fields msg))
     @ [newline]"

fun find_blank :: "bytes \<Rightarrow> nat option" where
  "find_blank (c # d # s) = (if c = newline \<and> d = newline then Some 0 else map_option Suc (find_blank (d # s)))"
| "find_blank s = None"

fun split_on :: "char \<Rightarrow> bytes \<Rightarrow> bytes list" where
  "split_on sep [] = [[]]"
| "split_on sep (c # s) =
     (if c = sep then [] # split_on sep s
      else case split_on sep s of [] \<Rightarrow> [[c]] | l # ls \<Rightarrow> (c # l) # ls)"

fun parse_req_id :: "bytes \<Rightarrow> nat \<Rightarrow> string + nat" where
  "parse_req_id [] acc = Inr acc"
| "parse_req_id (c # s) acc =
     (if \<not> is_digit c then Inl ''text codec: bad req_id''
      else let d = digit_val c
           in if acc > (kMaxU64 - d) div 10 then Inl ''text codec: req_id overflow''
              else parse_req_id s (acc * 10 + d))"

definition text_line :: "bytes \<Rightarrow> HelperMessage \<times> bool \<Rightarrow> string + (HelperMessage \<times> bool)" where
  "text_line raw = (\<lambda>(msg, have_req_id).
     let line = TrimCr raw
     in if line = [] then Inr (msg, have_req_id)
        else if CHR ''='' \<notin> set line then Inl (''text codec: line without '' @ [CHR 0x27, CHR ''='', CHR 0x27])
        else let key = takeWhile (\<lambda>c. c \<noteq> CHR ''='') line;
                 val = drop (Suc (length key)) line
             in if key = ''req_id''
                then (if val = [] \<or> length val > 20 then Inl ''text codec: bad req_id''
                      else case parse_req_id val 0 of
                             Inl err \<Rightarrow> Inl err
                           | Inr n \<Rightarrow> Inr (msg\<lparr>req_id := n\<rparr>, True))
                else if key = ''type'' then Inr (msg\<lparr>msg_type := val\<rparr>, have_req_id)
                else Inr (msg_set key val msg, have_req_id))"

fun text_lines :: "bytes list \<Rightarrow> HelperMessage \<times> bool \<Rightarrow> string + (HelperMessage \<times> bool)" where
  "text_lines [] st = Inr st"
| "text_lines (l # ls) st = (case text_line l st of Inl err \<Rightarrow> Inl err | Inr st' \<Rightarrow> text_lines ls st')"

definition text_decode :: "bytes \<Rightarrow> HelperMessage Decode" where
  "text_decode v =
     (case find_blank v of
        None \<Rightarrow> if length v > kMaxTextRecord then kError ''text codec: record exceeds cap without terminator''
                else kIncomplete
      | Some end_pos \<Rightarrow>
          (case text_lines (split_on newline (take end_pos v)) (new_HelperMessage, False) of
             Inl err \<Rightarrow> kError err
           | Inr (msg, have_req_id) \<Rightarrow>
               if \<not> have_req_id then kError ''text codec: missing req_id''
               else kComplete msg (end_pos + 2)))"

subsection \<open>The binary codec\<close>

definition kBinaryMagic :: "32 word" where
  "kBinaryMagic = 0x434F4443"

definition kMaxBinaryPayload :: nat where
  "kMaxBinaryPayload = 64 * 1024 * 1024"

definition field_bytes :: "string \<times> string \<Rightarrow> bytes" where
  "field_bytes kv = PutU32 (of_nat (length (fst kv))) @ fst kv @ PutU32 (of_nat (length (snd kv))) @ snd kv"

definition binary_payload :: "HelperMessage \<Rightarrow> bytes" where
  "binary_payload msg =
     PutU64 (of_nat (req_id msg)) @ PutU16 (of_nat (length (msg_type msg))) @ msg_type msg
     @ PutU32 (of_nat (length (msg_fields msg))) @ concat (map field_bytes (msg_fields msg))"

definition binary_encode :: "HelperMessage \<Rightarrow> bytes" where
  "binary_encode msg = PutU32 kBinaryMagic @ PutU32 (of_nat (length (binary_payload msg))) @ binary_payload msg"

fun binary_fields :: "nat \<Rightarrow> bytes \<Rightarrow> HelperMessage \<Rightarrow> string + HelperMessage" where
  "binary_fields 0 p msg = Inr msg"
| "binary_fields (Suc n) p msg =
     (if length p < 4 then Inl ''binary codec: truncated field key length''
      else let klen = unat (GetUint p 4); p1 = drop 4 p
           in if length p1 < klen + 4 then Inl ''binary codec: truncated field key''
              else let key = take klen p1; p2 = drop klen p1; vlen = unat (GetUint p2 4); p3 = drop 4 p2
                   in if length p3 < vlen then Inl ''binary codec: truncated field value''
                      else binary_fields n (drop vlen p3) (msg_set key (take vlen p3) msg))"

definition binary_message :: "bytes \<Rightarrow> string + HelperMessage" where
  "binary_message p =
     (if length p < 8 + 2 then Inl ''binary codec: truncated header''
      else let rid = unat (GetUint p 8); p1 = drop 8 p; type_len = unat (GetUint p1 2); p2 = drop 2 p1
           in if length p2 < type_len + 4 then Inl ''binary codec: truncated type''
              else let ty = take type_len p2; p3 = drop type_len p2; count = unat (GetUint p3 4)
                   in binary_fields count (drop 4 p3) (new_HelperMessage\<lparr>req_id := rid, msg_type := ty\<rparr>))"

definition binary_decode :: "bytes \<Rightarrow> HelperMessage Decode" where
  "binary_decode v =
     (if length v < 8 then kIncomplete
      else if (ucast (GetUint v 4) :: 32 word) \<noteq> kBinaryMagic then kError ''binary codec: bad magic''
      else let payload_len = unat (GetUint (drop 4 v) 4)
           in if payload_len > kMaxBinaryPayload then kError ''binary codec: payload too large''
              else if length v < 8 + payload_len then kIncomplete
              else case binary_message (take payload_len (drop 8 v)) of
                     Inl err \<Rightarrow> kError err
                   | Inr msg \<Rightarrow> kComplete msg (8 + payload_len))"

subsection \<open>The binary round trip\<close>

definition binary_ok :: "HelperMessage \<Rightarrow> bool" where
  "binary_ok msg \<longleftrightarrow> req_id msg < 2 ^ 64 \<and> length (msg_type msg) < 2 ^ 16 \<and> length (binary_payload msg) \<le> kMaxBinaryPayload"

lemma field_bytes_length: "length (field_bytes kv) = 8 + length (fst kv) + length (snd kv)"
  by (simp add: field_bytes_def)

lemma binary_fields_back:
  assumes "\<forall>kv \<in> set kvs. length (fst kv) < 2 ^ 32 \<and> length (snd kv) < 2 ^ 32"
  shows "binary_fields (length kvs) (concat (map field_bytes kvs)) msg = Inr (msg\<lparr>msg_fields := msg_fields msg @ kvs\<rparr>)"
  using assms
proof (induction kvs arbitrary: msg)
  case (Cons kv kvs)
  obtain k v where kv: "kv = (k, v)" by (cases kv)
  have k: "length k < 2 ^ 32" and v: "length v < 2 ^ 32" using Cons.prems kv by simp_all
  let ?rest = "concat (map field_bytes kvs)"
  have "binary_fields (length (kv # kvs)) (concat (map field_bytes (kv # kvs))) msg = binary_fields (length kvs) ?rest (msg_set k v msg)"
    using GetUint_len32 [OF k] GetUint_len32 [OF v] by (simp add: kv field_bytes_def PutU_eq Let_def)
  with Cons show ?case by (simp add: msg_set_def kv)
qed simp

lemma binary_message_back:
  assumes "binary_ok msg"
  shows "binary_message (binary_payload msg) = Inr msg"
proof -
  have n: "req_id msg < 2 ^ 64" "length (msg_type msg) < 2 ^ 16" using assms by (simp_all add: binary_ok_def)
  have cap: "length (concat (map field_bytes (msg_fields msg))) \<le> 2 ^ 26"
    using assms by (simp add: binary_ok_def binary_payload_def kMaxBinaryPayload_def)
  have sum: "length (concat (map field_bytes kvs)) = (\<Sum>kv\<leftarrow>kvs. 8 + length (fst kv) + length (snd kv))" for kvs
    by (simp add: length_concat field_bytes_length comp_def)
  have "8 + length (fst kv) + length (snd kv) \<le> 2 ^ 26" if "kv \<in> set (msg_fields msg)" for kv
    using cap member_le_sum_list [of "8 + length (fst kv) + length (snd kv)" "map (\<lambda>kv. 8 + length (fst kv) + length (snd kv)) (msg_fields msg)"] that
    by (simp add: sum)
  then have small: "\<forall>kv \<in> set (msg_fields msg). length (fst kv) < 2 ^ 32 \<and> length (snd kv) < 2 ^ 32" by fastforce
  have "length kvs \<le> (\<Sum>kv\<leftarrow>kvs. 8 + length (fst kv) + length (snd kv))" for kvs :: "(string \<times> string) list"
    by (induction kvs) simp_all
  from this [of "msg_fields msg"] cap have count: "length (msg_fields msg) < 2 ^ 32" by (simp add: sum)
  show ?thesis
    using unat_back [OF n(1)] GetUint_len [OF n(2)] GetUint_len32 [OF count] binary_fields_back [OF small]
    by (simp add: binary_message_def binary_payload_def PutU_eq GetUint_8 Let_def new_HelperMessage_def)
qed

lemma binary_head:
  assumes "binary_ok msg"
  shows "ucast (GetUint (binary_encode msg @ rest) 4) = kBinaryMagic"
    "unat (GetUint (drop 4 (binary_encode msg @ rest)) 4) = length (binary_payload msg)"
proof -
  have "length (binary_payload msg) < 2 ^ 32" using assms by (simp add: binary_ok_def kMaxBinaryPayload_def)
  from GetUint_len32 [OF this] show "unat (GetUint (drop 4 (binary_encode msg @ rest)) 4) = length (binary_payload msg)"
    by (simp add: binary_encode_def PutU_eq)
  show "ucast (GetUint (binary_encode msg @ rest) 4) = kBinaryMagic"
    by (simp add: binary_encode_def PutU_eq GetUint_PutUint kBinaryMagic_def)
qed

lemma binary_decode_whole:
  assumes ok: "binary_ok msg"
  shows "binary_decode (binary_encode msg @ rest) = kComplete msg (length (binary_encode msg))"
proof -
  have "take (length (binary_payload msg)) (drop 8 (binary_encode msg @ rest)) = binary_payload msg"
    by (simp add: binary_encode_def)
  with binary_head [OF ok, of rest] binary_message_back [OF ok] ok show ?thesis
    by (simp add: binary_decode_def Let_def binary_ok_def) (simp add: binary_encode_def)
qed

lemma binary_decode_part:
  assumes ok: "binary_ok msg" and p: "strict_prefix p (binary_encode msg)"
  shows "binary_decode p = kIncomplete"
proof (cases "length p < 8")
  case False
  let ?e = "binary_encode msg"
  have tk: "p = take (length p) ?e" using p by (auto simp: strict_prefix_def prefix_def)
  have "GetUint p 4 = GetUint ?e 4" using GetUint_take [of 4 "length p" ?e] tk False by simp
  moreover have "drop 4 p = take (length p - 4) (drop 4 ?e)" using drop_take [of 4 "length p" ?e] tk by simp
  then have "GetUint (drop 4 p) 4 = GetUint (drop 4 ?e) 4" using False by (simp add: GetUint_take)
  moreover have "length p < 8 + length (binary_payload msg)"
    using prefix_length_less [OF p] by (simp add: binary_encode_def)
  ultimately show ?thesis using False ok binary_head [OF ok, of "[]"] by (simp add: binary_decode_def Let_def binary_ok_def)
qed (simp add: binary_decode_def)

interpretation binary_helper: stream_codec binary_encode binary_decode binary_ok "\<lambda>x. x"
  by unfold_locales (auto simp: binary_decode_whole binary_decode_part, simp add: binary_encode_def PutU32_def)

subsection \<open>The text round trip\<close>

definition lines_bytes :: "bytes list \<Rightarrow> bytes" where
  "lines_bytes ls = concat (map (\<lambda>l. l @ [newline]) ls)"

definition text_safe :: "bytes \<Rightarrow> bool" where
  "text_safe s \<longleftrightarrow> newline \<notin> set s \<and> (s \<noteq> [] \<longrightarrow> last s \<noteq> carriage)"

definition field_safe :: "string \<times> string \<Rightarrow> bool" where
  "field_safe kv \<longleftrightarrow> newline \<notin> set (fst kv) \<and> CHR ''='' \<notin> set (fst kv) \<and> fst kv \<noteq> ''req_id'' \<and> fst kv \<noteq> ''type''
     \<and> text_safe (snd kv)"

definition text_ok :: "HelperMessage \<Rightarrow> bool" where
  "text_ok msg \<longleftrightarrow> req_id msg < 2 ^ 64 \<and> text_safe (msg_type msg) \<and> list_all field_safe (msg_fields msg)
     \<and> length (text_encode msg) \<le> kMaxTextRecord"

definition msg_lines :: "HelperMessage \<Rightarrow> bytes list" where
  "msg_lines msg = (''req_id='' @ decimal (req_id msg)) # (''type='' @ msg_type msg)
     # map (\<lambda>kv. fst kv @ ''='' @ snd kv) (msg_fields msg)"

lemma text_encode_lines: "text_encode msg = lines_bytes (msg_lines msg) @ [newline]"
  by (simp add: text_encode_def lines_bytes_def msg_lines_def comp_def)

lemma find_blank_skip: "newline \<notin> set l \<Longrightarrow> find_blank (l @ s) = map_option (\<lambda>n. length l + n) (find_blank s)"
proof (induction l)
  case Nil
  show ?case by (cases "find_blank s") simp_all
next
  case (Cons c l)
  have "find_blank (c # l @ s) = map_option Suc (find_blank (l @ s))" using Cons.prems by (cases "l @ s") auto
  also have "\<dots> = map_option Suc (map_option (\<lambda>n. length l + n) (find_blank s))" using Cons by simp
  finally show ?case by (cases "find_blank s") simp_all
qed

lemma find_blank_bound: "find_blank p = Some n \<Longrightarrow> find_blank (p @ q) = Some n \<and> n + 2 \<le> length p"
  by (induction p arbitrary: n rule: find_blank.induct) (auto split: if_splits)

lemma split_on_line: "c \<notin> set l \<Longrightarrow> split_on c (l @ c # s) = l # split_on c s" "c \<notin> set l \<Longrightarrow> split_on c l = [l]"
  by (induction l) auto

lemma lines_block:
  assumes "ls \<noteq> []" "\<forall>l \<in> set ls. l \<noteq> [] \<and> newline \<notin> set l"
  shows "\<exists>n. find_blank (lines_bytes ls @ newline # rest) = Some n \<and> n + 2 = length (lines_bytes ls) + 1
    \<and> split_on newline (take n (lines_bytes ls @ newline # rest)) = ls"
  using assms
proof (induction ls)
  case (Cons l ls)
  let ?v = "lines_bytes (l # ls) @ newline # rest"
  have l: "l \<noteq> []" "newline \<notin> set l" using Cons.prems by simp_all
  show ?case
  proof (cases ls)
    case Nil
    then have v: "?v = l @ newline # newline # rest" by (simp add: lines_bytes_def)
    show ?thesis unfolding v find_blank_skip [OF l(2)] using Nil l(2) by (simp add: lines_bytes_def split_on_line(2))
  next
    case ls: (Cons m ms)
    then obtain c s where m: "lines_bytes ls @ newline # rest = c # s" "c \<noteq> newline"
      using Cons.prems by (cases m) (auto simp: lines_bytes_def)
    have v: "?v = l @ newline # c # s" using m by (simp add: lines_bytes_def)
    from Cons.IH ls Cons.prems obtain n where n: "find_blank (c # s) = Some n" "n + 2 = length (lines_bytes ls) + 1"
      "split_on newline (take n (c # s)) = ls" unfolding m by auto
    have "find_blank ?v = Some (length l + Suc n)" unfolding v find_blank_skip [OF l(2)] using n(1) m(2) by simp
    moreover have "take (length l + Suc n) ?v = l @ newline # take n (c # s)" unfolding v by simp
    then have "split_on newline (take (length l + Suc n) ?v) = l # ls" using n(3) by (simp only: split_on_line(1) [OF l(2)])
    moreover have "length l + Suc n + 2 = length (lines_bytes (l # ls)) + 1" using n(2) by (simp add: lines_bytes_def)
    ultimately show ?thesis by blast
  qed
qed simp

lemma parse_req_id_value:
  assumes "list_all is_digit s" "foldl (\<lambda>v c. v * 10 + digit_val c) acc s \<le> kMaxU64"
  shows "parse_req_id s acc = Inr (foldl (\<lambda>v c. v * 10 + digit_val c) acc s)"
  using assms
proof (induction s arbitrary: acc)
  case (Cons c s)
  have "acc * 10 + digit_val c \<le> kMaxU64" using Cons.prems(2) decimal_grows [of "acc * 10 + digit_val c" s] by simp
  then have "\<not> acc > (kMaxU64 - digit_val c) div 10" by (simp add: less_eq_div_iff_mult_less_eq not_less)
  with Cons show ?case by simp
qed simp

lemma TrimCr_safe: "text_safe s \<Longrightarrow> TrimCr (k @ CHR ''='' # s) = k @ CHR ''='' # s"
  by (auto simp: TrimCr_def text_safe_def carriage_def split: if_splits)

lemma text_line_field:
  assumes "field_safe kv"
  shows "text_line (fst kv @ ''='' @ snd kv) (msg, h) = Inr (msg_set (fst kv) (snd kv) msg, h)"
  using assms TrimCr_safe [of "snd kv" "fst kv"]
  by (auto simp: text_line_def field_safe_def Let_def takeWhile_append)

lemma text_lines_fields:
  "list_all field_safe kvs \<Longrightarrow>
   text_lines (map (\<lambda>kv. fst kv @ ''='' @ snd kv) kvs) (msg, h) = Inr (msg\<lparr>msg_fields := msg_fields msg @ kvs\<rparr>, h)"
proof (induction kvs arbitrary: msg)
  case (Cons kv kvs)
  then show ?case using text_line_field [of kv msg h] by (simp add: msg_set_def)
qed simp

lemma text_lines_message:
  assumes "text_ok msg"
  shows "text_lines (msg_lines msg) (new_HelperMessage, False) = Inr (msg, True)"
proof -
  have n: "req_id msg \<le> kMaxU64" and ty: "text_safe (msg_type msg)" and fs: "list_all field_safe (msg_fields msg)"
    using assms by (auto simp: text_ok_def kMaxU64_def)
  have "req_id msg < 10 ^ 20" using n by (simp add: kMaxU64_def)
  then have len: "length (decimal (req_id msg)) \<le> 20" by (rule length_decimal) simp
  have id: "parse_req_id (decimal (req_id msg)) 0 = Inr (req_id msg)"
    using parse_req_id_value [OF decimal_digits(2) [of "req_id msg"], of 0] n of_decimal_decimal [of "req_id msg"]
    by (simp add: of_decimal_def)
  have "text_safe (decimal (req_id msg))"
    using decimal_digits(2) [of "req_id msg"] last_in_set [OF decimal_digits(1), of "req_id msg"]
    by (auto simp: text_safe_def list_all_iff is_digit_def newline_def carriage_def)
  note t1 = TrimCr_safe [OF this, of "''req_id''"] and t2 = TrimCr_safe [OF ty, of "''type''"]
  have "text_line (''req_id='' @ decimal (req_id msg)) (new_HelperMessage, False) = Inr (new_HelperMessage\<lparr>req_id := req_id msg\<rparr>, True)"
    using t1 id len decimal_digits(1) [of "req_id msg"] by (simp add: text_line_def Let_def)
  moreover have "text_line (''type='' @ msg_type msg) (m, h) = Inr (m\<lparr>msg_type := msg_type msg\<rparr>, h)" for m h
    using t2 by (simp add: text_line_def Let_def)
  ultimately show ?thesis
    using text_lines_fields [OF fs, of "\<lparr>req_id = req_id msg, msg_type = msg_type msg, msg_fields = []\<rparr>" True]
    by (simp add: msg_lines_def new_HelperMessage_def)
qed

lemma msg_lines_ok:
  assumes "text_ok msg"
  shows "\<forall>l \<in> set (msg_lines msg). l \<noteq> [] \<and> newline \<notin> set l"
  using assms decimal_digits(2) [of "req_id msg"]
  by (auto simp: msg_lines_def text_ok_def text_safe_def list_all_iff field_safe_def is_digit_def newline_def)

lemma text_block:
  assumes "text_ok msg"
  shows "\<exists>n. find_blank (text_encode msg @ rest) = Some n \<and> n + 2 = length (text_encode msg)
    \<and> split_on newline (take n (text_encode msg @ rest)) = msg_lines msg"
proof -
  have "msg_lines msg \<noteq> []" by (simp add: msg_lines_def)
  from lines_block [OF this msg_lines_ok [OF assms], of rest] show ?thesis unfolding text_encode_lines by simp
qed

lemma text_decode_whole:
  assumes ok: "text_ok msg"
  shows "text_decode (text_encode msg @ rest) = kComplete msg (length (text_encode msg))"
  using text_block [OF ok, of rest] text_lines_message [OF ok] by (auto simp: text_decode_def)

lemma text_decode_part:
  assumes ok: "text_ok msg" and p: "strict_prefix p (text_encode msg)"
  shows "text_decode p = kIncomplete"
proof -
  obtain n where n: "find_blank (text_encode msg) = Some n" "n + 2 = length (text_encode msg)"
    using text_block [OF ok, of "[]"] by auto
  obtain q where q: "text_encode msg = p @ q" using p by (auto simp: strict_prefix_def prefix_def)
  have "find_blank p = None"
  proof (rule ccontr)
    assume "find_blank p \<noteq> None"
    then obtain k where "find_blank p = Some k" by auto
    from find_blank_bound [OF this, of q] n q prefix_length_less [OF p] show False by simp
  qed
  moreover have "length p \<le> kMaxTextRecord" using prefix_length_less [OF p] ok by (simp add: text_ok_def)
  ultimately show ?thesis by (simp add: text_decode_def)
qed

interpretation text_helper: stream_codec text_encode text_decode text_ok "\<lambda>x. x"
  by unfold_locales (auto simp: text_decode_whole text_decode_part, simp add: text_encode_def)

subsection \<open>Verdicts are final\<close>

lemma GetUint_append: "n \<le> length v \<Longrightarrow> GetUint (v @ w) n = GetUint v n"
  using GetUint_take [of n "length v" "v @ w"] by simp

lemma binary_verdict:
  assumes "binary_decode v \<noteq> kIncomplete"
  shows "binary_decode (v @ w) = binary_decode v"
proof -
  have len: "8 \<le> length v" using assms by (auto simp: binary_decode_def split: if_splits)
  have "GetUint (v @ w) 4 = GetUint v 4" using len by (simp add: GetUint_append)
  moreover have "GetUint (drop 4 (v @ w)) 4 = GetUint (drop 4 v) 4"
    using GetUint_append [of 4 "drop 4 v" w] len by simp
  moreover have "take n (drop 8 (v @ w)) = take n (drop 8 v)" if "8 + n \<le> length v" for n using that len by simp
  ultimately show ?thesis using assms len unfolding binary_decode_def Let_def by (auto split: if_splits sum.splits)
qed

subsection \<open>Properties\<close>

text \<open>C29. The binary helper protocol is lossless on any fragmentation of the stream: however the
  encodings of a sequence of messages that fit the length fields and the payload cap are cut into
  reads, the reader recovers exactly those messages.\<close>

theorem binary_helper_roundtrip:
  assumes "list_all binary_ok msgs" "msgs \<noteq> []" "concat chunks = concat (map binary_encode msgs)"
  shows "\<exists>b. reads binary_decode chunks new_Buffer = Some (msgs, None, b) \<and> view b = []"
  using binary_helper.reads_recover [OF assms] by simp

definition sample_message :: HelperMessage where
  "sample_message = \<lparr>req_id = 4711, msg_type = ''auth'', msg_fields = [(''token'', ''a=b''), (''empty'', '''')]\<rparr>"

theorem binary_helper_roundtrip_witness:
  "\<exists>b. reads binary_decode [take 9 (binary_encode sample_message), drop 9 (binary_encode sample_message)] new_Buffer
     = Some ([sample_message], None, b) \<and> view b = []"
proof -
  have "list_all binary_ok [sample_message]"
    by (simp add: binary_ok_def sample_message_def binary_payload_def field_bytes_def kMaxBinaryPayload_def)
  then show ?thesis
    using binary_helper_roundtrip [of "[sample_message]" "[take 9 (binary_encode sample_message), drop 9 (binary_encode sample_message)]"]
    by simp
qed

text \<open>C30. The text helper protocol is lossless on any fragmentation of the stream for messages whose
  type and values have no line break and no trailing carriage return, whose keys have no line
  break and no equals sign and are not the reserved ones, and which fit the record cap.\<close>

theorem text_helper_roundtrip:
  assumes "list_all text_ok msgs" "msgs \<noteq> []" "concat chunks = concat (map text_encode msgs)"
  shows "\<exists>b. reads text_decode chunks new_Buffer = Some (msgs, None, b) \<and> view b = []"
  using text_helper.reads_recover [OF assms] by simp

theorem text_helper_roundtrip_witness:
  "\<exists>b. reads text_decode [take 9 (text_encode sample_message), drop 9 (text_encode sample_message)] new_Buffer
     = Some ([sample_message], None, b) \<and> view b = []"
proof -
  have "length (decimal 4711) \<le> 4" by (rule length_decimal) simp_all
  then have "list_all text_ok [sample_message]"
    by (simp add: text_ok_def sample_message_def text_safe_def field_safe_def newline_def carriage_def text_encode_def kMaxTextRecord_def)
  then show ?thesis
    using text_helper_roundtrip [of "[sample_message]" "[take 9 (text_encode sample_message), drop 9 (text_encode sample_message)]"]
    by simp
qed

text \<open>C31. A verdict of the binary decoder is final: once it has reported a message or rejected the
  stream, bytes that arrive later change neither the message, nor the number of bytes taken, nor the
  error. A stream that does not start with the magic number, or announces a payload over the cap, is
  rejected as soon as its header has arrived.\<close>

theorem binary_verdict_final:
  "(binary_decode v \<noteq> kIncomplete \<longrightarrow> binary_decode (v @ w) = binary_decode v)
   \<and> (8 \<le> length v \<and> ucast (GetUint v 4) \<noteq> kBinaryMagic \<longrightarrow> binary_decode v = kError ''binary codec: bad magic'')
   \<and> (8 \<le> length v \<and> ucast (GetUint v 4) = kBinaryMagic \<and> kMaxBinaryPayload < unat (GetUint (drop 4 v) 4)
        \<longrightarrow> binary_decode v = kError ''binary codec: payload too large'')"
  using binary_verdict [of v w] by (auto simp: binary_decode_def Let_def)

theorem binary_verdict_final_witness:
  "binary_decode (''GET / HT'' @ ''TP/1.1'') = binary_decode ''GET / HT''
   \<and> binary_decode ''GET / HT'' = kError ''binary codec: bad magic''"
proof -
  have "8 \<le> length ''GET / HT'' \<and> (ucast (GetUint ''GET / HT'' 4) :: 32 word) \<noteq> kBinaryMagic" by code_simp
  then show ?thesis using binary_verdict_final [of "''GET / HT''" "''TP/1.1''"] by auto
qed

end
