(* ===== verification/Ws_Frame.thy ===== *)
theory Ws_Frame
  imports Stream_Codec
begin

section \<open>WebSocket frames (net/ws\_frame.h, net/ws\_frame.cc)\<close>

text \<open>
  The frame codec of RFC 6455: a two-byte head, an extended payload length of two or eight
  big-endian bytes, an optional masking key and the payload. \<open>max_payload\<close> and
  \<open>require_masked\<close> are the decoder's parameters. Frames that fit \<open>max_payload\<close> satisfy
  \<open>stream_codec\<close>, each with its own masking key.
\<close>

datatype WsOpcode = kContinuation | kText | kBinary | kClose | kPing | kPong

record WsFrame =
  ws_fin :: bool
  ws_opcode :: WsOpcode
  ws_payload :: bytes

fun opcode_byte :: "WsOpcode \<Rightarrow> 8 word" where
  "opcode_byte kContinuation = 0x0"
| "opcode_byte kText = 0x1"
| "opcode_byte kBinary = 0x2"
| "opcode_byte kClose = 0x8"
| "opcode_byte kPing = 0x9"
| "opcode_byte kPong = 0xA"

definition byte_opcode :: "8 word \<Rightarrow> WsOpcode" where
  "byte_opcode w =
     (if w = 0x0 then kContinuation else if w = 0x1 then kText else if w = 0x2 then kBinary
      else if w = 0x8 then kClose else if w = 0x9 then kPing else kPong)"

definition is_control :: "WsFrame \<Rightarrow> bool" where
  "is_control fr \<longleftrightarrow> opcode_byte (ws_opcode fr) AND 0x08 \<noteq> 0"

definition IsValidOpcode :: "8 word \<Rightarrow> bool" where
  "IsValidOpcode w \<longleftrightarrow> w = 0x0 \<or> w = 0x1 \<or> w = 0x2 \<or> w = 0x8 \<or> w = 0x9 \<or> w = 0xA"

text \<open>The payload length and the bytes of the head before the masking key.\<close>

definition ws_length :: "bytes \<Rightarrow> (64 word \<times> nat) option" where
  "ws_length v =
     (let payload_len = ucast (byte (v ! 1) AND 0x7F) :: 64 word
      in if payload_len = 126
         then (if length v < 4 then None else Some (GetBE (take 2 (drop 2 v)), 4))
         else if payload_len = 127
         then (if length v < 10 then None else Some (GetBE (take 8 (drop 2 v)), 10))
         else Some (payload_len, 2))"

definition xor_mask :: "bytes \<Rightarrow> bytes \<Rightarrow> bytes" where
  "xor_mask key payload = map (\<lambda>i. chr (byte (payload ! i) XOR byte (key ! (i mod 4)))) [0..<length payload]"

text \<open>The decoder once the head is complete.\<close>

definition ws_body :: "nat \<Rightarrow> bool \<Rightarrow> bytes \<Rightarrow> bool \<Rightarrow> 64 word \<Rightarrow> nat \<Rightarrow> bytes option \<Rightarrow> WsFrame Decode" where
  "ws_body max_payload require_masked v fin payload_len header_len mask_key =
     (let opcode = byte (v ! 0) AND 0x0F; control = opcode AND 0x08 \<noteq> 0
      in if require_masked \<and> mask_key = None then kError ''unmasked client frame''
         else if \<not> IsValidOpcode opcode then kError ''invalid opcode''
         else if control \<and> (\<not> fin \<or> payload_len > 125) then kError ''invalid control frame''
         else if unat payload_len > max_payload then kError ''frame payload too large''
         else let total = (header_len + unat payload_len) mod 2 ^ 64
              in if length v < total then kIncomplete
                 else let payload = take (unat payload_len) (drop header_len v)
                      in kComplete \<lparr>ws_fin = fin, ws_opcode = byte_opcode opcode,
                           ws_payload = (case mask_key of None \<Rightarrow> payload | Some key \<Rightarrow> xor_mask key payload)\<rparr> total)"

definition DecodeWsFrame :: "nat \<Rightarrow> bool \<Rightarrow> bytes \<Rightarrow> WsFrame Decode" where
  "DecodeWsFrame max_payload require_masked v =
     (if length v < 2 then kIncomplete
      else let b0 = byte (v ! 0); b1 = byte (v ! 1); fin = b0 AND 0x80 \<noteq> 0
           in if b0 AND 0x70 \<noteq> 0 then kError ''reserved bits set''
              else let masked = b1 AND 0x80 \<noteq> 0
                   in case ws_length v of
                        None \<Rightarrow> kIncomplete
                      | Some (payload_len, header_len) \<Rightarrow>
                          if masked
                          then (if length v < header_len + 4 then kIncomplete
                                else ws_body max_payload require_masked v fin payload_len (header_len + 4)
                                       (Some (take 4 (drop header_len v))))
                          else ws_body max_payload require_masked v fin payload_len header_len None)"

definition ws_head :: "WsOpcode \<Rightarrow> nat \<Rightarrow> bool \<Rightarrow> bool \<Rightarrow> bytes" where
  "ws_head opcode len fin masked =
     (let mask_bit = (if masked then 0x80 else 0x00)
      in chr ((if fin then 0x80 else 0x00) OR opcode_byte opcode)
         # (if len < 126 then [chr (mask_bit OR of_nat len)]
            else if len \<le> 0xFFFF then chr (mask_bit OR 126) # PutBE (of_nat len) 2
            else chr (mask_bit OR 127) # PutBE (of_nat len) 8))"

definition EncodeWsFrame :: "WsOpcode \<Rightarrow> bytes \<Rightarrow> bool \<Rightarrow> bytes option \<Rightarrow> bytes" where
  "EncodeWsFrame opcode payload fin mask_key =
     ws_head opcode (length payload) fin (mask_key \<noteq> None)
     @ (case mask_key of Some key \<Rightarrow> key @ xor_mask key payload | None \<Rightarrow> payload)"

subsection \<open>The head\<close>

lemma opcode_back [simp]: "byte_opcode (opcode_byte op) = op" "IsValidOpcode (opcode_byte op)"
  by (cases op; simp add: byte_opcode_def IsValidOpcode_def)+

lemma head_byte0:
  "(((if fin then 0x80 else 0) OR opcode_byte op) AND 0x80 \<noteq> 0) = fin"
  "((if fin then 0x80 else 0) OR opcode_byte op) AND 0x70 = 0"
  "((if fin then 0x80 else 0) OR opcode_byte op) AND 0x0F = opcode_byte op"
  by (cases op; cases fin; simp)+

lemma small_len:
  assumes "n < 128"
  shows "((if masked then 0x80 else 0) OR of_nat n :: 8 word) AND 0x7F = of_nat n"
    and "(((if masked then 0x80 else 0) OR of_nat n :: 8 word) AND 0x80 \<noteq> 0) = masked"
proof -
  have n: "take_bit 7 (of_nat n :: 8 word) = of_nat n" using assms by (simp add: take_bit_of_nat take_bit_nat_eq_self)
  have m: "w AND 0x7F = take_bit 7 w" for w :: "8 word" by (simp add: take_bit_eq_mask mask_eq_exp_minus_1)
  have "(of_nat n :: 8 word) AND 0x80 = take_bit 7 (of_nat n) AND 0x80" by (simp only: n)
  also have "\<dots> = of_nat n AND (0x7F AND 0x80)" by (simp only: m [symmetric] and.assoc)
  finally have z: "(of_nat n :: 8 word) AND 0x80 = 0" by simp
  show "((if masked then 0x80 else 0) OR of_nat n :: 8 word) AND 0x7F = of_nat n"
    using n m [of "of_nat n"] by (simp add: bit.conj_disj_distrib2)
  show "(((if masked then 0x80 else 0) OR of_nat n :: 8 word) AND 0x80 \<noteq> 0) = masked"
    using z by (simp add: bit.conj_disj_distrib2)
qed

definition ext_len :: "nat \<Rightarrow> nat" where
  "ext_len len = (if len < 126 then 0 else if len \<le> 0xFFFF then 2 else 8)"

definition len_byte :: "nat \<Rightarrow> nat" where
  "len_byte len = (if len < 126 then len else if len \<le> 0xFFFF then 126 else 127)"

lemma ws_head_alt:
  "ws_head op len fin masked = chr ((if fin then 0x80 else 0) OR opcode_byte op)
     # chr ((if masked then 0x80 else 0) OR of_nat (len_byte len)) # PutBE (of_nat len) (ext_len len)"
  by (simp add: ws_head_def len_byte_def ext_len_def PutBE_def)

lemma length_ws_head: "length (ws_head op len fin masked) = 2 + ext_len len"
  by (simp add: ws_head_alt)

lemma len_byte_less: "len_byte len < 128"
  by (simp add: len_byte_def)

lemma ucast_small: "n < 128 \<Longrightarrow> ucast (of_nat n :: 8 word) = (of_nat n :: 64 word)"
  by (simp add: unsigned_of_nat take_bit_nat_eq_self)

lemma of_nat_small_eq: "n < 128 \<Longrightarrow> (of_nat n :: 64 word) = 126 \<longleftrightarrow> n = 126" "n < 128 \<Longrightarrow> (of_nat n :: 64 word) = 127 \<longleftrightarrow> n = 127"
  by (simp_all add: word_unat_eq_iff unsigned_of_nat take_bit_nat_eq_self)

text \<open>The two bytes that every verdict about the head depends on.\<close>

lemma ws_length_partial:
  assumes "2 \<le> length v" "v ! 1 = chr ((if masked then 0x80 else 0) OR of_nat (len_byte len))"
  shows "ws_length v = (if length v < 2 + ext_len len then None
    else Some (if ext_len len = 0 then of_nat len else GetBE (take (ext_len len) (drop 2 v)), 2 + ext_len len))"
  using assms len_byte_less [of len] small_len(1) [OF len_byte_less, of masked len]
  by (simp add: ws_length_def Let_def ucast_small of_nat_small_eq) (simp add: len_byte_def ext_len_def)

lemma ws_length_head:
  assumes "len < 2 ^ 64"
  shows "ws_length (ws_head op len fin masked @ r) = Some (of_nat len, 2 + ext_len len)"
proof -
  let ?v = "ws_head op len fin masked @ r"
  have "take (ext_len len) (drop 2 ?v) = PutBE (of_nat len) (ext_len len)" by (simp add: ws_head_alt)
  moreover have "take_bit (8 * ext_len len) (of_nat len :: 64 word) = of_nat len" if "ext_len len \<noteq> 0"
    using assms that by (auto simp: ext_len_def take_bit_of_nat take_bit_nat_eq_self split: if_splits)
  ultimately show ?thesis using ws_length_partial [of ?v masked len]
    by (simp add: GetBE_PutBE length_ws_head) (simp add: ws_head_alt GetBE_PutBE)
qed

lemma head_bytes:
  "(ws_head op len fin masked @ r) ! 0 = chr ((if fin then 0x80 else 0) OR opcode_byte op)"
  "(ws_head op len fin masked @ r) ! 1 = chr ((if masked then 0x80 else 0) OR of_nat (len_byte len))"
  by (simp_all add: ws_head_alt)

lemma decode_head:
  assumes "len < 2 ^ 64"
  shows "DecodeWsFrame mx req (ws_head op len fin masked @ r) =
    (if masked then (if length r < 4 then kIncomplete
        else ws_body mx req (ws_head op len fin masked @ r) fin (of_nat len) (2 + ext_len len + 4) (Some (take 4 r)))
     else ws_body mx req (ws_head op len fin masked @ r) fin (of_nat len) (2 + ext_len len) None)"
  unfolding DecodeWsFrame_def ws_length_head [OF assms] Let_def head_bytes byte_chr head_byte0 small_len(2) [OF len_byte_less]
  by (simp add: length_ws_head)

lemma decode_head_part:
  assumes "strict_prefix p (ws_head op len fin masked)"
  shows "DecodeWsFrame mx req p = kIncomplete"
proof (cases "length p < 2")
  case False
  then have "p ! 0 = ws_head op len fin masked ! 0" "p ! 1 = ws_head op len fin masked ! 1"
    using assms by (auto simp: strict_prefix_def prefix_def nth_append)
  then have b: "p ! 0 = chr ((if fin then 0x80 else 0) OR opcode_byte op)"
      "p ! 1 = chr ((if masked then 0x80 else 0) OR of_nat (len_byte len))" by (simp_all add: ws_head_alt)
  have "length p < 2 + ext_len len" using prefix_length_less [OF assms] by (simp add: length_ws_head)
  then have "ws_length p = None" using ws_length_partial [OF _ b(2)] False by simp
  then show ?thesis unfolding DecodeWsFrame_def Let_def b using head_byte0(2) [of fin op] by simp
qed (simp add: DecodeWsFrame_def)

subsection \<open>The round trip\<close>

definition ws_ok :: "nat \<Rightarrow> bool \<Rightarrow> bytes option \<times> WsFrame \<Rightarrow> bool" where
  "ws_ok mx req = (\<lambda>(key, fr).
     (case key of None \<Rightarrow> \<not> req | Some k \<Rightarrow> length k = 4) \<and> mx + 14 < 2 ^ 64 \<and> length (ws_payload fr) \<le> mx
     \<and> (is_control fr \<longrightarrow> ws_fin fr \<and> length (ws_payload fr) \<le> 125))"

definition ws_encode :: "bytes option \<times> WsFrame \<Rightarrow> bytes" where
  "ws_encode = (\<lambda>(key, fr). EncodeWsFrame (ws_opcode fr) (ws_payload fr) (ws_fin fr) key)"

lemma length_xor_mask [simp]: "length (xor_mask key s) = length s"
  by (simp add: xor_mask_def)

lemma xor_mask_xor_mask [simp]: "xor_mask key (xor_mask key s) = s"
  by (rule nth_equalityI) (simp_all add: xor_mask_def xor.assoc)

lemma ws_body_head:
  assumes "ws_ok mx req (key, fr)" "key' = None \<longleftrightarrow> key = None" "hl \<le> 14"
  shows "ws_body mx req (ws_head (ws_opcode fr) (length (ws_payload fr)) (ws_fin fr) (key \<noteq> None) @ r) (ws_fin fr)
      (of_nat (length (ws_payload fr))) hl key' =
    (let v = ws_head (ws_opcode fr) (length (ws_payload fr)) (ws_fin fr) (key \<noteq> None) @ r;
         body = take (length (ws_payload fr)) (drop hl v)
     in if length v < hl + length (ws_payload fr) then kIncomplete
        else kComplete \<lparr>ws_fin = ws_fin fr, ws_opcode = ws_opcode fr,
          ws_payload = (case key' of None \<Rightarrow> body | Some k \<Rightarrow> xor_mask k body)\<rparr> (hl + length (ws_payload fr)))"
proof -
  have len: "length (ws_payload fr) \<le> mx" "hl + length (ws_payload fr) < 2 ^ 64" using assms by (auto simp: ws_ok_def)
  then have n: "unat (of_nat (length (ws_payload fr)) :: 64 word) = length (ws_payload fr)"
    using assms by (auto simp: ws_ok_def unat_back)
  have m: "\<not> (req \<and> key' = None)" using assms(1,2) by (cases key) (auto simp: ws_ok_def)
  have c: "\<not> (opcode_byte (ws_opcode fr) AND 8 \<noteq> 0 \<and> (\<not> ws_fin fr \<or> 125 < (of_nat (length (ws_payload fr)) :: 64 word)))"
    using assms(1) n by (auto simp: ws_ok_def is_control_def word_less_nat_alt)
  show ?thesis unfolding ws_body_def Let_def head_bytes byte_chr head_byte0 n if_not_P [OF m] opcode_back if_not_P [OF c]
    using len by simp
qed

lemma ws_decode_whole:
  assumes ok: "ws_ok mx req (key, fr)"
  shows "DecodeWsFrame mx req (ws_encode (key, fr) @ rest) = kComplete fr (length (ws_encode (key, fr)))"
proof -
  let ?h = "ws_head (ws_opcode fr) (length (ws_payload fr)) (ws_fin fr) (key \<noteq> None)"
  have len: "length (ws_payload fr) < 2 ^ 64" using ok by (auto simp: ws_ok_def)
  have e: "ext_len (length (ws_payload fr)) \<le> 8" by (simp add: ext_len_def)
  show ?thesis
  proof (cases key)
    case None
    then show ?thesis using decode_head [OF len, of mx req "ws_opcode fr" "ws_fin fr" False "ws_payload fr @ rest"]
        ws_body_head [OF ok, of None "2 + ext_len (length (ws_payload fr))" "ws_payload fr @ rest"] e
      by (simp add: ws_encode_def EncodeWsFrame_def length_ws_head Let_def)
  next
    case (Some k)
    then have k: "length k = 4" using ok by (simp add: ws_ok_def)
    have "drop (6 + ext_len (length (ws_payload fr))) (?h @ k @ s) = s" for s
      using k by (simp add: length_ws_head)
    then show ?thesis using Some k decode_head [OF len, of mx req "ws_opcode fr" "ws_fin fr" True "k @ xor_mask k (ws_payload fr) @ rest"]
        ws_body_head [OF ok, of "Some k" "6 + ext_len (length (ws_payload fr))" "k @ xor_mask k (ws_payload fr) @ rest"] e
      by (simp add: ws_encode_def EncodeWsFrame_def length_ws_head Let_def)
  qed
qed

lemma ws_decode_part:
  assumes ok: "ws_ok mx req (key, fr)" and p: "strict_prefix p (ws_encode (key, fr))"
  shows "DecodeWsFrame mx req p = kIncomplete"
proof -
  let ?h = "ws_head (ws_opcode fr) (length (ws_payload fr)) (ws_fin fr) (key \<noteq> None)"
  let ?b = "case key of Some k \<Rightarrow> k @ xor_mask k (ws_payload fr) | None \<Rightarrow> ws_payload fr"
  have len: "length (ws_payload fr) < 2 ^ 64" using ok by (auto simp: ws_ok_def)
  have e: "ext_len (length (ws_payload fr)) \<le> 8" by (simp add: ext_len_def)
  have enc: "ws_encode (key, fr) = ?h @ ?b" by (simp add: ws_encode_def EncodeWsFrame_def)
  with p have "prefix p (?h @ ?b)" by (simp add: strict_prefix_def)
  then consider "strict_prefix p ?h" | r where "p = ?h @ r" "prefix r ?b"
    by (cases "p = ?h") (auto simp: prefix_append strict_prefix_def)
  then show ?thesis
  proof cases
    case 1
    then show ?thesis by (rule decode_head_part)
  next
    case 2
    then have r: "length r < length ?b" using prefix_length_less [OF p] enc by simp
    show ?thesis
    proof (cases key)
      case None
      then show ?thesis using r 2 decode_head [OF len, of mx req "ws_opcode fr" "ws_fin fr" False r]
          ws_body_head [OF ok, of None "2 + ext_len (length (ws_payload fr))" r] e by (simp add: length_ws_head Let_def)
    next
      case (Some k)
      then have k: "length k = 4" using ok by (simp add: ws_ok_def)
      then show ?thesis using r 2 Some decode_head [OF len, of mx req "ws_opcode fr" "ws_fin fr" True r]
          ws_body_head [OF ok, of "Some (take 4 r)" "6 + ext_len (length (ws_payload fr))" r] e
        by (simp add: length_ws_head Let_def)
    qed
  qed
qed

interpretation ws_frames: stream_codec ws_encode "DecodeWsFrame mx req" "ws_ok mx req" snd for mx req
proof unfold_locales
  fix x assume "ws_ok mx req x"
  then show "ws_encode x \<noteq> []" by (simp add: ws_encode_def EncodeWsFrame_def ws_head_def split: prod.split)
qed (auto simp: ws_decode_whole ws_decode_part)

subsection \<open>Properties\<close>

text \<open>C33. WebSocket frames survive masking and fragmentation of the stream: however a sequence of
  encoded frames, each with its own masking key, is cut into reads, the decoder recovers exactly the
  frames with their payloads unmasked, up to the largest payload the decoder accepts.\<close>

theorem ws_frame_roundtrip:
  assumes "list_all (ws_ok mx req) frs" "frs \<noteq> []" "concat chunks = concat (map ws_encode frs)"
  shows "\<exists>b. reads (DecodeWsFrame mx req) chunks new_Buffer = Some (map snd frs, None, b) \<and> view b = []"
  using ws_frames.reads_recover [OF assms] .

definition sample_frames :: "(bytes option \<times> WsFrame) list" where
  "sample_frames = [(Some ''abcd'', \<lparr>ws_fin = False, ws_opcode = kText, ws_payload = ''hello''\<rparr>),
     (Some ''efgh'', \<lparr>ws_fin = True, ws_opcode = kContinuation, ws_payload = replicate 200 CHR ''x''\<rparr>)]"

theorem ws_frame_roundtrip_witness:
  "\<exists>b. reads (DecodeWsFrame 1000 True) [take 9 (concat (map ws_encode sample_frames)), drop 9 (concat (map ws_encode sample_frames))] new_Buffer
     = Some (map snd sample_frames, None, b) \<and> view b = []"
proof -
  have "list_all (ws_ok 1000 True) sample_frames" "sample_frames \<noteq> []"
    by (simp_all add: ws_ok_def sample_frames_def is_control_def)
  then show ?thesis by (rule ws_frame_roundtrip) simp
qed

end
