(* ===== verification/Http_Message.thy ===== *)
theory Http_Message
  imports Bytes "HOL-Library.Sublist"
begin

section \<open>HTTP messages and routing (net/http\_message.cc, net/router.cc)\<close>

text \<open>
  Requests, responses and their serialization, the case-insensitive header lookup, the first
  occurrence searches of \<open>std::string_view::find\<close>, and the router. A route's handler is
  opaque here: dispatching tells which handler runs, or answers itself.
\<close>

definition crlf :: bytes where
  "crlf = [CHR 0x0D, CHR 0x0A]"

text \<open>\<open>std::string_view::find\<close> of a string and of a character.\<close>

fun find_str :: "bytes \<Rightarrow> bytes \<Rightarrow> nat option" where
  "find_str pat [] = (if pat = [] then Some 0 else None)"
| "find_str pat (c # s) = (if take (length pat) (c # s) = pat then Some 0 else map_option Suc (find_str pat s))"

fun find_char :: "char \<Rightarrow> bytes \<Rightarrow> nat option" where
  "find_char ch [] = None"
| "find_char ch (c # s) = (if c = ch then Some 0 else map_option Suc (find_char ch s))"

lemma find_str_append:
  "find_str pat v = Some n \<Longrightarrow> find_str pat (v @ w) = Some n \<and> n + length pat \<le> length v"
proof (induction pat v arbitrary: n rule: find_str.induct)
  case (1 pat)
  then show ?case by (cases w) (auto split: if_splits)
next
  case (2 pat c s)
  show ?case
  proof (cases "take (length pat) (c # s) = pat")
    case True
    then have "length pat \<le> length (c # s)" by (metis length_take min.absorb_iff2)
    with True 2(2) show ?thesis by (auto simp: take_Cons' split: if_splits)
  next
    case False
    with 2(2) obtain m where m: "find_str pat s = Some m" "n = Suc m" by auto
    from 2(1) [OF False m(1)] have IH: "find_str pat (s @ w) = Some m" "m + length pat \<le> length s" by simp_all
    then have "take (length pat) ((c # s) @ w) = take (length pat) (c # s)" by (simp add: take_Cons')
    with False IH m show ?thesis by simp
  qed
qed

text \<open>\<open>std::tolower\<close> in the C locale.\<close>

definition to_lower :: "char \<Rightarrow> char" where
  "to_lower c = (let n = of_char c :: nat in if 65 \<le> n \<and> n \<le> 90 then char_of (n + 32) else c)"

definition IEquals :: "bytes \<Rightarrow> bytes \<Rightarrow> bool" where
  "IEquals a b \<longleftrightarrow> length a = length b \<and> list_all2 (\<lambda>x y. to_lower x = to_lower y) a b"

record HttpHeader =
  hdr_name :: string
  hdr_value :: string

record HttpRequest =
  rq_method :: string
  rq_target :: string
  rq_path :: string
  rq_query :: string
  http_minor :: int
  rq_headers :: "HttpHeader list"
  rq_body :: bytes
  keep_alive :: bool

definition new_HttpRequest :: HttpRequest where
  "new_HttpRequest = \<lparr>rq_method = '''', rq_target = '''', rq_path = '''', rq_query = '''', http_minor = 1,
     rq_headers = [], rq_body = [], keep_alive = True\<rparr>"

fun find_header :: "string \<Rightarrow> HttpHeader list \<Rightarrow> string option" where
  "find_header name [] = None"
| "find_header name (h # hs) = (if IEquals (hdr_name h) name then Some (hdr_value h) else find_header name hs)"

definition header :: "string \<Rightarrow> HttpRequest \<Rightarrow> string option" where
  "header name req = find_header name (rq_headers req)"

subsection \<open>Responses\<close>

record HttpResponse =
  rs_status :: int
  rs_reason :: string
  rs_headers :: "HttpHeader list"
  rs_body :: bytes

definition new_HttpResponse :: HttpResponse where
  "new_HttpResponse = \<lparr>rs_status = 200, rs_reason = ''OK'', rs_headers = [], rs_body = []\<rparr>"

definition HttpReasonPhrase :: "int \<Rightarrow> string" where
  "HttpReasonPhrase code =
     (if code = 200 then ''OK'' else if code = 201 then ''Created'' else if code = 204 then ''No Content''
      else if code = 400 then ''Bad Request'' else if code = 404 then ''Not Found''
      else if code = 405 then ''Method Not Allowed'' else if code = 409 then ''Conflict''
      else if code = 411 then ''Length Required'' else if code = 413 then ''Payload Too Large''
      else if code = 500 then ''Internal Server Error'' else if code = 501 then ''Not Implemented''
      else if code = 503 then ''Service Unavailable'' else ''Unknown'')"

definition set_status :: "int \<Rightarrow> HttpResponse \<Rightarrow> HttpResponse" where
  "set_status code resp = resp\<lparr>rs_status := code, rs_reason := HttpReasonPhrase code\<rparr>"

fun put_header :: "string \<Rightarrow> string \<Rightarrow> HttpHeader list \<Rightarrow> HttpHeader list" where
  "put_header name v [] = [\<lparr>hdr_name = name, hdr_value = v\<rparr>]"
| "put_header name v (h # hs) =
     (if IEquals (hdr_name h) name then h\<lparr>hdr_value := v\<rparr> # hs else h # put_header name v hs)"

definition set_header :: "string \<Rightarrow> string \<Rightarrow> HttpResponse \<Rightarrow> HttpResponse" where
  "set_header name v resp = resp\<lparr>rs_headers := put_header name v (rs_headers resp)\<rparr>"

definition header_line :: "HttpHeader \<Rightarrow> bytes" where
  "header_line h = hdr_name h @ '': '' @ hdr_value h @ crlf"

definition serialize :: "bool \<Rightarrow> HttpResponse \<Rightarrow> bytes" where
  "serialize keep resp =
     ''HTTP/1.1 '' @ to_string_int (rs_status resp) @ '' '' @ rs_reason resp @ crlf
     @ concat (map header_line (rs_headers resp))
     @ (if list_ex (\<lambda>h. IEquals (hdr_name h) ''Content-Length'') (rs_headers resp) then []
        else ''Content-Length: '' @ decimal (length (rs_body resp)) @ crlf)
     @ (if list_ex (\<lambda>h. \<not> IEquals (hdr_name h) ''Content-Length'' \<and> IEquals (hdr_name h) ''Connection'') (rs_headers resp) then []
        else ''Connection: '' @ (if keep then ''keep-alive'' else ''close'') @ crlf)
     @ crlf @ rs_body resp"

subsection \<open>Routing\<close>

datatype ('h, 'k) Handler = Sync 'h | Async 'k

record ('h, 'k) Route =
  rt_method :: string
  rt_path :: string
  rt_handler :: "('h, 'k) Handler"

definition add_route :: "string \<Rightarrow> string \<Rightarrow> 'h \<Rightarrow> ('h, 'k) Route list \<Rightarrow> ('h, 'k) Route list" where
  "add_route meth path h routes = routes @ [\<lparr>rt_method = meth, rt_path = path, rt_handler = Sync h\<rparr>]"

definition add_async :: "string \<Rightarrow> string \<Rightarrow> 'k \<Rightarrow> ('h, 'k) Route list \<Rightarrow> ('h, 'k) Route list" where
  "add_async meth path k routes = routes @ [\<lparr>rt_method = meth, rt_path = path, rt_handler = Async k\<rparr>]"

datatype ('h, 'k) Dispatched = Run "('h, 'k) Handler" | Reply HttpResponse

fun route_walk :: "HttpRequest \<Rightarrow> bool \<Rightarrow> ('h, 'k) Route list \<Rightarrow> ('h, 'k) Handler option \<times> bool" where
  "route_walk req path_matched [] = (None, path_matched)"
| "route_walk req path_matched (e # es) =
     (if rt_path e \<noteq> rq_path req then route_walk req path_matched es
      else if rt_method e = rq_method req then (Some (rt_handler e), True)
      else route_walk req True es)"

definition plain_reply :: "int \<Rightarrow> string \<Rightarrow> HttpResponse" where
  "plain_reply code body =
     (set_header ''Content-Type'' ''text/plain'' (set_status code new_HttpResponse))\<lparr>rs_body := body\<rparr>"

definition dispatch :: "('h, 'k) Route list \<Rightarrow> HttpRequest \<Rightarrow> ('h, 'k) Dispatched" where
  "dispatch routes req =
     (case route_walk req False routes of
        (Some h, _) \<Rightarrow> Run h
      | (None, True) \<Rightarrow> Reply (plain_reply 405 ''Method Not Allowed'')
      | (None, False) \<Rightarrow> Reply (plain_reply 404 ''Not Found''))"

end
