(* ===== verification/Http_Parser.thy ===== *)
theory Http_Parser
  imports Http_Message Prelude
begin

section \<open>The incremental HTTP request parser (net/http\_parser.h, net/http\_parser.cc)\<close>

text \<open>
  The receive buffer appears as the bytes it still holds (\<open>Byte_Buffer\<close> proves that the buffer
  is that queue). Sizes are \<open>std::size_t\<close>: sums that may wrap are written modulo \<open>2 ^ 64\<close>.
  After an error the request of the parser is not meaningful; the model leaves it as it was.
\<close>

definition size_wrap :: "nat \<Rightarrow> nat" where
  "size_wrap n = n mod 2 ^ 64"

datatype HttpProgress = pIncomplete | pComplete | pError

datatype HttpState = sHead | sBodyLength | sBodyChunked | sComplete | sError

datatype ChunkPhase = cSize | cData | cDataCrlf | cTrailer

record HttpRequestParser =
  max_header_bytes :: nat
  max_body_bytes :: nat
  hp_state :: HttpState
  hp_request :: HttpRequest
  hp_error :: string
  body_remaining :: nat
  chunk_phase :: ChunkPhase
  chunk_remaining :: nat
  body_total :: nat

definition new_HttpRequestParser :: "nat \<Rightarrow> nat \<Rightarrow> HttpRequestParser" where
  "new_HttpRequestParser max_header max_body =
     \<lparr>max_header_bytes = max_header, max_body_bytes = max_body, hp_state = sHead, hp_request = new_HttpRequest,
      hp_error = '''', body_remaining = 0, chunk_phase = cSize, chunk_remaining = 0, body_total = 0\<rparr>"

definition parser_reset :: "HttpRequestParser \<Rightarrow> HttpRequestParser" where
  "parser_reset p = p\<lparr>hp_state := sHead, hp_request := new_HttpRequest, hp_error := '''', body_remaining := 0,
     chunk_phase := cSize, chunk_remaining := 0, body_total := 0\<rparr>"

definition parser_fail :: "string \<Rightarrow> HttpRequestParser \<Rightarrow> HttpRequestParser" where
  "parser_fail msg p = p\<lparr>hp_state := sError, hp_error := msg\<rparr>"

subsection \<open>Characters and fields\<close>

definition IsTokenChar :: "char \<Rightarrow> bool" where
  "IsTokenChar c \<longleftrightarrow>
     (let n = of_char c :: nat
      in 48 \<le> n \<and> n \<le> 57 \<or> 65 \<le> n \<and> n \<le> 90 \<or> 97 \<le> n \<and> n \<le> 122)
     \<or> c \<in> set [CHR 0x21, CHR 0x23, CHR 0x24, CHR 0x25, CHR 0x26, CHR 0x27, CHR 0x2A, CHR 0x2B, CHR 0x2D,
         CHR 0x2E, CHR 0x5E, CHR 0x5F, CHR 0x60, CHR 0x7C, CHR 0x7E]"

definition IsToken :: "bytes \<Rightarrow> bool" where
  "IsToken s \<longleftrightarrow> s \<noteq> [] \<and> list_all IsTokenChar s"

definition is_ctl :: "char \<Rightarrow> bool" where
  "is_ctl c \<longleftrightarrow> (of_char c :: nat) < 0x20 \<and> c \<noteq> CHR 0x09 \<or> c = CHR 0x7F"

definition HasCtl :: "bytes \<Rightarrow> bool" where
  "HasCtl s \<longleftrightarrow> list_ex is_ctl s"

definition is_ows :: "char \<Rightarrow> bool" where
  "is_ows c \<longleftrightarrow> c = CHR 0x20 \<or> c = CHR 0x09"

definition TrimOws :: "bytes \<Rightarrow> bytes" where
  "TrimOws s = rev (dropWhile is_ows (rev (dropWhile is_ows s)))"

definition hex_val :: "char \<Rightarrow> nat option" where
  "hex_val c =
     (let n = of_char c :: nat
      in if 48 \<le> n \<and> n \<le> 57 then Some (n - 48)
         else if 97 \<le> n \<and> n \<le> 102 then Some (10 + (n - 97))
         else if 65 \<le> n \<and> n \<le> 70 then Some (10 + (n - 65))
         else None)"

fun hex_digits :: "bytes \<Rightarrow> nat \<Rightarrow> nat \<Rightarrow> (nat \<times> nat) option" where
  "hex_digits [] val digits = Some (val, digits)"
| "hex_digits (c # s) val digits =
     (if c = CHR '';'' then Some (val, digits)
      else case hex_val c of
             None \<Rightarrow> None
           | Some d \<Rightarrow> hex_digits s (size_wrap (val * 16 + d)) (Suc digits))"

definition ParseHexSize :: "bytes \<Rightarrow> nat option" where
  "ParseHexSize s =
     (case hex_digits s 0 0 of None \<Rightarrow> None | Some (val, digits) \<Rightarrow> if digits = 0 then None else Some val)"

subsection \<open>The head of a request\<close>

definition parse_request_line :: "bytes \<Rightarrow> HttpRequest \<Rightarrow> string + HttpRequest" where
  "parse_request_line line req =
     (case find_char CHR '' '' line of
        None \<Rightarrow> Inl ''malformed request line''
      | Some sp1 \<Rightarrow>
          (let rest = drop (Suc sp1) line
           in case find_char CHR '' '' rest of
                None \<Rightarrow> Inl ''malformed request line''
              | Some sp2 \<Rightarrow>
                  (let meth = take sp1 line; target = take sp2 rest; version = drop (Suc sp2) rest
                   in if version \<noteq> ''HTTP/1.0'' \<and> version \<noteq> ''HTTP/1.1'' then Inl ''unsupported HTTP version''
                      else if meth = [] \<or> target = [] then Inl ''empty method or target''
                      else if \<not> IsToken meth then Inl ''invalid method''
                      else if HasCtl target then Inl ''control character in target''
                      else let req1 = req\<lparr>rq_method := meth, rq_target := target,
                                 http_minor := (if version = ''HTTP/1.0'' then 0 else 1)\<rparr>
                           in Inr (case find_char CHR ''?'' target of
                                     None \<Rightarrow> req1\<lparr>rq_path := target\<rparr>
                                   | Some q \<Rightarrow> req1\<lparr>rq_path := take q target, rq_query := drop (Suc q) target\<rparr>))))"

definition parse_header_line :: "bytes \<Rightarrow> string + HttpHeader option" where
  "parse_header_line line =
     (if line = [] then Inr None
      else if is_ows (hd line) then Inl ''obsolete header line folding''
      else case find_char CHR '':'' line of
             None \<Rightarrow> Inl ''malformed header line''
           | Some colon \<Rightarrow>
               (let name = take colon line; val = TrimOws (drop (Suc colon) line)
                in if \<not> IsToken name then Inl ''invalid header name''
                   else if HasCtl val then Inl ''control character in header value''
                   else Inr (Some \<lparr>hdr_name = name, hdr_value = val\<rparr>)))"

text \<open>The header lines after the request line, as the loop cuts them.\<close>

function split_crlf :: "bytes \<Rightarrow> bytes list" where
  "split_crlf s =
     (if s = [] then []
      else case find_str crlf s of None \<Rightarrow> [s] | Some n \<Rightarrow> take n s # split_crlf (drop (n + 2) s))"
  by auto
termination by (relation "measure length") auto

declare split_crlf.simps [simp del]

fun parse_header_lines :: "bytes list \<Rightarrow> HttpHeader list \<Rightarrow> string + HttpHeader list" where
  "parse_header_lines [] hs = Inr hs"
| "parse_header_lines (l # ls) hs =
     (case parse_header_line l of
        Inl err \<Rightarrow> Inl err
      | Inr None \<Rightarrow> parse_header_lines ls hs
      | Inr (Some h) \<Rightarrow> parse_header_lines ls (hs @ [h]))"

definition resolve_keep_alive :: "HttpRequest \<Rightarrow> HttpRequest" where
  "resolve_keep_alive req =
     (let k = (http_minor req = 1)
      in req\<lparr>keep_alive :=
           (case header ''Connection'' req of
              None \<Rightarrow> k
            | Some conn \<Rightarrow> if IEquals (TrimOws conn) ''close'' then False
                           else if IEquals (TrimOws conn) ''keep-alive'' then True else k)\<rparr>)"

fun scan_content_length :: "HttpHeader list \<Rightarrow> string option \<Rightarrow> string + string option" where
  "scan_content_length [] cl = Inr cl"
| "scan_content_length (h # hs) cl =
     (if \<not> IEquals (hdr_name h) ''Content-Length'' then scan_content_length hs cl
      else if (case cl of None \<Rightarrow> False | Some v \<Rightarrow> TrimOws (hdr_value h) \<noteq> TrimOws v)
      then Inl ''conflicting Content-Length''
      else scan_content_length hs (Some (hdr_value h)))"

fun parse_length :: "bytes \<Rightarrow> nat \<Rightarrow> string + nat" where
  "parse_length [] len = Inr len"
| "parse_length (c # s) len =
     (if \<not> is_digit c then Inl ''invalid Content-Length''
      else if len > (2 ^ 64 - 1 - 9) div 10 then Inl ''Content-Length overflow''
      else parse_length s (len * 10 + digit_val c))"

definition body_framing :: "HttpRequestParser \<Rightarrow> string + HttpRequestParser" where
  "body_framing p =
     (case scan_content_length (rq_headers (hp_request p)) None of
        Inl err \<Rightarrow> Inl err
      | Inr cl \<Rightarrow>
          (case (header ''Transfer-Encoding'' (hp_request p), cl) of
             (Some _, Some _) \<Rightarrow> Inl ''Content-Length with Transfer-Encoding''
           | (Some te, None) \<Rightarrow>
               if IEquals (TrimOws te) ''chunked'' then Inr (p\<lparr>hp_state := sBodyChunked, chunk_phase := cSize\<rparr>)
               else Inl ''unsupported Transfer-Encoding''
           | (None, Some v) \<Rightarrow>
               (case parse_length (TrimOws v) 0 of
                  Inl err \<Rightarrow> Inl err
                | Inr len \<Rightarrow>
                    if len > max_body_bytes p then Inl ''body exceeds limit''
                    else Inr (p\<lparr>body_remaining := len, hp_state := (if len = 0 then sComplete else sBodyLength)\<rparr>))
           | (None, None) \<Rightarrow> Inr (p\<lparr>hp_state := sComplete\<rparr>)))"

definition parse_head :: "bytes \<Rightarrow> HttpRequestParser \<Rightarrow> string + HttpRequestParser" where
  "parse_head block p =
     (let (request_line, rest) =
        (case find_str crlf block of None \<Rightarrow> (block, []) | Some n \<Rightarrow> (take n block, drop (n + 2) block))
      in case parse_request_line request_line (hp_request p) of
           Inl err \<Rightarrow> Inl err
         | Inr req \<Rightarrow>
             (case parse_header_lines (split_crlf rest) (rq_headers req) of
                Inl err \<Rightarrow> Inl err
              | Inr hs \<Rightarrow> body_framing (p\<lparr>hp_request := resolve_keep_alive (req\<lparr>rq_headers := hs\<rparr>)\<rparr>)))"

subsection \<open>Bodies and the parse loop\<close>

definition take_body :: "bytes \<Rightarrow> HttpRequestParser \<Rightarrow> HttpRequestParser" where
  "take_body s p = p\<lparr>hp_request := (hp_request p)\<lparr>rq_body := rq_body (hp_request p) @ s\<rparr>\<rparr>"

type_synonym parse_result = "HttpProgress \<times> HttpRequestParser \<times> bytes"

definition chunk_step :: "HttpRequestParser \<times> bytes \<Rightarrow> ((HttpRequestParser \<times> bytes) + parse_result) option" where
  "chunk_step = (\<lambda>(p, v).
     case chunk_phase p of
       cSize \<Rightarrow>
         (case find_str crlf v of
            None \<Rightarrow> if length v > 1024 then Some (Inr (pError, parser_fail ''chunk-size line too long'' p, v))
                    else Some (Inr (pIncomplete, p, v))
          | Some eol \<Rightarrow>
              (case ParseHexSize (take eol v) of
                 None \<Rightarrow> Some (Inr (pError, parser_fail ''invalid chunk size'' p, v))
               | Some n \<Rightarrow>
                   (let v1 = drop (eol + 2) v
                    in if n = 0 then Some (Inl (p\<lparr>chunk_phase := cTrailer\<rparr>, v1))
                       else let p1 = p\<lparr>body_total := size_wrap (body_total p + n)\<rparr>
                            in if body_total p1 > max_body_bytes p
                               then Some (Inr (pError, parser_fail ''body exceeds limit'' p1, v1))
                               else Some (Inl (p1\<lparr>chunk_remaining := n, chunk_phase := cData\<rparr>, v1)))))
     | cData \<Rightarrow>
         (let n = min (length v) (chunk_remaining p);
              p1 = (take_body (take n v) p)\<lparr>chunk_remaining := chunk_remaining p - n\<rparr>
          in if chunk_remaining p1 > 0 then Some (Inr (pIncomplete, p1, drop n v))
             else Some (Inl (p1\<lparr>chunk_phase := cDataCrlf\<rparr>, drop n v)))
     | cDataCrlf \<Rightarrow>
         (if length v < 2 then Some (Inr (pIncomplete, p, v))
          else if take 2 v \<noteq> crlf then Some (Inr (pError, parser_fail ''missing CRLF after chunk data'' p, v))
          else Some (Inl (p\<lparr>chunk_phase := cSize\<rparr>, drop 2 v)))
     | cTrailer \<Rightarrow>
         (case find_str crlf v of
            None \<Rightarrow> Some (Inr (pIncomplete, p, v))
          | Some eol \<Rightarrow>
              if eol = 0 then Some (Inr (pComplete, p\<lparr>hp_state := sComplete\<rparr>, drop 2 v))
              else Some (Inl (p, drop (eol + 2) v))))"

definition parse_chunked :: "HttpRequestParser \<Rightarrow> bytes \<Rightarrow> parse_result option" where
  "parse_chunked p v = iter chunk_step (p, v)"

definition parse_step :: "HttpRequestParser \<times> bytes \<Rightarrow> ((HttpRequestParser \<times> bytes) + parse_result) option" where
  "parse_step = (\<lambda>(p, v).
     case hp_state p of
       sHead \<Rightarrow>
         (case find_str (crlf @ crlf) v of
            None \<Rightarrow> if length v > max_header_bytes p then Some (Inr (pError, parser_fail ''header block too large'' p, v))
                    else Some (Inr (pIncomplete, p, v))
          | Some end_pos \<Rightarrow>
              if end_pos > max_header_bytes p then Some (Inr (pError, parser_fail ''header block too large'' p, v))
              else (case parse_head (take end_pos v) p of
                      Inl err \<Rightarrow> Some (Inr (pError, parser_fail err p, v))
                    | Inr p1 \<Rightarrow> Some (Inl (p1, drop (end_pos + 4) v))))
     | sBodyLength \<Rightarrow>
         (let n = min (length v) (body_remaining p);
              p1 = (take_body (take n v) p)\<lparr>body_remaining := body_remaining p - n\<rparr>
          in if body_remaining p1 > 0 then Some (Inr (pIncomplete, p1, drop n v))
             else Some (Inl (p1\<lparr>hp_state := sComplete\<rparr>, drop n v)))
     | sBodyChunked \<Rightarrow>
         Option.bind (parse_chunked p v) (\<lambda>(r, p1, v1).
           if r \<noteq> pComplete then Some (Inr (r, p1, v1)) else Some (Inl (p1, v1)))
     | sComplete \<Rightarrow> Some (Inr (pComplete, p, v))
     | sError \<Rightarrow> Some (Inr (pError, p, v)))"

definition http_parse :: "HttpRequestParser \<Rightarrow> bytes \<Rightarrow> parse_result option" where
  "http_parse p v = iter parse_step (p, v)"

subsection \<open>The parser always returns\<close>

lemma chunk_total: "\<exists>r. parse_chunked p v = Some r \<and> (fst r = pComplete \<longrightarrow> hp_state (fst (snd r)) = sComplete)"
  unfolding parse_chunked_def
proof (rule iter_total [where I = "\<lambda>_. True" and m = "\<lambda>(p, v). 2 * length v + (if chunk_phase p = cData then 1 else 0)"])
  fix s :: "HttpRequestParser \<times> bytes"
  obtain p v where s: "s = (p, v)" by (cases s)
  have short: "2 \<le> length v" if "find_str crlf v = Some n" for n
    using find_str_append [OF that, of "[]"] by (simp add: crlf_def)
  show "(\<exists>s'. chunk_step s = Some (Inl s') \<and> True
      \<and> (case s' of (p, v) \<Rightarrow> 2 * length v + (if chunk_phase p = cData then 1 else 0))
        < (case s of (p, v) \<Rightarrow> 2 * length v + (if chunk_phase p = cData then 1 else 0)))
    \<or> (\<exists>r. chunk_step s = Some (Inr r) \<and> (fst r = pComplete \<longrightarrow> hp_state (fst (snd r)) = sComplete))"
    using short
    by (cases "chunk_phase p")
      (auto simp: chunk_step_def s Let_def take_body_def crlf_def split: option.splits)
qed simp

lemma body_framing_state: "body_framing p = Inr p' \<Longrightarrow> hp_state p' \<noteq> sHead"
  by (auto simp: body_framing_def split: sum.splits option.splits if_splits)

lemma parse_head_state: "parse_head block p = Inr p' \<Longrightarrow> hp_state p' \<noteq> sHead"
  by (auto simp: parse_head_def split: sum.splits option.splits prod.splits dest: body_framing_state)

fun state_rank :: "HttpState \<Rightarrow> nat" where
  "state_rank sHead = 2"
| "state_rank sBodyLength = 1"
| "state_rank sBodyChunked = 1"
| "state_rank sComplete = 0"
| "state_rank sError = 0"

lemma state_rank_less: "s \<noteq> sHead \<Longrightarrow> state_rank s < 2"
  by (cases s) simp_all

lemma http_parse_total: "\<exists>r. http_parse p v = Some r"
proof -
  have "\<exists>r. iter parse_step (p, v) = Some r \<and> True"
  proof (rule iter_total [where I = "\<lambda>_. True" and m = "\<lambda>s. state_rank (hp_state (fst s))"])
    fix s :: "HttpRequestParser \<times> bytes"
    obtain p v where s: "s = (p, v)" by (cases s)
    obtain r p1 v1 where c: "parse_chunked p v = Some (r, p1, v1)" "r = pComplete \<longrightarrow> hp_state p1 = sComplete"
      using chunk_total [of p v] by auto
    show "(\<exists>s'. parse_step s = Some (Inl s') \<and> True \<and> state_rank (hp_state (fst s')) < state_rank (hp_state (fst s)))
      \<or> (\<exists>r. parse_step s = Some (Inr r) \<and> True)"
      using c by (cases "hp_state p")
        (auto simp: parse_step_def s Let_def split: option.splits sum.splits dest: parse_head_state intro: state_rank_less)
  qed simp
  then show ?thesis by (simp add: http_parse_def)
qed

subsection \<open>Parsing is incremental\<close>

text \<open>What a later read adds does not change what was parsed before it: a parser that asked for more
  resumes where the whole input would have led it, and a completed request stays as it is.\<close>

lemma iter_step_cong: "f s = f s' \<Longrightarrow> iter f s = iter f s'"
  by (subst (1 2) iter.simps) simp

lemma min_shift: "a < c \<Longrightarrow> min (a + b) c = a + min b (c - a)" for a b c :: nat
  by simp

definition resumes :: "(HttpRequestParser \<Rightarrow> bytes \<Rightarrow> parse_result option) \<Rightarrow> bytes \<Rightarrow> parse_result option \<Rightarrow> parse_result \<Rightarrow> bool" where
  "resumes f w whole r \<longleftrightarrow>
     (fst r = pIncomplete \<longrightarrow> whole = f (fst (snd r)) (snd (snd r) @ w))
     \<and> (fst r = pComplete \<longrightarrow> whole = Some (pComplete, fst (snd r), snd (snd r) @ w))"

lemma chunk_continue: "chunk_step (p, v) = Some (Inl (p', v')) \<Longrightarrow> chunk_step (p, v @ w) = Some (Inl (p', v' @ w))"
  using find_str_append [of crlf v _ w]
  by (cases "chunk_phase p") (auto simp: chunk_step_def Let_def crlf_def split: option.splits if_splits)

lemma chunk_stop_cases:
  assumes "chunk_step (p, v) = Some (Inr r)" "chunk_phase p \<noteq> cData"
  shows "(fst r = pIncomplete \<longrightarrow> r = (pIncomplete, p, v))
    \<and> (fst r = pComplete \<longrightarrow> chunk_step (p, v @ w) = Some (Inr (pComplete, fst (snd r), snd (snd r) @ w)))"
  using assms find_str_append [of crlf v _ w]
  by (cases "chunk_phase p") (auto simp: chunk_step_def Let_def crlf_def split: option.splits if_splits)

lemma chunk_stop:
  assumes "chunk_step (p, v) = Some (Inr r)"
  shows "resumes parse_chunked w (parse_chunked p (v @ w)) r"
proof (cases "chunk_phase p")
  case cData
  with assms have short: "length v < chunk_remaining p"
    and r: "r = (pIncomplete, (take_body v p)\<lparr>chunk_remaining := chunk_remaining p - length v\<rparr>, [])"
    by (auto simp: chunk_step_def Let_def split: if_splits)
  have "chunk_step (p, v @ w) = chunk_step ((take_body v p)\<lparr>chunk_remaining := chunk_remaining p - length v\<rparr>, w)"
    using short cData min_shift [of "length v" "chunk_remaining p" "length w"]
    by (simp add: chunk_step_def Let_def take_body_def)
  from iter_step_cong [of chunk_step, OF this] show ?thesis unfolding r resumes_def parse_chunked_def by simp
qed (use chunk_stop_cases [OF assms, of w] in \<open>auto simp: resumes_def parse_chunked_def\<close>)

lemma chunk_resumes:
  assumes "parse_chunked p v = Some r"
  shows "resumes parse_chunked w (parse_chunked p (v @ w)) r"
  using assms unfolding parse_chunked_def [of p v]
proof (rule iter_partial [where I = "\<lambda>(p', v'). parse_chunked p (v @ w) = parse_chunked p' (v' @ w)"])
  fix s s' assume I: "case s of (p', v') \<Rightarrow> parse_chunked p (v @ w) = parse_chunked p' (v' @ w)" and "chunk_step s = Some (Inl s')"
  then show "case s' of (p', v') \<Rightarrow> parse_chunked p (v @ w) = parse_chunked p' (v' @ w)"
    using chunk_continue [of "fst s" "snd s" "fst s'" "snd s'" w] by (auto simp: parse_chunked_def split: prod.splits)
next
  fix s r assume "case s of (p', v') \<Rightarrow> parse_chunked p (v @ w) = parse_chunked p' (v' @ w)" "chunk_step s = Some (Inr r)"
  then show "resumes parse_chunked w (parse_chunked p (v @ w)) r"
    using chunk_stop [of "fst s" "snd s" r w] by (auto split: prod.splits)
qed simp

lemma chunk_keeps_state:
  assumes "parse_chunked p v = Some r" "fst r = pIncomplete"
  shows "hp_state (fst (snd r)) = hp_state p"
proof -
  have "fst r = pIncomplete \<longrightarrow> hp_state (fst (snd r)) = hp_state p"
    using assms(1) unfolding parse_chunked_def
    by (rule iter_partial [where I = "\<lambda>s. hp_state (fst s) = hp_state p"])
      (auto simp: chunk_step_def Let_def take_body_def split: ChunkPhase.splits option.splits if_splits)
  with assms(2) show ?thesis by blast
qed

lemma parse_continue:
  assumes "parse_step (p, v) = Some (Inl (p', v'))"
  shows "parse_step (p, v @ w) = Some (Inl (p', v' @ w))"
proof (cases "hp_state p")
  case sBodyChunked
  with assms have "parse_chunked p v = Some (pComplete, p', v')"
    by (auto simp: parse_step_def bind_eq_Some_conv split: if_splits)
  from chunk_resumes [OF this, of w] sBodyChunked show ?thesis by (simp add: parse_step_def resumes_def)
qed (use assms find_str_append [of "crlf @ crlf" v _ w] in
  \<open>auto simp: parse_step_def Let_def crlf_def split: option.splits sum.splits if_splits\<close>)

lemma parse_stop:
  assumes "parse_step (p, v) = Some (Inr r)"
  shows "resumes http_parse w (http_parse p (v @ w)) r"
proof (cases "hp_state p")
  case sHead
  with assms show ?thesis by (auto simp: parse_step_def resumes_def split: option.splits sum.splits if_splits)
next
  case sBodyLength
  with assms have short: "length v < body_remaining p"
    and r: "r = (pIncomplete, (take_body v p)\<lparr>body_remaining := body_remaining p - length v\<rparr>, [])"
    by (auto simp: parse_step_def Let_def split: if_splits)
  have "parse_step (p, v @ w) = parse_step ((take_body v p)\<lparr>body_remaining := body_remaining p - length v\<rparr>, w)"
    using short sBodyLength min_shift [of "length v" "body_remaining p" "length w"]
    by (simp add: parse_step_def Let_def take_body_def)
  from iter_step_cong [of parse_step, OF this] show ?thesis unfolding r resumes_def http_parse_def by simp
next
  case sBodyChunked
  with assms have c: "parse_chunked p v = Some r" "fst r \<noteq> pComplete"
    by (auto simp: parse_step_def bind_eq_Some_conv split: if_splits)
  show ?thesis
  proof (cases "fst r = pIncomplete")
    case True
    let ?p = "fst (snd r)" and ?v = "snd (snd r)"
    have "parse_chunked p (v @ w) = parse_chunked ?p (?v @ w)" "hp_state ?p = sBodyChunked"
      using chunk_resumes [OF c(1), of w] chunk_keeps_state [OF c(1) True] True sBodyChunked by (simp_all add: resumes_def)
    then have "parse_step (p, v @ w) = parse_step (?p, ?v @ w)" using sBodyChunked by (simp add: parse_step_def)
    from iter_step_cong [of parse_step, OF this] True show ?thesis unfolding resumes_def http_parse_def by simp
  qed (use c in \<open>simp add: resumes_def\<close>)
next
  case sComplete
  then have "r = (pComplete, p, v)" "parse_step (p, v @ w) = Some (Inr (pComplete, p, v @ w))"
    using assms by (auto simp: parse_step_def)
  then show ?thesis by (simp add: resumes_def http_parse_def)
next
  case sError
  with assms show ?thesis by (auto simp: parse_step_def resumes_def)
qed

lemma parse_resumes:
  assumes "http_parse p v = Some r"
  shows "resumes http_parse w (http_parse p (v @ w)) r"
  using assms unfolding http_parse_def [of p v]
proof (rule iter_partial [where I = "\<lambda>(p', v'). http_parse p (v @ w) = http_parse p' (v' @ w)"])
  fix s s' assume I: "case s of (p', v') \<Rightarrow> http_parse p (v @ w) = http_parse p' (v' @ w)" and "parse_step s = Some (Inl s')"
  then show "case s' of (p', v') \<Rightarrow> http_parse p (v @ w) = http_parse p' (v' @ w)"
    using parse_continue [of "fst s" "snd s" "fst s'" "snd s'" w] by (auto simp: http_parse_def split: prod.splits)
next
  fix s r assume "case s of (p', v') \<Rightarrow> http_parse p (v @ w) = http_parse p' (v' @ w)" "parse_step s = Some (Inr r)"
  then show "resumes http_parse w (http_parse p (v @ w)) r"
    using parse_stop [of "fst s" "snd s" r w] by (auto split: prod.splits)
qed simp

text \<open>A connection that reads the request in pieces, parsing after each read.\<close>

fun http_feed :: "HttpRequestParser \<Rightarrow> bytes \<Rightarrow> bytes list \<Rightarrow> parse_result option" where
  "http_feed p v [] = Some (pIncomplete, p, v)"
| "http_feed p v (c # cs) = do {
     (r, p1, v1) \<leftarrow> http_parse p (v @ c);
     if r = pIncomplete then http_feed p1 v1 cs else Some (r, p1, v1 @ concat cs)
   }"

lemma http_feed_whole:
  assumes "http_feed p v cs = Some r" "fst r \<noteq> pError" "cs \<noteq> []"
  shows "http_parse p (v @ concat cs) = Some r"
  using assms
proof (induction cs arbitrary: p v)
  case (Cons c cs)
  obtain r1 p1 v1 where h: "http_parse p (v @ c) = Some (r1, p1, v1)" using http_parse_total [of p "v @ c"] by auto
  note R = parse_resumes [OF h, of "concat cs"]
  show ?case
  proof (cases "r1 = pIncomplete")
    case True
    then have next_read: "http_feed p1 v1 cs = Some r" using Cons.prems(1) h by simp
    have "http_parse p (v @ concat (c # cs)) = http_parse p1 (v1 @ concat cs)" using R True by (simp add: resumes_def)
    moreover have "http_parse p1 (v1 @ concat cs) = Some r"
    proof (cases "cs = []")
      case True
      with next_read h R \<open>r1 = pIncomplete\<close> show ?thesis by (auto simp: resumes_def)
    qed (use Cons.IH [OF next_read Cons.prems(2)] in simp)
    ultimately show ?thesis by simp
  next
    case False
    then have "r = (r1, p1, v1 @ concat cs)" "r1 = pComplete" using Cons.prems h by (cases r1; auto)+
    with R show ?thesis by (simp add: resumes_def)
  qed
qed simp

subsection \<open>What an accepted head guarantees\<close>

lemma parse_header_lines_ok:
  assumes "parse_header_lines ls hs = Inr hs'" "list_all (\<lambda>h. IsToken (hdr_name h) \<and> \<not> HasCtl (hdr_value h)) hs"
  shows "list_all (\<lambda>h. IsToken (hdr_name h) \<and> \<not> HasCtl (hdr_value h)) hs'"
  using assms
  by (induction ls hs rule: parse_header_lines.induct)
    (auto simp: parse_header_line_def Let_def split: if_splits sum.splits option.splits)

lemma scan_content_length_ok:
  assumes "scan_content_length hs cl = Inr cl'"
  shows "(cl' = None \<longleftrightarrow> cl = None \<and> list_all (\<lambda>h. \<not> IEquals (hdr_name h) ''Content-Length'') hs)
    \<and> (\<forall>h \<in> set hs. IEquals (hdr_name h) ''Content-Length'' \<longrightarrow> map_option TrimOws cl' = Some (TrimOws (hdr_value h)))
    \<and> (cl \<noteq> None \<longrightarrow> map_option TrimOws cl' = map_option TrimOws cl)"
  using assms
  by (induction hs cl rule: scan_content_length.induct) (auto split: if_splits option.splits)

lemma parse_length_ok:
  assumes "parse_length s acc = Inr n"
  shows "n = foldl (\<lambda>v c. v * 10 + digit_val c) acc s \<and> list_all is_digit s"
  using assms by (induction s acc rule: parse_length.induct) (auto split: if_splits)

lemma find_header_None: "find_header name hs = None \<longleftrightarrow> list_all (\<lambda>h. \<not> IEquals (hdr_name h) name) hs"
  by (induction hs) auto

definition framed :: "HttpRequestParser \<Rightarrow> bool" where
  "framed p \<longleftrightarrow>
     (let hs = rq_headers (hp_request p); lengths = filter (\<lambda>h. IEquals (hdr_name h) ''Content-Length'') hs
      in (\<forall>h \<in> set lengths. \<forall>h' \<in> set lengths. TrimOws (hdr_value h) = TrimOws (hdr_value h'))
         \<and> (lengths = [] \<or> list_all (\<lambda>h. \<not> IEquals (hdr_name h) ''Transfer-Encoding'') hs)
         \<and> (case hp_state p of
              sBodyLength \<Rightarrow> lengths \<noteq> [] \<and> list_all is_digit (TrimOws (hdr_value (hd lengths)))
                \<and> body_remaining p = of_decimal (TrimOws (hdr_value (hd lengths))) \<and> 0 < body_remaining p \<and> body_remaining p \<le> max_body_bytes p
            | sBodyChunked \<Rightarrow> (\<exists>te. header ''Transfer-Encoding'' (hp_request p) = Some te \<and> IEquals (TrimOws te) ''chunked'')
            | sComplete \<Rightarrow> list_all (\<lambda>h. of_decimal (TrimOws (hdr_value h)) = 0) lengths
                \<and> list_all (\<lambda>h. \<not> IEquals (hdr_name h) ''Transfer-Encoding'') hs
            | _ \<Rightarrow> False))"

lemma body_framing_framed:
  assumes "body_framing p = Inr p'"
  shows "framed p' \<and> hp_request p' = hp_request p"
proof -
  let ?hs = "rq_headers (hp_request p)" and ?ls = "filter (\<lambda>h. IEquals (hdr_name h) ''Content-Length'') (rq_headers (hp_request p))"
  from assms obtain cl where cl: "scan_content_length ?hs None = Inr cl" by (auto simp: body_framing_def split: sum.splits)
  note S = scan_content_length_ok [OF cl]
  show ?thesis
  proof (cases cl)
    case None
    then have "?ls = []" using S by (auto simp: list_all_iff filter_empty_conv)
    with None assms cl show ?thesis
      by (auto simp: body_framing_def framed_def Let_def header_def find_header_None split: option.splits if_splits
          simp del: set_filter)
  next
    case (Some v)
    then have v: "?ls \<noteq> []" "\<forall>h \<in> set ?ls. TrimOws (hdr_value h) = TrimOws v" using S by (auto simp: list_all_iff filter_empty_conv)
    then have hd: "TrimOws (hdr_value (hd ?ls)) = TrimOws v" by (meson hd_in_set)
    from assms cl Some have te: "header ''Transfer-Encoding'' (hp_request p) = None"
      by (auto simp: body_framing_def split: option.splits)
    from assms cl Some te obtain n where n: "parse_length (TrimOws v) 0 = Inr n" "n \<le> max_body_bytes p"
      "p' = p\<lparr>body_remaining := n, hp_state := (if n = 0 then sComplete else sBodyLength)\<rparr>"
      by (auto simp: body_framing_def split: sum.splits if_splits)
    have "n = of_decimal (TrimOws v)" "list_all is_digit (TrimOws v)" using parse_length_ok [OF n(1)] by (simp_all add: of_decimal_def)
    then show ?thesis using n v hd te by (auto simp: framed_def Let_def header_def find_header_None list_all_iff simp del: set_filter)
  qed
qed

subsection \<open>Requests as a client writes them\<close>

definition raw_header :: "HttpHeader \<Rightarrow> bytes" where
  "raw_header h = hdr_name h @ CHR '':'' # CHR '' '' # hdr_value h"

fun join_crlf :: "bytes list \<Rightarrow> bytes" where
  "join_crlf [] = []"
| "join_crlf [l] = l"
| "join_crlf (l # ls) = l @ crlf @ join_crlf ls"

definition request_lines :: "string \<Rightarrow> string \<Rightarrow> HttpHeader list \<Rightarrow> bytes list" where
  "request_lines meth target hs = (meth @ CHR '' '' # target @ CHR '' '' # ''HTTP/1.1'') # map raw_header hs"

definition length_header :: "bytes \<Rightarrow> HttpHeader" where
  "length_header body = \<lparr>hdr_name = ''Content-Length'', hdr_value = decimal (length body)\<rparr>"

definition render_request :: "string \<Rightarrow> string \<Rightarrow> HttpHeader list \<Rightarrow> bytes \<Rightarrow> bytes" where
  "render_request meth target hs body = join_crlf (request_lines meth target (hs @ [length_header body])) @ crlf @ crlf @ body"

definition clean_header :: "HttpHeader \<Rightarrow> bool" where
  "clean_header h \<longleftrightarrow> IsToken (hdr_name h) \<and> \<not> HasCtl (hdr_value h) \<and> TrimOws (hdr_value h) = hdr_value h"

definition other_header :: "HttpHeader \<Rightarrow> bool" where
  "other_header h \<longleftrightarrow> \<not> IEquals (hdr_name h) ''Content-Length'' \<and> \<not> IEquals (hdr_name h) ''Transfer-Encoding''"

definition clean_target :: "bytes \<Rightarrow> bool" where
  "clean_target t \<longleftrightarrow> t \<noteq> [] \<and> \<not> HasCtl t \<and> CHR '' '' \<notin> set t"

lemma find_char_skip: "c \<notin> set l \<Longrightarrow> find_char c (l @ c # s) = Some (length l)"
  by (induction l) auto

lemma find_crlf_skip: "CHR 0x0D \<notin> set l \<Longrightarrow> find_str crlf (l @ crlf @ s) = Some (length l)" "CHR 0x0D \<notin> set l \<Longrightarrow> find_str crlf l = None"
  by (induction l) (auto simp: crlf_def)

lemma find_end_line:
  "CHR 0x0D \<notin> set l \<Longrightarrow> take 2 s \<noteq> crlf \<Longrightarrow>
   find_str (crlf @ crlf) (l @ crlf @ s) = map_option (\<lambda>n. length l + 2 + n) (find_str (crlf @ crlf) s)"
proof (induction l)
  case Nil
  then show ?case by (cases "find_str (crlf @ crlf) s") (auto simp: crlf_def numeral_2_eq_2)
next
  case (Cons c l)
  then show ?case by (cases "find_str (crlf @ crlf) s") (auto simp: crlf_def)
qed

lemma find_end_last: "CHR 0x0D \<notin> set l \<Longrightarrow> find_str (crlf @ crlf) (l @ crlf @ crlf @ s) = Some (length l)"
  by (induction l) (auto simp: crlf_def)

definition line_ok :: "bytes \<Rightarrow> bool" where
  "line_ok l \<longleftrightarrow> l \<noteq> [] \<and> CHR 0x0D \<notin> set l"

lemma join_crlf_head:
  assumes "ls \<noteq> []" "list_all line_ok ls"
  shows "find_str (crlf @ crlf) (join_crlf ls @ crlf @ crlf @ s) = Some (length (join_crlf ls)) \<and> take 2 (join_crlf ls @ t) \<noteq> crlf"
  using assms
proof (induction ls arbitrary: t rule: join_crlf.induct)
  case (2 l)
  then show ?case using find_end_last [of l s] by (cases l) (auto simp: line_ok_def crlf_def)
next
  case (3 l m ls)
  have "m # ls \<noteq> []" "list_all line_ok (m # ls)" using 3(3) by simp_all
  note IH = 3(1) [OF this, THEN conjunct1] 3(1) [OF this, THEN conjunct2, of "crlf @ crlf @ s"]
  have l: "CHR 0x0D \<notin> set l" "l \<noteq> []" using 3(3) by (simp_all add: line_ok_def)
  have "find_str (crlf @ crlf) (join_crlf (l # m # ls) @ crlf @ crlf @ s) = Some (length (join_crlf (l # m # ls)))"
    using find_end_line [OF l(1) IH(2)] IH(1) by (simp add: crlf_def)
  moreover have "take 2 (join_crlf (l # m # ls) @ t) \<noteq> crlf" using l by (cases l) (auto simp: crlf_def)
  ultimately show ?case by blast
qed simp

lemma split_join: "list_all line_ok ls \<Longrightarrow> split_crlf (join_crlf ls) = ls"
proof (induction ls rule: join_crlf.induct)
  case 1
  show ?case by (simp add: split_crlf.simps)
next
  case (2 l)
  then show ?case by (simp add: split_crlf.simps line_ok_def find_crlf_skip(2))
next
  case (3 l m ls)
  then have l: "CHR 0x0D \<notin> set l" by (simp add: line_ok_def)
  have "split_crlf (join_crlf (l # m # ls)) = l # split_crlf (join_crlf (m # ls))"
    by (subst split_crlf.simps) (simp add: find_crlf_skip(1) [OF l], simp add: crlf_def)
  with 3 show ?case by simp
qed

lemma join_crlf_first:
  assumes "line_ok l" "ls \<noteq> []"
  shows "find_str crlf (join_crlf (l # ls)) = Some (length l) \<and> take (length l) (join_crlf (l # ls)) = l
    \<and> drop (length l + 2) (join_crlf (l # ls)) = join_crlf ls"
proof -
  have j: "join_crlf (l # ls) = l @ crlf @ join_crlf ls" using assms(2) by (cases ls) simp_all
  show ?thesis unfolding j using find_crlf_skip(1) [of l "join_crlf ls"] assms(1) by (simp add: line_ok_def) (simp add: crlf_def)
qed

lemma token_clean: "IsToken s \<Longrightarrow> CHR 0x0D \<notin> set s \<and> CHR '' '' \<notin> set s \<and> CHR '':'' \<notin> set s \<and> CHR 0x09 \<notin> set s \<and> s \<noteq> []"
  by (auto simp: IsToken_def list_all_iff IsTokenChar_def)

lemma no_ctl_clean: "\<not> HasCtl s \<Longrightarrow> CHR 0x0D \<notin> set s"
proof -
  have "is_ctl CHR 0x0D" by (simp add: is_ctl_def)
  then show "\<not> HasCtl s \<Longrightarrow> CHR 0x0D \<notin> set s" unfolding HasCtl_def list_ex_iff by blast
qed

lemma parse_clean_header: "clean_header h \<Longrightarrow> parse_header_line (raw_header h) = Inr (Some h)"
proof -
  assume c: "clean_header h"
  then obtain c0 n where n: "hdr_name h = c0 # n" by (cases "hdr_name h") (auto simp: clean_header_def IsToken_def)
  have t: "IsToken (hdr_name h)" using c by (simp add: clean_header_def)
  have "TrimOws (CHR '' '' # hdr_value h) = hdr_value h" using c by (simp add: clean_header_def TrimOws_def is_ows_def)
  then show ?thesis using c n token_clean [OF t] find_char_skip [of "CHR '':''" "hdr_name h"]
    by (auto simp: parse_header_line_def raw_header_def is_ows_def clean_header_def)
qed

lemma parse_clean_headers: "list_all clean_header hs \<Longrightarrow> parse_header_lines (map raw_header hs) acc = Inr (acc @ hs)"
  by (induction hs arbitrary: acc) (simp_all add: parse_clean_header)

lemma parse_clean_line:
  assumes "IsToken meth" "clean_target t"
  shows "\<exists>req'. parse_request_line (meth @ CHR '' '' # t @ CHR '' '' # ''HTTP/1.1'') req = Inr req'
    \<and> rq_method req' = meth \<and> rq_target req' = t \<and> http_minor req' = 1 \<and> rq_headers req' = rq_headers req \<and> rq_body req' = rq_body req"
  using assms token_clean [OF assms(1)] find_char_skip [of "CHR '' ''" meth "t @ CHR '' '' # ''HTTP/1.1''"]
    find_char_skip [of "CHR '' ''" t "''HTTP/1.1''"]
  by (auto simp: parse_request_line_def Let_def clean_target_def split: option.splits)

lemma scan_none: "list_all other_header hs \<Longrightarrow> scan_content_length (hs @ hs') cl = scan_content_length hs' cl"
  by (induction hs) (simp_all add: other_header_def)

lemma parse_length_value:
  assumes "list_all is_digit s" "foldl (\<lambda>v c. v * 10 + digit_val c) acc s \<le> 2 ^ 64 - 10"
  shows "parse_length s acc = Inr (foldl (\<lambda>v c. v * 10 + digit_val c) acc s)"
  using assms
proof (induction s arbitrary: acc)
  case (Cons c s)
  have "acc * 10 \<le> 2 ^ 64 - 10" using Cons.prems(2) decimal_grows [of "acc * 10 + digit_val c" s] by simp
  then have "\<not> acc > (2 ^ 64 - 1 - 9) div 10" by simp
  with Cons show ?case by simp
qed simp

lemma TrimOws_digits: "list_all is_digit s \<Longrightarrow> TrimOws s = s"
proof -
  assume d: "list_all is_digit s"
  have no: "\<not> is_ows c" if "is_digit c" for c using that by (auto simp: is_digit_def is_ows_def)
  have drop: "dropWhile is_ows t = t" if "list_all is_digit t" for t using that no by (cases t) auto
  show ?thesis using drop [OF d] drop [of "rev s"] d by (simp add: TrimOws_def)
qed

lemma digit_not_ctl: "is_digit c \<Longrightarrow> \<not> is_ctl c"
  by (auto simp: is_digit_def is_ctl_def)

lemma length_header_clean: "clean_header (length_header body)"
proof -
  have "\<not> HasCtl (decimal (length body))"
    using decimal_digits(2) [of "length body"] digit_not_ctl by (auto simp: HasCtl_def list_ex_iff list_all_iff)
  then show ?thesis using TrimOws_digits [OF decimal_digits(2)]
    by (simp add: clean_header_def length_header_def IsToken_def IsTokenChar_def)
qed

lemma header_line_ok: "clean_header h \<Longrightarrow> line_ok (raw_header h)"
  using token_clean [of "hdr_name h"] no_ctl_clean [of "hdr_value h"] by (auto simp: clean_header_def line_ok_def raw_header_def)

lemma parse_head_rendered:
  assumes clean: "IsToken meth" "clean_target target" "list_all clean_header hs" "list_all other_header hs"
    and fits: "length body \<le> mxb" "mxb \<le> 2 ^ 64 - 10"
  defines "ls \<equiv> request_lines meth target (hs @ [length_header body])"
  shows "list_all line_ok ls \<and> (\<exists>p1. parse_head (join_crlf ls) (new_HttpRequestParser mxh mxb) = Inr p1
    \<and> body_remaining p1 = length body \<and> hp_state p1 = (if length body = 0 then sComplete else sBodyLength)
    \<and> rq_method (hp_request p1) = meth \<and> rq_target (hp_request p1) = target
    \<and> rq_headers (hp_request p1) = hs @ [length_header body] \<and> rq_body (hp_request p1) = [])"
proof -
  let ?p = "new_HttpRequestParser mxh mxb" and ?hs = "hs @ [length_header body]"
  have all: "list_all clean_header ?hs" using clean(3) length_header_clean by simp
  have first: "line_ok (hd ls)"
    using token_clean [OF clean(1)] clean(2) no_ctl_clean [of target] by (auto simp: ls_def request_lines_def line_ok_def clean_target_def)
  then have ls: "ls \<noteq> []" "list_all line_ok ls" using all header_line_ok by (auto simp: ls_def request_lines_def list_all_iff)
  have block: "find_str crlf (join_crlf ls) = Some (length (hd ls)) \<and> take (length (hd ls)) (join_crlf ls) = hd ls
      \<and> drop (length (hd ls) + 2) (join_crlf ls) = join_crlf (map raw_header ?hs)"
    using join_crlf_first [OF first, of "map raw_header ?hs"] by (simp add: ls_def request_lines_def)
  obtain req where req: "parse_request_line (hd ls) (hp_request ?p) = Inr req" "rq_method req = meth" "rq_target req = target"
    "rq_headers req = []" "rq_body req = []"
    using parse_clean_line [OF clean(1,2), of "hp_request ?p"]
    by (auto simp: ls_def request_lines_def new_HttpRequestParser_def new_HttpRequest_def)
  let ?q = "?p\<lparr>hp_request := resolve_keep_alive (req\<lparr>rq_headers := ?hs\<rparr>)\<rparr>"
  have hs: "parse_header_lines (split_crlf (join_crlf (map raw_header ?hs))) (rq_headers req) = Inr ?hs"
    using split_join [of "map raw_header ?hs"] ls(2) parse_clean_headers [OF all, of "[]"] req(4) by (simp add: ls_def request_lines_def)
  have te: "header ''Transfer-Encoding'' (hp_request ?q) = None"
    using clean(4) by (auto simp: header_def find_header_None resolve_keep_alive_def Let_def list_all_iff other_header_def length_header_def IEquals_def)
  have "scan_content_length (rq_headers (hp_request ?q)) None = Inr (Some (decimal (length body)))"
    by (simp add: resolve_keep_alive_def Let_def scan_none [OF clean(4)]) (simp add: length_header_def IEquals_def)
  moreover have "parse_length (TrimOws (decimal (length body))) 0 = Inr (length body)"
    using parse_length_value [OF decimal_digits(2) [of "length body"], of 0] of_decimal_decimal [of "length body"] fits
    by (simp add: TrimOws_digits [OF decimal_digits(2)] of_decimal_def)
  ultimately have fr: "body_framing ?q = Inr (?q\<lparr>body_remaining := length body, hp_state := (if length body = 0 then sComplete else sBodyLength)\<rparr>)"
    using te fits(1) by (simp add: body_framing_def new_HttpRequestParser_def)
  define p1 where "p1 = ?q\<lparr>body_remaining := length body, hp_state := (if length body = 0 then sComplete else sBodyLength)\<rparr>"
  have "parse_head (join_crlf ls) ?p = Inr p1" unfolding parse_head_def using block req(1) hs fr by (simp add: p1_def)
  moreover have "rq_body (hp_request p1) = []" "rq_method (hp_request p1) = meth" "rq_target (hp_request p1) = target"
    "rq_headers (hp_request p1) = ?hs"
    using req by (simp_all add: p1_def resolve_keep_alive_def Let_def)
  ultimately show ?thesis using ls(2) by (auto simp: p1_def)
qed

subsection \<open>Properties\<close>

text \<open>C34. Fragmentation cannot change what is parsed: however a byte stream is cut into reads, if the
  parser does not reject it, the verdict, the parser (with the request in it) and the bytes left over
  for the next request are those of parsing the whole stream at once. The parser returns on every input.\<close>

theorem http_fragmentation:
  assumes "http_feed p [] chunks = Some r" "fst r \<noteq> pError" "chunks \<noteq> []"
  shows "http_parse p (concat chunks) = Some r \<and> (\<forall>q v. \<exists>r'. http_parse q v = Some r')"
  using http_feed_whole [OF assms] http_parse_total by simp

definition sample_parser :: HttpRequestParser where
  "sample_parser = new_HttpRequestParser 100 50"

definition sample_request :: bytes where
  "sample_request = ''GET /a?b HTTP/1.1'' @ crlf @ ''Host: h'' @ crlf @ crlf @ ''GET''"

theorem http_fragmentation_witness:
  "map_option fst (http_parse sample_parser (concat [take 9 sample_request, drop 9 sample_request])) = Some pComplete
   \<and> map_option (\<lambda>r. snd (snd r)) (http_parse sample_parser (concat [take 9 sample_request, drop 9 sample_request])) = Some ''GET''"
proof -
  have "map_option (\<lambda>r. (fst r, snd (snd r))) (http_feed sample_parser [] [take 9 sample_request, drop 9 sample_request]) = Some (pComplete, ''GET'')"
    by code_simp
  then obtain r where r: "http_feed sample_parser [] [take 9 sample_request, drop 9 sample_request] = Some r"
    "fst r = pComplete" "snd (snd r) = ''GET''" by auto
  then show ?thesis using http_fragmentation [OF r(1)] by simp
qed

text \<open>C36. A head the parser accepts is unambiguous: the method is a token and the target free of control
  bytes, so are the names and values of all headers, all Content-Length headers agree, none comes
  together with Transfer-Encoding, and the body that follows has the announced length, within the
  limit, or is chunked.\<close>

theorem http_head_unambiguous:
  assumes "parse_head block p = Inr p'" "rq_headers (hp_request p) = []"
  shows "framed p' \<and> IsToken (rq_method (hp_request p')) \<and> \<not> HasCtl (rq_target (hp_request p'))
    \<and> list_all (\<lambda>h. IsToken (hdr_name h) \<and> \<not> HasCtl (hdr_value h)) (rq_headers (hp_request p'))"
proof -
  let ?line = "fst (case find_str crlf block of None \<Rightarrow> (block, []) | Some n \<Rightarrow> (take n block, drop (n + 2) block))"
  let ?rest = "snd (case find_str crlf block of None \<Rightarrow> (block, []) | Some n \<Rightarrow> (take n block, drop (n + 2) block))"
  from assms(1) obtain req hs where req: "parse_request_line ?line (hp_request p) = Inr req"
    and hs: "parse_header_lines (split_crlf ?rest) (rq_headers req) = Inr hs"
    and fr: "body_framing (p\<lparr>hp_request := resolve_keep_alive (req\<lparr>rq_headers := hs\<rparr>)\<rparr>) = Inr p'"
    by (auto simp: parse_head_def split: sum.splits prod.splits)
  have "IsToken (rq_method req) \<and> \<not> HasCtl (rq_target req) \<and> rq_headers req = rq_headers (hp_request p)"
    using req by (auto simp: parse_request_line_def Let_def split: option.splits if_splits)
  then show ?thesis using body_framing_framed [OF fr] parse_header_lines_ok [OF hs] assms(2)
    by (simp add: resolve_keep_alive_def Let_def)
qed

definition wrap_prefix :: bytes where
  "wrap_prefix = ''1'' @ crlf @ ''x'' @ crlf @ ''ffffffffffffffff'' @ crlf"

text \<open>C37. The limit on chunked bodies can be evaded: the total of the announced chunk sizes wraps around
  at \<open>2 ^ 64\<close>, so that after a chunk of one byte a chunk of \<open>2 ^ 64 - 1\<close> bytes passes the check, and
  the parser buffers every byte that follows, whatever \<open>max_body_bytes\<close> is.\<close>

theorem chunk_limit_wraps:
  assumes "hp_state p = sBodyChunked" "chunk_phase p = cSize" "body_total p = 0" "0 < max_body_bytes p"
    and "length s < 2 ^ 64 - 1"
  shows "\<exists>p'. http_parse p (wrap_prefix @ s) = Some (pIncomplete, p', [])
    \<and> rq_body (hp_request p') = rq_body (hp_request p) @ ''x'' @ s \<and> max_body_bytes p' = max_body_bytes p"
proof -
  define p1 where "p1 = p\<lparr>body_total := 1, chunk_remaining := 1, chunk_phase := cData\<rparr>"
  define p2 where "p2 = (take_body ''x'' p1)\<lparr>chunk_remaining := 0, chunk_phase := cDataCrlf\<rparr>"
  define p3 where "p3 = p2\<lparr>chunk_phase := cData, body_total := 0, chunk_remaining := 2 ^ 64 - 1\<rparr>"
  have 1: "chunk_step (p, wrap_prefix @ s) = Some (Inl (p1, ''x'' @ crlf @ ''ffffffffffffffff'' @ crlf @ s))"
    using assms by (simp add: chunk_step_def wrap_prefix_def crlf_def ParseHexSize_def hex_val_def size_wrap_def Let_def p1_def)
  have 2: "chunk_step (p1, ''x'' @ crlf @ ''ffffffffffffffff'' @ crlf @ s) = Some (Inl (p2, crlf @ ''ffffffffffffffff'' @ crlf @ s))"
    by (simp add: chunk_step_def p1_def p2_def take_body_def Let_def)
  have 3: "chunk_step (p2, crlf @ ''ffffffffffffffff'' @ crlf @ s) = Some (Inl (p2\<lparr>chunk_phase := cSize\<rparr>, ''ffffffffffffffff'' @ crlf @ s))"
    by (simp add: chunk_step_def p2_def crlf_def)
  have 4: "chunk_step (p2\<lparr>chunk_phase := cSize\<rparr>, ''ffffffffffffffff'' @ crlf @ s) = Some (Inl (p3, s))"
    using assms by (simp add: chunk_step_def p1_def p2_def p3_def crlf_def ParseHexSize_def hex_val_def size_wrap_def Let_def take_body_def)
  have 5: "chunk_step (p3, s) = Some (Inr (pIncomplete, (take_body s p3)\<lparr>chunk_remaining := 2 ^ 64 - 1 - length s\<rparr>, []))"
    using assms(5) by (simp add: chunk_step_def p3_def Let_def take_body_def)
  have "parse_chunked p (wrap_prefix @ s) = Some (pIncomplete, (take_body s p3)\<lparr>chunk_remaining := 2 ^ 64 - 1 - length s\<rparr>, [])"
    unfolding parse_chunked_def iter_Inl [where f = chunk_step, OF 1] iter_Inl [where f = chunk_step, OF 2]
      iter_Inl [where f = chunk_step, OF 3] iter_Inl [where f = chunk_step, OF 4] by (rule iter_Inr [where f = chunk_step, OF 5])
  then have "http_parse p (wrap_prefix @ s) = Some (pIncomplete, (take_body s p3)\<lparr>chunk_remaining := 2 ^ 64 - 1 - length s\<rparr>, [])"
    unfolding http_parse_def by (intro iter_Inr) (simp add: parse_step_def assms(1))
  then show ?thesis by (simp add: take_body_def p3_def p2_def p1_def)
qed

theorem chunk_limit_wraps_witness:
  "\<exists>p'. http_parse (sample_parser\<lparr>hp_state := sBodyChunked\<rparr>) (wrap_prefix @ replicate 1000 CHR ''y'') = Some (pIncomplete, p', [])
    \<and> rq_body (hp_request p') = ''x'' @ replicate 1000 CHR ''y'' \<and> max_body_bytes p' = 50"
  using chunk_limit_wraps [of "sample_parser\<lparr>hp_state := sBodyChunked\<rparr>" "replicate 1000 CHR ''y''"]
  by (simp add: sample_parser_def new_HttpRequestParser_def new_HttpRequest_def)

theorem http_head_unambiguous_witness:
  "\<exists>p'. parse_head (''GET /a HTTP/1.1'' @ crlf @ ''Host: h'') sample_parser = Inr p' \<and> framed p' \<and> IsToken (rq_method (hp_request p'))"
proof -
  have "(case parse_head (''GET /a HTTP/1.1'' @ crlf @ ''Host: h'') sample_parser of Inl err \<Rightarrow> False | Inr p' \<Rightarrow> True)" by code_simp
  then obtain p' where p': "parse_head (''GET /a HTTP/1.1'' @ crlf @ ''Host: h'') sample_parser = Inr p'" by (auto split: sum.splits)
  then show ?thesis using http_head_unambiguous [OF p']
    by (simp add: sample_parser_def new_HttpRequestParser_def new_HttpRequest_def)
qed

text \<open>C35. A request written the way clients write it, with clean header fields and a Content-Length, is read
  back exactly: the method, the target, the headers and the body, with the bytes after it left for
  the next request, as long as it fits the limits.\<close>

theorem http_request_roundtrip:
  assumes clean: "IsToken meth" "clean_target target" "list_all clean_header hs" "list_all other_header hs"
    and fits: "length (join_crlf (request_lines meth target (hs @ [length_header body]))) \<le> mxh" "length body \<le> mxb" "mxb \<le> 2 ^ 64 - 10"
  shows "\<exists>p'. http_parse (new_HttpRequestParser mxh mxb) (render_request meth target hs body @ rest) = Some (pComplete, p', rest)
    \<and> rq_method (hp_request p') = meth \<and> rq_target (hp_request p') = target
    \<and> rq_headers (hp_request p') = hs @ [length_header body] \<and> rq_body (hp_request p') = body"
proof -
  let ?p = "new_HttpRequestParser mxh mxb" and ?ls = "request_lines meth target (hs @ [length_header body])"
  from parse_head_rendered [OF clean fits(2,3), of mxh] obtain p1 where ls: "list_all line_ok ?ls"
    and head: "parse_head (join_crlf ?ls) ?p = Inr p1"
    and p1: "body_remaining p1 = length body" "hp_state p1 = (if length body = 0 then sComplete else sBodyLength)"
    and body: "rq_method (hp_request p1) = meth" "rq_target (hp_request p1) = target"
      "rq_headers (hp_request p1) = hs @ [length_header body]" "rq_body (hp_request p1) = []" by auto
  have "?ls \<noteq> []" by (simp add: request_lines_def)
  then have 1: "parse_step (?p, render_request meth target hs body @ rest) = Some (Inl (p1, body @ rest))"
    using join_crlf_head [OF _ ls, of "body @ rest"] fits(1) head
    by (simp add: parse_step_def render_request_def new_HttpRequestParser_def) (simp add: crlf_def)
  show ?thesis
  proof (cases "body = []")
    case True
    have "parse_step (p1, body @ rest) = Some (Inr (pComplete, p1, rest))" using True p1 by (simp add: parse_step_def)
    with 1 body True show ?thesis by (simp add: http_parse_def)
  next
    case False
    define p2 where "p2 = (take_body body p1)\<lparr>body_remaining := 0, hp_state := sComplete\<rparr>"
    have "parse_step (p1, body @ rest) = Some (Inl (p2, rest))"
      using False p1 by (simp add: parse_step_def Let_def p2_def take_body_def)
    moreover have "parse_step (p2, rest) = Some (Inr (pComplete, p2, rest))" by (simp add: parse_step_def p2_def)
    moreover have "rq_body (hp_request p2) = body" "rq_method (hp_request p2) = meth" "rq_target (hp_request p2) = target"
      "rq_headers (hp_request p2) = hs @ [length_header body]" using body by (simp_all add: p2_def take_body_def)
    ultimately show ?thesis using 1 by (simp add: http_parse_def)
  qed
qed

theorem http_request_roundtrip_witness:
  "\<exists>p'. http_parse (new_HttpRequestParser 100 50)
      (render_request ''POST'' ''/orders'' [\<lparr>hdr_name = ''Host'', hdr_value = ''h''\<rparr>] ''id=1'' @ ''GET'') = Some (pComplete, p', ''GET'')
    \<and> rq_method (hp_request p') = ''POST'' \<and> rq_target (hp_request p') = ''/orders'' \<and> rq_body (hp_request p') = ''id=1''"
proof -
  have m: "IsToken ''POST''" by code_simp
  have t: "clean_target ''/orders''" by code_simp
  have c: "list_all clean_header [\<lparr>hdr_name = ''Host'', hdr_value = ''h''\<rparr>]" by code_simp
  have o: "list_all other_header [\<lparr>hdr_name = ''Host'', hdr_value = ''h''\<rparr>]" by code_simp
  have "length (decimal (length ''id=1'')) \<le> 1" by (rule length_decimal) simp_all
  then have "length (join_crlf (request_lines ''POST'' ''/orders'' ([\<lparr>hdr_name = ''Host'', hdr_value = ''h''\<rparr>] @ [length_header ''id=1'']))) \<le> 100"
    by (simp add: request_lines_def length_header_def raw_header_def crlf_def)
  from http_request_roundtrip [OF m t c o this, of 50 "''GET''"] show ?thesis by auto
qed

end
