(* ===== verification/Token_Cache.thy ===== *)
theory Token_Cache
  imports Prelude
begin

section \<open>The credential cache (auth/token\_cache.h, auth/token\_cache.cc)\<close>

text \<open>
  The cache keeps its nodes in a hash table and threads them on an intrusive doubly linked
  list from the hot end (\<open>tc_head\<close>) to the cold end (\<open>tc_tail\<close>). A node is
  owned by the table under its key, so a \<open>Node*\<close> is modelled by that key: the
  pointer operations below are the source's, on a table of nodes with \<open>prev\<close> and
  \<open>next\<close> keys. \<open>now\<close> arguments are the clock readings of an operation. The component's
  contract is a list of entries, hot end first; \<open>chain\<close> is the refinement relation.
\<close>

record Node =
  nd_value :: string
  nd_expiry :: int
  nd_prev :: "string option"
  nd_next :: "string option"

record TokenCache =
  tc_capacity :: nat
  tc_max_bytes :: nat
  tc_max_purge :: nat
  tc_index :: "(string \<times> Node) list"
  tc_head :: "string option"
  tc_tail :: "string option"
  tc_bytes :: nat

definition new_TokenCache :: "nat \<Rightarrow> nat \<Rightarrow> nat \<Rightarrow> TokenCache" where
  "new_TokenCache capacity max_bytes max_purge =
     \<lparr>tc_capacity = capacity, tc_max_bytes = max_bytes, tc_max_purge = max_purge, tc_index = [],
      tc_head = None, tc_tail = None, tc_bytes = 0\<rparr>"

definition EntryBytes :: "string \<Rightarrow> string \<Rightarrow> nat" where
  "EntryBytes key v = length key + length v"

definition upd_node :: "string \<Rightarrow> (Node \<Rightarrow> Node) \<Rightarrow> TokenCache \<Rightarrow> TokenCache" where
  "upd_node k f c = c\<lparr>tc_index := AList.map_entry k f (tc_index c)\<rparr>"

definition node :: "string \<Rightarrow> TokenCache \<Rightarrow> Node option" where
  "node k c = map_of (tc_index c) k"

definition unlink :: "string \<Rightarrow> TokenCache \<Rightarrow> TokenCache option" where
  "unlink k c = do {
     n \<leftarrow> node k c;
     let c1 = (case nd_prev n of
                 Some p \<Rightarrow> upd_node p (\<lambda>m. m\<lparr>nd_next := nd_next n\<rparr>) c
               | None \<Rightarrow> c\<lparr>tc_head := nd_next n\<rparr>);
     let c2 = (case nd_next n of
                 Some q \<Rightarrow> upd_node q (\<lambda>m. m\<lparr>nd_prev := nd_prev n\<rparr>) c1
               | None \<Rightarrow> c1\<lparr>tc_tail := nd_prev n\<rparr>);
     Some (upd_node k (\<lambda>m. m\<lparr>nd_prev := None, nd_next := None\<rparr>) c2)
   }"

definition push_tail :: "string \<Rightarrow> TokenCache \<Rightarrow> TokenCache" where
  "push_tail k c =
     (let c1 = upd_node k (\<lambda>m. m\<lparr>nd_prev := tc_tail c, nd_next := None\<rparr>) c;
          c2 = (case tc_tail c of
                  Some t \<Rightarrow> upd_node t (\<lambda>m. m\<lparr>nd_next := Some k\<rparr>) c1
                | None \<Rightarrow> c1\<lparr>tc_head := Some k\<rparr>)
      in c2\<lparr>tc_tail := Some k\<rparr>)"

definition erase :: "string \<Rightarrow> TokenCache \<Rightarrow> TokenCache option" where
  "erase k c = do {
     n \<leftarrow> node k c;
     c1 \<leftarrow> unlink k (c\<lparr>tc_bytes := tc_bytes c - EntryBytes k (nd_value n)\<rparr>);
     Some (c1\<lparr>tc_index := AList.delete k (tc_index c1)\<rparr>)
   }"

definition purge_step :: "int \<Rightarrow> nat \<times> TokenCache \<Rightarrow> ((nat \<times> TokenCache) + TokenCache) option" where
  "purge_step now = (\<lambda>(purged, c).
     case tc_tail c of
       None \<Rightarrow> Some (Inr c)
     | Some t \<Rightarrow> do {
         n \<leftarrow> node t c;
         if now \<ge> nd_expiry n
         then do {
           c1 \<leftarrow> erase t c;
           if tc_max_purge c \<noteq> 0 \<and> Suc purged \<ge> tc_max_purge c then Some (Inr c1)
           else Some (Inl (Suc purged, c1))
         }
         else Some (Inr c)
       })"

definition purge_expired_tail :: "int \<Rightarrow> TokenCache \<Rightarrow> TokenCache option" where
  "purge_expired_tail now c = iter (purge_step now) (0, c)"

definition erase_key :: "string \<Rightarrow> TokenCache \<Rightarrow> TokenCache option" where
  "erase_key k c = (case node k c of None \<Rightarrow> Some c | Some _ \<Rightarrow> erase k c)"

text \<open>The two eviction loops: while the predicate holds and there is a tail, erase the tail.\<close>

definition evict_step :: "(TokenCache \<Rightarrow> bool) \<Rightarrow> TokenCache \<Rightarrow> (TokenCache + TokenCache) option" where
  "evict_step full c =
     (case tc_tail c of
        Some t \<Rightarrow> if full c then map_option Inl (erase t c) else Some (Inr c)
      | None \<Rightarrow> Some (Inr c))"

definition evict_while :: "(TokenCache \<Rightarrow> bool) \<Rightarrow> TokenCache \<Rightarrow> TokenCache option" where
  "evict_while full c = iter (evict_step full) c"

definition admit :: "string \<Rightarrow> string \<Rightarrow> int \<Rightarrow> TokenCache \<Rightarrow> TokenCache" where
  "admit key v expiry c =
     push_tail key
       (c\<lparr>tc_index := emplace key \<lparr>nd_value = v, nd_expiry = expiry, nd_prev = None, nd_next = None\<rparr> (tc_index c),
          tc_bytes := tc_bytes c + EntryBytes key v\<rparr>)"

definition cache_insert :: "string \<Rightarrow> string \<Rightarrow> int \<Rightarrow> int \<Rightarrow> int \<Rightarrow> TokenCache \<Rightarrow> TokenCache option" where
  "cache_insert key v expiry now now' c =
     (if tc_capacity c = 0 \<or> expiry \<le> now then Some c
      else do {
        c1 \<leftarrow> purge_expired_tail now' c;
        let need = EntryBytes key v;
        if tc_max_bytes c \<noteq> 0 \<and> need > tc_max_bytes c then erase_key key c1
        else do {
          c2 \<leftarrow> erase_key key c1;
          c3 \<leftarrow> evict_while (\<lambda>c. length (tc_index c) \<ge> tc_capacity c) c2;
          c4 \<leftarrow> evict_while (\<lambda>c. tc_max_bytes c \<noteq> 0 \<and> tc_bytes c + need > tc_max_bytes c) c3;
          Some (admit key v expiry c4)
        }
      })"

text \<open>A hit moves one step towards the hot end.\<close>

definition promote :: "string \<Rightarrow> string \<Rightarrow> TokenCache \<Rightarrow> TokenCache option" where
  "promote k p c = do {
     c1 \<leftarrow> unlink k c;
     pn \<leftarrow> node p c1;
     let c2 = upd_node k (\<lambda>m. m\<lparr>nd_next := Some p, nd_prev := nd_prev pn\<rparr>) c1;
     let c3 = (case nd_prev pn of
                 Some q \<Rightarrow> upd_node q (\<lambda>m. m\<lparr>nd_next := Some k\<rparr>) c2
               | None \<Rightarrow> c2\<lparr>tc_head := Some k\<rparr>);
     Some (upd_node p (\<lambda>m. m\<lparr>nd_prev := Some k\<rparr>) c3)
   }"

definition cache_lookup :: "string \<Rightarrow> int \<Rightarrow> TokenCache \<Rightarrow> (string option \<times> TokenCache) option" where
  "cache_lookup key now c =
     (case node key c of
        None \<Rightarrow> Some (None, c)
      | Some n \<Rightarrow>
          if now \<ge> nd_expiry n then do { c1 \<leftarrow> erase key c; Some (None, c1) }
          else (case nd_prev n of
                  None \<Rightarrow> Some (Some (nd_value n), c)
                | Some p \<Rightarrow> do { c1 \<leftarrow> promote key p c; Some (Some (nd_value n), c1) }))"

definition cache_size :: "TokenCache \<Rightarrow> nat" where
  "cache_size c = length (tc_index c)"

subsection \<open>The linked list\<close>

type_synonym entry = "string \<times> string \<times> int"

definition first_key :: "entry list \<Rightarrow> string option \<Rightarrow> string option" where
  "first_key xs q = (case xs of [] \<Rightarrow> q | x # _ \<Rightarrow> Some (fst x))"

definition last_key :: "string option \<Rightarrow> entry list \<Rightarrow> string option" where
  "last_key p xs = (if xs = [] then p else Some (fst (last xs)))"

definition mk_node :: "entry \<Rightarrow> string option \<Rightarrow> string option \<Rightarrow> Node" where
  "mk_node x p q = \<lparr>nd_value = fst (snd x), nd_expiry = snd (snd x), nd_prev = p, nd_next = q\<rparr>"

fun linked :: "(string \<rightharpoonup> Node) \<Rightarrow> string option \<Rightarrow> entry list \<Rightarrow> string option \<Rightarrow> bool" where
  "linked m p [] q = True"
| "linked m p (x # xs) q = (m (fst x) = Some (mk_node x p (first_key xs q)) \<and> linked m (Some (fst x)) xs q)"

lemma key_simps [simp]:
  "first_key [] q = q" "first_key (x # xs) q = Some (fst x)" "last_key p [] = p" "last_key p (xs @ [x]) = Some (fst x)"
  "last_key p (x # xs) = last_key (Some (fst x)) xs" "last_key p (xs @ ys) = last_key (last_key p xs) ys"
  "first_key (xs @ ys) q = first_key xs (first_key ys q)"
  by (simp_all add: first_key_def last_key_def split: list.splits)

lemma mk_node_simps [simp]:
  "nd_value (mk_node x p q) = fst (snd x)" "nd_expiry (mk_node x p q) = snd (snd x)"
  "nd_prev (mk_node x p q) = p" "nd_next (mk_node x p q) = q"
  "(mk_node x p q)\<lparr>nd_prev := p'\<rparr> = mk_node x p' q" "(mk_node x p q)\<lparr>nd_next := q'\<rparr> = mk_node x p q'"
  by (simp_all add: mk_node_def)

lemma linked_append: "linked m p (xs @ ys) q \<longleftrightarrow> linked m p xs (first_key ys q) \<and> linked m (last_key p xs) ys q"
  by (induction xs arbitrary: p) simp_all

lemma linked_cong: "(\<And>x. x \<in> set xs \<Longrightarrow> m (fst x) = m' (fst x)) \<Longrightarrow> linked m p xs q = linked m' p xs q"
  by (induction xs arbitrary: p) simp_all

lemma linked_other: "k \<notin> fst ` set xs \<Longrightarrow> linked (m(k := v)) p xs q = linked m p xs q"
  by (rule linked_cong) auto

lemma linked_mem: "linked m p xs q \<Longrightarrow> x \<in> set xs \<Longrightarrow> \<exists>p' q'. m (fst x) = Some (mk_node x p' q')"
  by (induction xs arbitrary: p) auto

text \<open>Redirecting the pointers at either end of a segment.\<close>

lemma linked_redirect_next:
  assumes "linked m p (xs @ [x]) q" "distinct (map fst (xs @ [x]))"
  shows "linked (m(fst x := map_option (\<lambda>n. n\<lparr>nd_next := q'\<rparr>) (m (fst x)))) p (xs @ [x]) q'"
  using assms by (auto simp: linked_append linked_other)

lemma linked_redirect_prev:
  assumes "linked m p (x # xs) q" "distinct (map fst (x # xs))"
  shows "linked (m(fst x := map_option (\<lambda>n. n\<lparr>nd_prev := p'\<rparr>) (m (fst x)))) p' (x # xs) q"
  using assms by (auto simp: linked_other)

abbreviation nodes :: "TokenCache \<Rightarrow> string \<rightharpoonup> Node" where
  "nodes c \<equiv> map_of (tc_index c)"

lemma upd_node_frame [simp]:
  "tc_capacity (upd_node k f c) = tc_capacity c" "tc_max_bytes (upd_node k f c) = tc_max_bytes c"
  "tc_max_purge (upd_node k f c) = tc_max_purge c" "tc_head (upd_node k f c) = tc_head c"
  "tc_tail (upd_node k f c) = tc_tail c" "tc_bytes (upd_node k f c) = tc_bytes c"
  by (simp_all add: upd_node_def)

lemma upd_node_index [simp]:
  "nodes (upd_node k f c) = (nodes c)(k := map_option f (nodes c k))"
  "map fst (tc_index (upd_node k f c)) = map fst (tc_index c)"
proof -
  have "map_of (AList.map_entry k f xs) = (map_of xs)(k := map_option f (map_of xs k))" for xs :: "(string \<times> Node) list"
    by (induction xs) (auto simp: fun_eq_iff)
  then show "nodes (upd_node k f c) = (nodes c)(k := map_option f (nodes c k))" by (simp add: upd_node_def)
qed (simp add: upd_node_def)

definition same_frame :: "TokenCache \<Rightarrow> TokenCache \<Rightarrow> bool" where
  "same_frame c c' \<longleftrightarrow> tc_capacity c' = tc_capacity c \<and> tc_max_bytes c' = tc_max_bytes c \<and> tc_max_purge c' = tc_max_purge c
     \<and> tc_bytes c' = tc_bytes c \<and> map fst (tc_index c') = map fst (tc_index c)"

definition threads :: "TokenCache \<Rightarrow> entry list \<Rightarrow> bool" where
  "threads c xs \<longleftrightarrow> linked (nodes c) None xs None \<and> tc_head c = first_key xs None \<and> tc_tail c = last_key None xs"

lemma unlink_ok:
  assumes th: "threads c (as @ x # bs)" and d: "distinct (map fst (as @ x # bs))"
  shows "\<exists>c'. unlink (fst x) c = Some c' \<and> threads c' (as @ bs) \<and> same_frame c c' \<and> nodes c' (fst x) = Some (mk_node x None None)"
proof -
  define p where "p = last_key None as"
  define q where "q = first_key bs None"
  define c1 where "c1 = (case p of Some a \<Rightarrow> upd_node a (\<lambda>m. m\<lparr>nd_next := q\<rparr>) c | None \<Rightarrow> c\<lparr>tc_head := q\<rparr>)"
  define c2 where "c2 = (case q of Some b \<Rightarrow> upd_node b (\<lambda>m. m\<lparr>nd_prev := p\<rparr>) c1 | None \<Rightarrow> c1\<lparr>tc_tail := p\<rparr>)"
  have lk: "linked (nodes c) None as (Some (fst x))" "nodes c (fst x) = Some (mk_node x p q)" "linked (nodes c) (Some (fst x)) bs None"
    and ends: "tc_head c = first_key as (Some (fst x))" "tc_tail c = last_key (Some (fst x)) bs"
    using th by (auto simp: threads_def linked_append p_def q_def)
  have keys: "fst x \<notin> fst ` set as" "fst x \<notin> fst ` set bs" "fst ` set as \<inter> fst ` set bs = {}" "distinct (map fst as)" "distinct (map fst bs)"
    using d by auto
  have 1: "linked (nodes c1) None as q \<and> linked (nodes c1) (Some (fst x)) bs None \<and> nodes c1 (fst x) = Some (mk_node x p q)
      \<and> tc_head c1 = first_key as q \<and> tc_tail c1 = last_key (Some (fst x)) bs \<and> same_frame c c1"
  proof (cases as rule: rev_cases)
    case Nil
    then show ?thesis using lk ends by (simp add: c1_def p_def same_frame_def)
  next
    case (snoc as' a)
    then have p: "p = Some (fst a)" by (simp add: p_def)
    have n: "nodes c1 = (nodes c)(fst a := map_option (\<lambda>m. m\<lparr>nd_next := q\<rparr>) (nodes c (fst a)))" by (simp add: c1_def p)
    have "linked (nodes c1) None as q" unfolding n snoc by (rule linked_redirect_next) (use lk(1) keys(4) snoc in auto)
    moreover have "linked (nodes c1) (Some (fst x)) bs None" unfolding n using lk(3) keys(3) snoc by (subst linked_other) auto
    moreover have "nodes c1 (fst x) = Some (mk_node x p q)" unfolding n using lk(2) keys(1) snoc by auto
    ultimately show ?thesis using ends snoc by (cases as') (auto simp: c1_def p same_frame_def)
  qed
  have 2: "linked (nodes c2) None as q \<and> linked (nodes c2) p bs None \<and> nodes c2 (fst x) = Some (mk_node x p q)
      \<and> tc_head c2 = first_key as q \<and> tc_tail c2 = last_key p bs \<and> same_frame c1 c2"
  proof (cases bs)
    case Nil
    then show ?thesis using 1 by (simp add: c2_def q_def same_frame_def)
  next
    case (Cons b bs')
    then have q: "q = Some (fst b)" by (simp add: q_def)
    have n: "nodes c2 = (nodes c1)(fst b := map_option (\<lambda>m. m\<lparr>nd_prev := p\<rparr>) (nodes c1 (fst b)))" by (simp add: c2_def q)
    have "linked (nodes c2) p bs None" unfolding n Cons by (rule linked_redirect_prev) (use 1 keys(5) Cons in auto)
    moreover have "linked (nodes c2) None as q" unfolding n using 1 keys(3) Cons by (subst linked_other) auto
    moreover have "nodes c2 (fst x) = Some (mk_node x p q)" unfolding n using 1 keys(2) Cons by auto
    ultimately show ?thesis using 1 Cons by (auto simp: c2_def q same_frame_def)
  qed
  let ?c = "upd_node (fst x) (\<lambda>m. m\<lparr>nd_prev := None, nd_next := None\<rparr>) c2"
  have "unlink (fst x) c = Some ?c" unfolding unlink_def node_def lk(2) c2_def c1_def Option.bind.simps Let_def mk_node_simps by simp
  moreover have "threads ?c (as @ bs)"
    using 2 keys by (simp add: threads_def linked_append linked_other p_def q_def)
  moreover have "same_frame c ?c" using 1 2 by (simp add: same_frame_def)
  ultimately show ?thesis using 2 by simp
qed

lemma push_ok:
  assumes th: "threads c xs" and k: "fst x \<notin> fst ` set xs" "distinct (map fst xs)" and n: "nodes c (fst x) = Some (mk_node x p q)"
  shows "threads (push_tail (fst x) c) (xs @ [x]) \<and> same_frame c (push_tail (fst x) c)"
proof (cases xs rule: rev_cases)
  case Nil
  then show ?thesis using assms by (simp add: threads_def push_tail_def same_frame_def)
next
  case (snoc ys y)
  then have t: "tc_tail c = Some (fst y)" "fst y \<noteq> fst x" using th k by (auto simp: threads_def)
  have 1: "linked ((nodes c)(fst x := Some (mk_node x (Some (fst y)) None))) None (ys @ [y]) None"
    using th k snoc by (subst linked_other) (auto simp: threads_def)
  have "linked (nodes (push_tail (fst x) c)) None (ys @ [y]) (Some (fst x))"
    using linked_redirect_next [OF 1, of "Some (fst x)"] k snoc t n by (simp add: push_tail_def Let_def)
  moreover have "nodes (push_tail (fst x) c) (fst x) = Some (mk_node x (Some (fst y)) None)"
    using t n by (simp add: push_tail_def Let_def)
  ultimately show ?thesis using th snoc t by (simp add: threads_def linked_append push_tail_def Let_def same_frame_def)
qed

lemma promote_ok:
  assumes th: "threads c (as @ y # x # bs)" and d: "distinct (map fst (as @ y # x # bs))"
  shows "\<exists>c'. promote (fst x) (fst y) c = Some c' \<and> threads c' (as @ x # y # bs) \<and> same_frame c c'"
proof -
  from unlink_ok [of c "as @ [y]" x bs] th d obtain c1 where c1: "unlink (fst x) c = Some c1" "threads c1 (as @ y # bs)"
    "same_frame c c1" "nodes c1 (fst x) = Some (mk_node x None None)" by auto
  define p where "p = last_key None as"
  have lk: "linked (nodes c1) None as (Some (fst y))" "nodes c1 (fst y) = Some (mk_node y p (first_key bs None))"
      "linked (nodes c1) (Some (fst y)) bs None" "tc_head c1 = first_key as (Some (fst y))" "tc_tail c1 = last_key (Some (fst y)) bs"
    using c1(2) by (auto simp: threads_def linked_append p_def)
  define c2 where "c2 = upd_node (fst x) (\<lambda>m. m\<lparr>nd_next := Some (fst y), nd_prev := p\<rparr>) c1"
  define c3 where "c3 = (case p of Some a \<Rightarrow> upd_node a (\<lambda>m. m\<lparr>nd_next := Some (fst x)\<rparr>) c2 | None \<Rightarrow> c2\<lparr>tc_head := Some (fst x)\<rparr>)"
  let ?c = "upd_node (fst y) (\<lambda>m. m\<lparr>nd_prev := Some (fst x)\<rparr>) c3"
  have "promote (fst x) (fst y) c = Some ?c"
    unfolding promote_def c1(1) node_def lk(2) c3_def c2_def Option.bind.simps Let_def mk_node_simps by simp
  moreover have 2: "nodes c2 = (nodes c1)(fst x := Some (mk_node x p (Some (fst y))))" using c1(4) by (simp add: c2_def)
  have 3: "linked (nodes c3) None as (Some (fst x)) \<and> nodes c3 (fst y) = nodes c1 (fst y) \<and> nodes c3 (fst x) = nodes c2 (fst x)
      \<and> linked (nodes c3) (Some (fst y)) bs None \<and> tc_head c3 = first_key as (Some (fst x)) \<and> tc_tail c3 = tc_tail c1 \<and> same_frame c1 c3"
  proof (cases as rule: rev_cases)
    case Nil
    then show ?thesis using lk d by (simp add: c3_def 2 p_def c2_def linked_other same_frame_def)
  next
    case (snoc as' a)
    then have p: "p = Some (fst a)" by (simp add: p_def)
    have n: "nodes c3 = (nodes c2)(fst a := map_option (\<lambda>m. m\<lparr>nd_next := Some (fst x)\<rparr>) (nodes c2 (fst a)))" by (simp add: c3_def p)
    have "linked (nodes c2) None as (Some (fst y))" unfolding 2 using lk(1) d by (subst linked_other) auto
    then have "linked (nodes c3) None as (Some (fst x))"
      unfolding n snoc by (rule linked_redirect_next) (use d snoc in auto)
    moreover have "linked (nodes c3) (Some (fst y)) bs None" unfolding n 2 using lk(3) d snoc by (auto simp: linked_other)
    ultimately show ?thesis using lk d snoc unfolding n 2 by (cases as') (auto simp: c3_def c2_def p same_frame_def)
  qed
  then have "linked (nodes ?c) None as (Some (fst x))" "nodes ?c (fst x) = Some (mk_node x p (Some (fst y)))"
    "nodes ?c (fst y) = Some (mk_node y (Some (fst x)) (first_key bs None))" "linked (nodes ?c) (Some (fst y)) bs None"
    using d lk(2) by (auto simp: 2 linked_other)
  then have "threads ?c (as @ x # y # bs)" using 3 lk(5) by (simp add: threads_def linked_append p_def)
  moreover have "same_frame c ?c" using c1(3) 3 by (simp add: same_frame_def)
  ultimately show ?thesis by blast
qed

subsection \<open>The contract\<close>

text \<open>The cache as the list of its entries, hot end first.\<close>

definition chain :: "TokenCache \<Rightarrow> entry list \<Rightarrow> bool" where
  "chain c xs \<longleftrightarrow> threads c xs \<and> distinct (map fst xs) \<and> distinct (map fst (tc_index c))
     \<and> fst ` set (tc_index c) = fst ` set xs \<and> tc_bytes c = (\<Sum>x\<leftarrow>xs. EntryBytes (fst x) (fst (snd x)))"

definition same_limits :: "TokenCache \<Rightarrow> TokenCache \<Rightarrow> bool" where
  "same_limits c c' \<longleftrightarrow> tc_capacity c' = tc_capacity c \<and> tc_max_bytes c' = tc_max_bytes c \<and> tc_max_purge c' = tc_max_purge c"

definition cost :: "entry list \<Rightarrow> nat" where
  "cost xs = (\<Sum>x\<leftarrow>xs. EntryBytes (fst x) (fst (snd x)))"

definition without :: "string \<Rightarrow> entry list \<Rightarrow> entry list" where
  "without k xs = filter (\<lambda>x. fst x \<noteq> k) xs"

fun spec_purge :: "int \<Rightarrow> nat \<Rightarrow> entry list \<Rightarrow> entry list" where
  "spec_purge now left xs =
     (if xs \<noteq> [] \<and> now \<ge> snd (snd (last xs))
      then (if left = 1 then butlast xs else spec_purge now (left - 1) (butlast xs)) else xs)"

fun spec_evict :: "(entry list \<Rightarrow> bool) \<Rightarrow> entry list \<Rightarrow> entry list" where
  "spec_evict full xs = (if xs \<noteq> [] \<and> full xs then spec_evict full (butlast xs) else xs)"

definition spec_insert :: "nat \<Rightarrow> nat \<Rightarrow> nat \<Rightarrow> string \<Rightarrow> string \<Rightarrow> int \<Rightarrow> int \<Rightarrow> int \<Rightarrow> entry list \<Rightarrow> entry list" where
  "spec_insert capacity max_bytes max_purge key v expiry now now' xs =
     (if capacity = 0 \<or> expiry \<le> now then xs
      else let ys = without key (spec_purge now' max_purge xs); need = EntryBytes key v
           in if max_bytes \<noteq> 0 \<and> need > max_bytes then ys
              else spec_evict (\<lambda>zs. max_bytes \<noteq> 0 \<and> cost zs + need > max_bytes) (spec_evict (\<lambda>zs. length zs \<ge> capacity) ys)
                   @ [(key, v, expiry)])"

fun spec_promote :: "string \<Rightarrow> entry list \<Rightarrow> entry list" where
  "spec_promote k (y # x # xs) = (if fst y = k then y # x # xs else if fst x = k then x # y # xs else y # spec_promote k (x # xs))"
| "spec_promote k xs = xs"

definition spec_lookup :: "string \<Rightarrow> int \<Rightarrow> entry list \<Rightarrow> string option \<times> entry list" where
  "spec_lookup key now xs =
     (case map_of xs key of
        None \<Rightarrow> (None, xs)
      | Some (v, expiry) \<Rightarrow> if now \<ge> expiry then (None, without key xs) else (Some v, spec_promote key xs))"

declare spec_purge.simps [simp del] spec_evict.simps [simp del]

lemma chain_cost: "chain c xs \<Longrightarrow> tc_bytes c = cost xs"
  by (simp add: chain_def cost_def)

lemma chain_length: "chain c xs \<Longrightarrow> length (tc_index c) = length xs"
proof -
  assume "chain c xs"
  then have "distinct (map fst (tc_index c))" "distinct (map fst xs)" "set (map fst (tc_index c)) = set (map fst xs)"
    by (simp_all add: chain_def)
  then have "length (map fst (tc_index c)) = length (map fst xs)" by (metis distinct_card)
  then show ?thesis by simp
qed

lemma chain_node: "chain c xs \<Longrightarrow> x \<in> set xs \<Longrightarrow> \<exists>p q. node (fst x) c = Some (mk_node x p q)"
  using linked_mem [of "nodes c" None xs None x] by (auto simp: chain_def threads_def node_def)

lemma chain_absent: "chain c xs \<Longrightarrow> node k c = None \<longleftrightarrow> k \<notin> fst ` set xs"
  by (auto simp: chain_def node_def map_of_eq_None_iff)

lemma keys_of_delete: "fst ` set (AList.delete k m) = fst ` set m - {k}"
proof -
  have "set (map fst (AList.delete k m)) = set (map fst m) - {k}" unfolding keys_delete by auto
  then show ?thesis by (simp only: set_map)
qed

lemma erase_ok:
  assumes ch: "chain c (as @ x # bs)"
  shows "\<exists>c'. erase (fst x) c = Some c' \<and> chain c' (as @ bs) \<and> same_limits c c'"
proof -
  let ?c = "c\<lparr>tc_bytes := tc_bytes c - EntryBytes (fst x) (fst (snd x))\<rparr>"
  have d: "distinct (map fst (as @ x # bs))" using ch by (simp add: chain_def)
  then have nx: "fst x \<notin> set (map fst (as @ bs))" by simp
  have "threads ?c (as @ x # bs)" using ch by (simp add: chain_def threads_def)
  from unlink_ok [OF this d] obtain c1 where c1: "unlink (fst x) ?c = Some c1" "threads c1 (as @ bs)" "same_frame ?c c1" by blast
  let ?c' = "c1\<lparr>tc_index := AList.delete (fst x) (tc_index c1)\<rparr>"
  obtain p q where n: "node (fst x) c = Some (mk_node x p q)" using chain_node [OF ch, of x] by auto
  then have "erase (fst x) c = Some ?c'" using c1(1) by (simp add: erase_def)
  moreover have "threads ?c' (as @ bs)"
  proof -
    have "linked (map_of (AList.delete (fst x) (tc_index c1))) None (as @ bs) None = linked (nodes c1) None (as @ bs) None"
    proof (rule linked_cong)
      fix z assume "z \<in> set (as @ bs)"
      then have "fst z \<in> set (map fst (as @ bs))" by auto
      then have "fst z \<noteq> fst x" using nx by metis
      then show "map_of (AList.delete (fst x) (tc_index c1)) (fst z) = nodes c1 (fst z)" by (simp add: delete_conv')
    qed
    then show ?thesis using c1(2) by (simp add: threads_def)
  qed
  moreover have "tc_bytes ?c' = (\<Sum>x\<leftarrow>as @ bs. EntryBytes (fst x) (fst (snd x)))"
    using ch c1(3) by (simp add: chain_def same_frame_def)
  moreover have "distinct (map fst (tc_index ?c'))" "fst ` set (tc_index ?c') = fst ` set (as @ bs)"
  proof -
    have i: "map fst (tc_index c1) = map fst (tc_index c)" using c1(3) by (simp add: same_frame_def)
    then have "distinct (map fst (tc_index c1))" using ch by (simp add: chain_def)
    then show "distinct (map fst (tc_index ?c'))" by (simp add: distinct_delete)
    have "fst ` set (tc_index c1) = fst ` set (tc_index c)" using i by (metis set_map)
    then have "fst ` set (tc_index ?c') = fst ` set (tc_index c) - {fst x}" by (simp add: keys_of_delete)
    moreover have "fst ` set (tc_index c) = insert (fst x) (fst ` set (as @ bs))" using ch by (simp add: chain_def image_Un)
    moreover have "fst x \<notin> fst ` set (as @ bs)" using nx unfolding set_map .
    ultimately show "fst ` set (tc_index ?c') = fst ` set (as @ bs)" by (metis Diff_insert_absorb)
  qed
  ultimately show ?thesis using d c1(3) by (auto simp: chain_def same_limits_def same_frame_def)
qed

lemma erase_last:
  assumes "chain c xs" "xs \<noteq> []"
  shows "tc_tail c = Some (fst (last xs)) \<and> (\<exists>c'. erase (fst (last xs)) c = Some c' \<and> chain c' (butlast xs) \<and> same_limits c c')"
proof -
  obtain ys x where "xs = ys @ [x]" using assms(2) by (cases xs rule: rev_cases) auto
  then show ?thesis using assms(1) erase_ok [of c ys x "[]"] by (auto simp: chain_def threads_def)
qed

lemma chain_empty: "chain c [] \<Longrightarrow> tc_tail c = None"
  by (simp add: chain_def threads_def)

lemma filter_absent: "k \<notin> set (map fst zs) \<Longrightarrow> filter (\<lambda>z. fst z \<noteq> k) zs = zs"
  by (induction zs) auto

lemma erase_key_ok:
  assumes "chain c xs"
  shows "\<exists>c'. erase_key k c = Some c' \<and> chain c' (without k xs) \<and> same_limits c c'"
proof (cases "node k c")
  case None
  then have "without k xs = xs" using chain_absent [OF assms] by (auto simp: without_def image_iff intro!: filter_True)
  with None assms show ?thesis by (simp add: erase_key_def same_limits_def)
next
  case (Some n)
  then have "k \<in> fst ` set xs" using chain_absent [OF assms, of k] by auto
  then obtain x where "x \<in> set xs" and k: "k = fst x" by blast
  then obtain as bs where x: "xs = as @ x # bs" by (meson split_list)
  moreover have "without k xs = as @ bs"
  proof -
    have "distinct (map fst (as @ x # bs))" using assms x by (simp add: chain_def)
    then have nx: "fst x \<notin> set (map fst as)" "fst x \<notin> set (map fst bs)" by simp_all
    show ?thesis using filter_absent [OF nx(1)] filter_absent [OF nx(2)] by (simp add: without_def x k)
  qed
  ultimately show ?thesis using erase_ok [of c as x bs] assms Some k by (simp add: erase_key_def)
qed

lemma purge_from:
  assumes "chain c xs" "tc_max_purge c = 0 \<or> purged < tc_max_purge c"
  shows "\<exists>c'. iter (purge_step now) (purged, c) = Some c' \<and> chain c' (spec_purge now (tc_max_purge c - purged) xs) \<and> same_limits c c'"
  using assms
proof (induction "length xs" arbitrary: xs c purged)
  case 0
  then show ?case using chain_empty [of c] by (simp add: purge_step_def spec_purge.simps same_limits_def)
next
  case (Suc n)
  then have ne: "xs \<noteq> []" by auto
  note E = erase_last [OF Suc.prems(1) ne]
  then obtain c1 where c1: "erase (fst (last xs)) c = Some c1" "chain c1 (butlast xs)" "same_limits c c1" by blast
  obtain p q where nd: "node (fst (last xs)) c = Some (mk_node (last xs) p q)" using chain_node [OF Suc.prems(1), of "last xs"] ne by auto
  show ?case
  proof (cases "now \<ge> snd (snd (last xs))")
    case False
    then have "purge_step now (purged, c) = Some (Inr c)" using E nd by (simp add: purge_step_def)
    with False Suc.prems show ?thesis by (simp add: spec_purge.simps [of now _ xs] same_limits_def)
  next
    case True
    show ?thesis
    proof (cases "tc_max_purge c \<noteq> 0 \<and> Suc purged \<ge> tc_max_purge c")
      case last: True
      then have "purge_step now (purged, c) = Some (Inr c1)" using E nd True c1(1) by (simp add: purge_step_def)
      moreover have "tc_max_purge c - purged = 1" using last Suc.prems(2) by linarith
      ultimately show ?thesis using True ne c1 by (simp add: spec_purge.simps [of now _ xs])
    next
      case more: False
      have "purge_step now (purged, c) = Some (Inl (Suc purged, c1))" using E nd True c1(1) more by (auto simp: purge_step_def)
      moreover have lim: "tc_max_purge c1 = tc_max_purge c" using c1(3) by (simp add: same_limits_def)
      moreover have "spec_purge now (tc_max_purge c - purged) xs = spec_purge now (tc_max_purge c1 - Suc purged) (butlast xs)"
        using True ne more lim by (subst spec_purge.simps) auto
      moreover have more': "tc_max_purge c1 = 0 \<or> Suc purged < tc_max_purge c1" using more lim by auto
      have len: "n = length (butlast xs)" using Suc.hyps(2) by simp
      from Suc.hyps(1) [OF len c1(2) more'] obtain c' where "iter (purge_step now) (Suc purged, c1) = Some c'"
        "chain c' (spec_purge now (tc_max_purge c1 - Suc purged) (butlast xs))" "same_limits c1 c'" by blast
      ultimately show ?thesis using c1(3) by (auto simp: same_limits_def)
    qed
  qed
qed

lemma purge_ok:
  assumes "chain c xs"
  shows "\<exists>c'. purge_expired_tail now c = Some c' \<and> chain c' (spec_purge now (tc_max_purge c) xs) \<and> same_limits c c'"
  using purge_from [OF assms, of 0 now] by (auto simp: purge_expired_tail_def)

lemma evict_ok:
  assumes "chain c xs" "\<And>d ys. chain d ys \<Longrightarrow> same_limits c d \<Longrightarrow> full d = spec_full ys"
  shows "\<exists>c'. evict_while full c = Some c' \<and> chain c' (spec_evict spec_full xs) \<and> same_limits c c'"
  using assms unfolding evict_while_def
proof (induction "length xs" arbitrary: xs c)
  case 0
  then show ?case using chain_empty [of c] by (simp add: evict_step_def spec_evict.simps same_limits_def)
next
  case (Suc n)
  then have ne: "xs \<noteq> []" by auto
  note E = erase_last [OF Suc.prems(1) ne]
  then obtain c1 where c1: "erase (fst (last xs)) c = Some c1" "chain c1 (butlast xs)" "same_limits c c1" by blast
  have full: "full c = spec_full xs" using Suc.prems by (simp add: same_limits_def)
  show ?case
  proof (cases "full c")
    case False
    then have "evict_step full c = Some (Inr c)" using E by (simp add: evict_step_def)
    with False Suc.prems full show ?thesis by (simp add: spec_evict.simps [of _ xs] same_limits_def)
  next
    case True
    then have step: "evict_step full c = Some (Inl c1)" using E c1(1) by (simp add: evict_step_def)
    have len: "n = length (butlast xs)" using Suc.hyps(2) by simp
    have "\<And>d ys. chain d ys \<Longrightarrow> same_limits c1 d \<Longrightarrow> full d = spec_full ys"
      using Suc.prems(2) c1(3) by (simp add: same_limits_def)
    from Suc.hyps(1) [OF len c1(2) this] obtain c' where "iter (evict_step full) c1 = Some c'"
      "chain c' (spec_evict spec_full (butlast xs))" "same_limits c1 c'" by blast
    then show ?thesis using step True full ne c1(3) by (auto simp: spec_evict.simps [of _ xs] same_limits_def)
  qed
qed

lemma admit_ok:
  assumes ch: "chain c xs" and new: "key \<notin> fst ` set xs"
  shows "chain (admit key v expiry c) (xs @ [(key, v, expiry)]) \<and> same_limits c (admit key v expiry c)"
proof -
  let ?x = "(key, v, expiry)"
  let ?c = "c\<lparr>tc_index := emplace key (mk_node ?x None None) (tc_index c), tc_bytes := tc_bytes c + EntryBytes key v\<rparr>"
  have n: "nodes c key = None" using chain_absent [OF ch, of key] new by (simp add: node_def)
  have "linked (nodes ?c) None xs None"
    using ch new n by (subst linked_cong [of _ _ "nodes c"]) (auto simp: chain_def threads_def)
  then have th: "threads ?c xs" using ch by (simp add: chain_def threads_def)
  have "nodes ?c (fst ?x) = Some (mk_node ?x None None)" using n by simp
  from push_ok [OF th _ _ this] have P: "threads (push_tail key ?c) (xs @ [?x])" "same_frame ?c (push_tail key ?c)"
    using new ch by (simp_all add: chain_def)
  have a: "admit key v expiry c = push_tail key ?c" by (simp add: admit_def mk_node_def)
  have keys: "map fst (tc_index (push_tail key ?c)) = map fst (emplace key (mk_node ?x None None) (tc_index c))"
    using P(2) by (simp add: same_frame_def)
  have "distinct (map fst (emplace key (mk_node ?x None None) (tc_index c)))" using ch by (simp add: chain_def)
  moreover have "fst ` set (emplace key (mk_node ?x None None) (tc_index c)) = insert key (fst ` set (tc_index c))"
    using n by (auto simp: emplace_def)
  moreover have "fst ` set (tc_index (push_tail key ?c)) = fst ` set (emplace key (mk_node ?x None None) (tc_index c))"
    using keys by (metis set_map)
  ultimately show ?thesis unfolding a using P ch new keys by (simp add: chain_def same_frame_def same_limits_def)
qed

lemma same_limits_trans: "same_limits a b \<Longrightarrow> same_limits b c \<Longrightarrow> same_limits a c"
  by (simp add: same_limits_def)

lemma spec_evict_prefix: "\<exists>zs. ys = spec_evict full ys @ zs"
proof (induction full ys rule: spec_evict.induct)
  case (1 full ys)
  show ?case
  proof (cases "ys \<noteq> [] \<and> full ys")
    case True
    with 1 obtain zs where "butlast ys = spec_evict full (butlast ys) @ zs" by blast
    then have "ys = spec_evict full (butlast ys) @ zs @ [last ys]" using True append_butlast_last_id [of ys] by (metis append.assoc)
    with True show ?thesis by (subst spec_evict.simps) auto
  qed (subst spec_evict.simps, auto)
qed

lemma spec_evict_subset: "set (spec_evict full ys) \<subseteq> set ys"
  using spec_evict_prefix [of ys full] by (metis Un_upper1 set_append)

lemma spec_evict_done: "spec_evict full ys = [] \<or> \<not> full (spec_evict full ys)"
proof (induction full ys rule: spec_evict.induct)
  case (1 full ys)
  show ?case
  proof (cases "ys \<noteq> [] \<and> full ys")
    case True
    then have "spec_evict full ys = spec_evict full (butlast ys)" by (simp add: spec_evict.simps [of full ys])
    with 1 True show ?thesis by simp
  next
    case False
    then have "spec_evict full ys = ys" by (subst spec_evict.simps) auto
    with False show ?thesis by auto
  qed
qed

lemma insert_ok:
  assumes ch: "chain c xs"
  shows "\<exists>c'. cache_insert key v expiry now now' c = Some c' \<and> same_limits c c'
    \<and> chain c' (spec_insert (tc_capacity c) (tc_max_bytes c) (tc_max_purge c) key v expiry now now' xs)"
proof (cases "tc_capacity c = 0 \<or> expiry \<le> now")
  case True
  then show ?thesis using ch by (auto simp: cache_insert_def spec_insert_def same_limits_def)
next
  case False
  let ?ys = "without key (spec_purge now' (tc_max_purge c) xs)" and ?need = "EntryBytes key v"
  obtain c1 where c1: "purge_expired_tail now' c = Some c1" "chain c1 (spec_purge now' (tc_max_purge c) xs)" "same_limits c c1"
    using purge_ok [OF ch] by blast
  obtain c2 where c2: "erase_key key c1 = Some c2" "chain c2 ?ys" "same_limits c1 c2" using erase_key_ok [OF c1(2)] by blast
  show ?thesis
  proof (cases "tc_max_bytes c \<noteq> 0 \<and> ?need > tc_max_bytes c")
    case big: True
    then show ?thesis using False c1 c2 by (auto simp: cache_insert_def spec_insert_def Let_def same_limits_def)
  next
    case fits: False
    let ?zs = "spec_evict (\<lambda>zs. length zs \<ge> tc_capacity c) ?ys"
    let ?us = "spec_evict (\<lambda>zs. tc_max_bytes c \<noteq> 0 \<and> cost zs + ?need > tc_max_bytes c) ?zs"
    have "same_limits c c2" using c1 c2 by (simp add: same_limits_def)
    then obtain c3 where c3: "evict_while (\<lambda>c. length (tc_index c) \<ge> tc_capacity c) c2 = Some c3" "chain c3 ?zs" "same_limits c2 c3"
      using evict_ok [OF c2(2), of "\<lambda>c. length (tc_index c) \<ge> tc_capacity c" "\<lambda>zs. length zs \<ge> tc_capacity c"]
      by (auto simp: chain_length same_limits_def)
    have "same_limits c c3" using \<open>same_limits c c2\<close> c3(3) by (simp add: same_limits_def)
    then obtain c4 where c4: "evict_while (\<lambda>c. tc_max_bytes c \<noteq> 0 \<and> tc_bytes c + ?need > tc_max_bytes c) c3 = Some c4" "chain c4 ?us" "same_limits c3 c4"
      using evict_ok [OF c3(2), of "\<lambda>c. tc_max_bytes c \<noteq> 0 \<and> tc_bytes c + ?need > tc_max_bytes c"
          "\<lambda>zs. tc_max_bytes c \<noteq> 0 \<and> cost zs + ?need > tc_max_bytes c"]
      by (auto simp: chain_cost same_limits_def)
    have "set ?us \<subseteq> set ?ys" by (rule order_trans [OF spec_evict_subset spec_evict_subset])
    then have "key \<notin> fst ` set ?us" by (auto simp: without_def)
    note A = admit_ok [OF c4(2) this, of v expiry]
    have "cache_insert key v expiry now now' c = Some (admit key v expiry c4)"
      using False fits c1(1) c2(1) c3(1) c4(1) by (auto simp: cache_insert_def Let_def)
    moreover have "spec_insert (tc_capacity c) (tc_max_bytes c) (tc_max_purge c) key v expiry now now' xs = ?us @ [(key, v, expiry)]"
      using False fits by (auto simp: spec_insert_def Let_def)
    moreover have "same_limits c (admit key v expiry c4)"
      using \<open>same_limits c c3\<close> c4(3) A by (simp add: same_limits_def)
    ultimately show ?thesis using A by simp
  qed
qed

lemma spec_promote_split:
  assumes "distinct (map fst (as @ y # x # bs))"
  shows "spec_promote (fst x) (as @ y # x # bs) = as @ x # y # bs"
  using assms
proof (induction as)
  case (Cons a as)
  then show ?case by (cases as) auto
qed simp

lemma lookup_ok:
  assumes ch: "chain c xs"
  shows "\<exists>c'. cache_lookup key now c = Some (fst (spec_lookup key now xs), c') \<and> chain c' (snd (spec_lookup key now xs)) \<and> same_limits c c'"
proof (cases "node key c")
  case None
  then have "map_of xs key = None" using chain_absent [OF ch, of key] by (simp add: map_of_eq_None_iff)
  with None ch show ?thesis by (simp add: cache_lookup_def spec_lookup_def split_def same_limits_def)
next
  case (Some n)
  then have "key \<in> fst ` set xs" using chain_absent [OF ch, of key] by auto
  then obtain x where x: "x \<in> set xs" and k: "key = fst x" by blast
  then obtain as bs where xs: "xs = as @ x # bs" by (meson split_list)
  have d: "distinct (map fst xs)" using ch by (simp add: chain_def)
  have m: "map_of xs key = Some (fst (snd x), snd (snd x))" using d x k by (cases x) simp
  have n: "n = mk_node x (last_key None as) (first_key bs None)"
    using Some ch xs k by (auto simp: node_def chain_def threads_def linked_append)
  show ?thesis
  proof (cases "now \<ge> snd (snd x)")
    case True
    obtain c' where "erase key c = Some c'" "chain c' (without key xs)" "same_limits c c'"
      using erase_key_ok [OF ch, of key] Some by (auto simp: erase_key_def)
    with True Some m n show ?thesis by (simp add: cache_lookup_def spec_lookup_def split_def)
  next
    case False
    show ?thesis
    proof (cases as rule: rev_cases)
      case Nil
      then have "spec_promote key xs = xs" using xs k by (cases bs) simp_all
      with False Some m n Nil ch show ?thesis by (simp add: cache_lookup_def spec_lookup_def split_def same_limits_def)
    next
      case (snoc as' y)
      have "threads c (as' @ y # x # bs)" "distinct (map fst (as' @ y # x # bs))" using ch xs snoc by (simp_all add: chain_def)
      from promote_ok [OF this] spec_promote_split [OF this(2)] obtain c'
        where p: "promote (fst x) (fst y) c = Some c'" "threads c' (spec_promote key xs)" "same_frame c c'"
          "spec_promote key xs = as' @ x # y # bs" using xs snoc k by auto
      have "fst ` set (tc_index c') = fst ` set (tc_index c)" using p(3) unfolding same_frame_def by (metis set_map)
      then have "chain c' (spec_promote key xs)" using ch p xs snoc by (auto simp: chain_def same_frame_def)
      then show ?thesis using False Some m n snoc p k by (simp add: cache_lookup_def spec_lookup_def split_def same_frame_def same_limits_def)
    qed
  qed
qed

subsection \<open>Properties\<close>

text \<open>C38. The pointer structure implements its contract: on a well-linked cache, inserting and looking up
  always return, keep the links, the table and the byte count consistent, and change the list of
  entries as the contract says: expired entries go from the cold end first, a replaced or admitted
  entry goes to the cold end, evictions come from the cold end, and a hit moves one step up.\<close>

theorem token_cache_refines:
  assumes "chain c xs"
  shows "(\<exists>c'. cache_insert key v expiry now now' c = Some c' \<and> same_limits c c'
      \<and> chain c' (spec_insert (tc_capacity c) (tc_max_bytes c) (tc_max_purge c) key v expiry now now' xs))
    \<and> (\<exists>c'. cache_lookup key now c = Some (fst (spec_lookup key now xs), c') \<and> same_limits c c'
      \<and> chain c' (snd (spec_lookup key now xs)))"
  using insert_ok [OF assms] lookup_ok [OF assms] by blast

lemma chain_new: "chain (new_TokenCache cap mb mp) []"
  by (simp add: chain_def threads_def new_TokenCache_def)

theorem token_cache_refines_witness:
  "\<exists>c'. cache_insert ''k'' ''u'' 100 5 6 (new_TokenCache 2 64 0) = Some c' \<and> chain c' [(''k'', ''u'', 100)]"
proof -
  have "spec_insert 2 64 0 ''k'' ''u'' 100 5 6 [] = [(''k'', ''u'', 100)]"
    by (simp add: spec_insert_def spec_purge.simps spec_evict.simps without_def EntryBytes_def)
  then show ?thesis using token_cache_refines [OF chain_new, of "''k''" "''u''" 100 5 6 2 64 0] by (auto simp: new_TokenCache_def)
qed

lemma spec_purge_prefix: "\<exists>zs. xs = spec_purge now left xs @ zs"
proof (induction now left xs rule: spec_purge.induct)
  case (1 now left xs)
  show ?case
  proof (cases "xs \<noteq> [] \<and> now \<ge> snd (snd (last xs))")
    case True
    then have x: "xs = butlast xs @ [last xs]" by simp
    show ?thesis
    proof (cases "left = 1")
      case False
      with 1 True obtain zs where "butlast xs = spec_purge now (left - 1) (butlast xs) @ zs" by blast
      then have "xs = spec_purge now (left - 1) (butlast xs) @ zs @ [last xs]" using x by (metis append.assoc)
      with True False show ?thesis by (subst spec_purge.simps) auto
    qed (use True x in \<open>subst spec_purge.simps, auto intro: exI [of _ "[last xs]"]\<close>)
  qed (subst spec_purge.simps, auto)
qed

lemma cost_append [simp]: "cost (xs @ ys) = cost xs + cost ys" "cost [x] = EntryBytes (fst x) (fst (snd x))" "cost [] = 0"
  by (simp_all add: cost_def)

lemma cost_prefix: "(\<exists>zs. xs = ys @ zs) \<Longrightarrow> cost ys \<le> cost xs \<and> length ys \<le> length xs"
  by auto

lemma cost_without: "cost (without k xs) \<le> cost xs \<and> length (without k xs) \<le> length xs"
  unfolding without_def cost_def by (intro conjI length_filter_le, induction xs) auto

lemma spec_insert_bounds:
  assumes len: "length xs \<le> cap" and bytes: "mb \<noteq> 0 \<longrightarrow> cost xs \<le> mb"
  shows "length (spec_insert cap mb mp key v expiry now now' xs) \<le> cap
    \<and> (mb \<noteq> 0 \<longrightarrow> cost (spec_insert cap mb mp key v expiry now now' xs) \<le> mb)"
proof (cases "cap = 0 \<or> expiry \<le> now")
  case False
  let ?ys = "without key (spec_purge now' mp xs)"
  let ?zs = "spec_evict (\<lambda>zs. length zs \<ge> cap) ?ys"
  let ?us = "spec_evict (\<lambda>zs. mb \<noteq> 0 \<and> cost zs + EntryBytes key v > mb) ?zs"
  have ys: "cost ?ys \<le> cost xs \<and> length ?ys \<le> length xs"
    using cost_without [of key "spec_purge now' mp xs"] cost_prefix [OF spec_purge_prefix [of xs now' mp]] by linarith
  have "length ?us \<le> length ?zs" using cost_prefix [OF spec_evict_prefix] by blast
  moreover have "length ?zs < cap" using spec_evict_done [of "\<lambda>zs. length zs \<ge> cap" ?ys] False by auto
  moreover have "cost ?us + EntryBytes key v \<le> mb" if "mb \<noteq> 0" "EntryBytes key v \<le> mb"
    using spec_evict_done [of "\<lambda>zs. mb \<noteq> 0 \<and> cost zs + EntryBytes key v > mb" ?zs] that by auto
  ultimately show ?thesis using False ys assms by (auto simp: spec_insert_def Let_def)
qed (use assms in \<open>auto simp: spec_insert_def\<close>)

text \<open>C39. The cache stays within its budgets and never serves a dead credential: after an insert there
  are at most \<open>capacity\<close> entries and, with a byte budget, at most that many bytes; a live insert that
  fits is found by a lookup before it expires; and whatever a lookup returns was stored under that
  key with an expiry still ahead.\<close>

theorem token_cache_bounded:
  assumes ch: "chain c xs" and size: "cache_size c \<le> tc_capacity c" and bytes: "tc_max_bytes c \<noteq> 0 \<longrightarrow> tc_bytes c \<le> tc_max_bytes c"
    and ins: "cache_insert key v expiry now now' c = Some c1"
  shows "cache_size c1 \<le> tc_capacity c \<and> (tc_max_bytes c \<noteq> 0 \<longrightarrow> tc_bytes c1 \<le> tc_max_bytes c)
    \<and> (0 < tc_capacity c \<and> now < expiry \<and> (tc_max_bytes c = 0 \<or> EntryBytes key v \<le> tc_max_bytes c) \<and> t < expiry
        \<longrightarrow> map_option fst (cache_lookup key t c1) = Some (Some v))
    \<and> (\<forall>k w c2. cache_lookup k t c = Some (Some w, c2) \<longrightarrow> (\<exists>e. (k, w, e) \<in> set xs \<and> t < e))"
proof -
  let ?xs = "spec_insert (tc_capacity c) (tc_max_bytes c) (tc_max_purge c) key v expiry now now' xs"
  have c1: "chain c1 ?xs" using insert_ok [OF ch, of key v expiry now now'] ins by auto
  note B = spec_insert_bounds [of xs "tc_capacity c" "tc_max_bytes c" "tc_max_purge c" key v expiry now now']
  have "cache_size c1 \<le> tc_capacity c \<and> (tc_max_bytes c \<noteq> 0 \<longrightarrow> tc_bytes c1 \<le> tc_max_bytes c)"
    using B size bytes chain_length [OF ch] chain_length [OF c1] chain_cost [OF ch] chain_cost [OF c1] by (simp add: cache_size_def)
  moreover have "map_option fst (cache_lookup key t c1) = Some (Some v)"
    if "0 < tc_capacity c" "now < expiry" "tc_max_bytes c = 0 \<or> EntryBytes key v \<le> tc_max_bytes c" "t < expiry"
  proof -
    have "(key, v, expiry) \<in> set ?xs" using that by (auto simp: spec_insert_def Let_def)
    then have "map_of ?xs key = Some (v, expiry)" using c1 by (simp add: chain_def)
    then have "fst (spec_lookup key t ?xs) = Some v" using that by (simp add: spec_lookup_def)
    then show ?thesis using lookup_ok [OF c1, of key t] by auto
  qed
  moreover have "\<exists>e. (k, w, e) \<in> set xs \<and> t < e" if "cache_lookup k t c = Some (Some w, c2)" for k w c2
  proof -
    have "fst (spec_lookup k t xs) = Some w" using lookup_ok [OF ch, of k t] that by auto
    then obtain e where "map_of xs k = Some (w, e)" "\<not> e \<le> t" by (auto simp: spec_lookup_def split: option.splits if_splits)
    then show ?thesis using map_of_SomeD [of xs k "(w, e)"] by force
  qed
  ultimately show ?thesis by blast
qed

theorem token_cache_bounded_witness:
  "\<exists>c1. cache_insert ''k'' ''u'' 100 5 6 (new_TokenCache 2 64 0) = Some c1 \<and> cache_size c1 \<le> 2 \<and> tc_bytes c1 \<le> 64
    \<and> map_option fst (cache_lookup ''k'' 50 c1) = Some (Some ''u'')"
proof -
  obtain c1 where c1: "cache_insert ''k'' ''u'' 100 5 6 (new_TokenCache 2 64 0) = Some c1" using insert_ok [OF chain_new] by blast
  then show ?thesis using token_cache_bounded [OF chain_new _ _ c1, of 50] by (simp add: new_TokenCache_def cache_size_def EntryBytes_def)
qed

end
