(* ===== verification/Ws_Handshake.thy ===== *)
theory Ws_Handshake
  imports Http_Message
begin

section \<open>SHA-1, Base64 and the WebSocket handshake (util/sha1.cc, util/base64.cc, net/ws\_handshake.cc)\<close>

text \<open>
  The opening handshake answers the client's key with the Base64 encoding of a SHA-1 digest.
  Digest state and message words are 32-bit words, so additions wrap as in the source.
\<close>

subsection \<open>SHA-1\<close>

definition Rotl :: "32 word \<Rightarrow> nat \<Rightarrow> 32 word" where
  "Rotl v bits = push_bit bits v OR drop_bit (32 - bits) v"

text \<open>The bytes of the padded message after the data: \<open>total\<close> is the first length past
  \<open>len + 1\<close> that is 56 modulo 64, plus 8.\<close>

definition sha_total :: "nat \<Rightarrow> nat" where
  "sha_total len = len + 1 + (64 + 56 - (len + 1) mod 64) mod 64 + 8"

definition sha_pad :: "bytes \<Rightarrow> bytes" where
  "sha_pad s = s @ [CHR 0x80] @ replicate (sha_total (length s) - length s - 9) CHR 0x00
     @ PutBE (of_nat (length s) * 8) 8"

definition word_at :: "bytes \<Rightarrow> nat \<Rightarrow> 32 word" where
  "word_at s j = push_bit 24 (ucast (byte (s ! j))) OR push_bit 16 (ucast (byte (s ! (j + 1))))
     OR push_bit 8 (ucast (byte (s ! (j + 2)))) OR ucast (byte (s ! (j + 3)))"

fun schedule :: "nat \<Rightarrow> 32 word list \<Rightarrow> 32 word list" where
  "schedule 0 w = w"
| "schedule (Suc n) w =
     (let i = length w in schedule n (w @ [Rotl (w ! (i - 3) XOR w ! (i - 8) XOR w ! (i - 14) XOR w ! (i - 16)) 1]))"

type_synonym sha_state = "32 word \<times> 32 word \<times> 32 word \<times> 32 word \<times> 32 word"

definition sha_f :: "nat \<Rightarrow> 32 word \<Rightarrow> 32 word \<Rightarrow> 32 word \<Rightarrow> 32 word \<times> 32 word" where
  "sha_f i b c d =
     (if i < 20 then ((b AND c) OR (NOT b AND d), 0x5A827999)
      else if i < 40 then (b XOR c XOR d, 0x6ED9EBA1)
      else if i < 60 then ((b AND c) OR (b AND d) OR (c AND d), 0x8F1BBCDC)
      else (b XOR c XOR d, 0xCA62C1D6))"

definition sha_round :: "nat \<Rightarrow> 32 word \<Rightarrow> sha_state \<Rightarrow> sha_state" where
  "sha_round i w = (\<lambda>(a, b, c, d, e).
     let (f, k) = sha_f i b c d; tmp = Rotl a 5 + f + e + k + w
     in (tmp, a, Rotl b 30, c, d))"

fun sha_rounds :: "nat \<Rightarrow> 32 word list \<Rightarrow> sha_state \<Rightarrow> sha_state" where
  "sha_rounds i [] st = st"
| "sha_rounds i (w # ws) st = sha_rounds (Suc i) ws (sha_round i w st)"

definition sha_block :: "bytes \<Rightarrow> sha_state \<Rightarrow> sha_state" where
  "sha_block blk st =
     (let w = schedule 64 (map (\<lambda>i. word_at blk (4 * i)) [0..<16]);
          (h0, h1, h2, h3, h4) = st; (a, b, c, d, e) = sha_rounds 0 w st
      in (h0 + a, h1 + b, h2 + c, h3 + d, h4 + e))"

fun sha_blocks :: "nat \<Rightarrow> bytes \<Rightarrow> sha_state \<Rightarrow> sha_state" where
  "sha_blocks 0 s st = st"
| "sha_blocks (Suc n) s st = sha_blocks n (drop 64 s) (sha_block (take 64 s) st)"

definition sha_init :: sha_state where
  "sha_init = (0x67452301, 0xEFCDAB89, 0x98BADCFE, 0x10325476, 0xC3D2E1F0)"

definition Sha1 :: "bytes \<Rightarrow> bytes" where
  "Sha1 s =
     (let (h0, h1, h2, h3, h4) = sha_blocks (sha_total (length s) div 64) (sha_pad s) sha_init
      in concat (map (\<lambda>h. map (\<lambda>k. chr (ucast (drop_bit k h AND 0xFF))) [24, 16, 8, 0]) [h0, h1, h2, h3, h4]))"

definition hex_char :: "nat \<Rightarrow> char" where
  "hex_char n = ''0123456789abcdef'' ! n"

definition Sha1Hex :: "bytes \<Rightarrow> string" where
  "Sha1Hex d = concat (map (\<lambda>c. [hex_char (unat (drop_bit 4 (byte c))), hex_char (unat (byte c AND 0x0F))]) d)"

subsection \<open>Base64\<close>

definition kAlphabet :: string where
  "kAlphabet = ''ABCDEFGHIJKLMNOPQRSTUVWXYZabcdefghijklmnopqrstuvwxyz0123456789+/''"

definition sextet :: "32 word \<Rightarrow> nat \<Rightarrow> char" where
  "sextet n k = kAlphabet ! unat (drop_bit k n AND 0x3F)"

fun Base64Encode :: "bytes \<Rightarrow> string" where
  "Base64Encode (a # b # c # s) =
     (let n = push_bit 16 (ucast (byte a)) OR push_bit 8 (ucast (byte b)) OR ucast (byte c)
      in [sextet n 18, sextet n 12, sextet n 6, sextet n 0] @ Base64Encode s)"
| "Base64Encode [a, b] =
     (let n = push_bit 16 (ucast (byte a)) OR push_bit 8 (ucast (byte b))
      in [sextet n 18, sextet n 12, sextet n 6, CHR ''=''])"
| "Base64Encode [a] =
     (let n = push_bit 16 (ucast (byte a)) in [sextet n 18, sextet n 12, CHR ''='', CHR ''=''])"
| "Base64Encode [] = []"

subsection \<open>The handshake\<close>

definition kWsGuid :: string where
  "kWsGuid = ''258EAFA5-E914-47DA-95CA-C5AB0DC85B11''"

definition IContains :: "string \<Rightarrow> string \<Rightarrow> bool" where
  "IContains haystack needle \<longleftrightarrow> find_str needle (map to_lower haystack) \<noteq> None"

definition WsComputeAcceptKey :: "string \<Rightarrow> string" where
  "WsComputeAcceptKey client_key = Base64Encode (Sha1 (client_key @ kWsGuid))"

definition WsIsUpgradeRequest :: "HttpRequest \<Rightarrow> string option" where
  "WsIsUpgradeRequest req =
     (case (header ''Upgrade'' req, header ''Connection'' req, header ''Sec-WebSocket-Key'' req, header ''Sec-WebSocket-Version'' req) of
        (Some upgrade, Some connection, Some key, Some version) \<Rightarrow>
          if \<not> IEquals upgrade ''websocket'' then None
          else if \<not> IContains connection ''upgrade'' then None
          else if version \<noteq> ''13'' then None
          else if key = [] then None
          else Some key
      | _ \<Rightarrow> None)"

definition WsBuildHandshakeResponse :: "string \<Rightarrow> bytes" where
  "WsBuildHandshakeResponse client_key =
     ''HTTP/1.1 101 Switching Protocols'' @ crlf @ ''Upgrade: websocket'' @ crlf @ ''Connection: Upgrade'' @ crlf
     @ ''Sec-WebSocket-Accept: '' @ WsComputeAcceptKey client_key @ crlf @ crlf"

subsection \<open>Shapes\<close>

lemma sha_total_blocks: "sha_total len mod 64 = 0 \<and> len + 9 \<le> sha_total len \<and> sha_total len < len + 73"
proof -
  define m q where "m = (len + 1) mod 64" and "q = (len + 1) div 64"
  have len: "len + 1 = 64 * q + m" and m: "m < 64" by (simp_all add: m_def q_def)
  have pad: "(64 + 56 - m) mod 64 = (if m \<le> 56 then 56 - m else 120 - m)" using m by (auto simp: mod_if)
  then have "sha_total len = 64 * (if m \<le> 56 then q + 1 else q + 2)"
    unfolding sha_total_def m_def [symmetric] using len m by auto
  moreover have "len + 9 \<le> sha_total len" "sha_total len < len + 73"
    unfolding sha_total_def m_def [symmetric] using m by (simp_all add: pad)
  ultimately show ?thesis by simp
qed

lemma length_sha_pad: "length (sha_pad s) = sha_total (length s)"
  using sha_total_blocks [of "length s"] by (simp add: sha_pad_def)

lemma length_Sha1: "length (Sha1 s) = 20"
  by (simp add: Sha1_def split_def Let_def)

lemma sextet_alphabet: "sextet n k \<in> set kAlphabet"
proof -
  have "drop_bit k n AND 0x3F = take_bit 6 (drop_bit k n)" by (simp add: take_bit_eq_mask mask_eq_exp_minus_1)
  then have "unat (drop_bit k n AND 0x3F) = take_bit 6 (unat (drop_bit k n))" by (simp only: unsigned_take_bit_eq)
  then have "unat (drop_bit k n AND 0x3F) < 64" by (simp add: take_bit_eq_mod)
  moreover have "length kAlphabet = 64" by (simp add: kAlphabet_def)
  ultimately show ?thesis unfolding sextet_def by (intro nth_mem) simp
qed

lemma Base64_alphabet: "set (Base64Encode s) \<subseteq> insert CHR ''='' (set kAlphabet)"
  by (induction s rule: Base64Encode.induct) (auto simp: Let_def sextet_alphabet)

lemma length_Base64: "length (Base64Encode s) = 4 * ((length s + 2) div 3)"
proof (induction s rule: Base64Encode.induct)
  case (1 a b c s)
  have "(5 + length s) div 3 = (length s + 2) div 3 + 1" by simp
  with 1 show ?case by (simp add: Let_def)
qed (simp_all add: Let_def)

subsection \<open>Properties\<close>

text \<open>The handshake response cannot be shaped by the client: whatever key the request carries, the
  padded message is a whole number of blocks, the digest has twenty bytes, and the response is the
  fixed status line and headers with exactly twenty-eight characters of the Base64 alphabet, so no
  line break, colon or space of the client's reaches the response.\<close>

lemma handshake_shape:
  "\<exists>key. WsBuildHandshakeResponse client_key = ''HTTP/1.1 101 Switching Protocols'' @ crlf @ ''Upgrade: websocket'' @ crlf
       @ ''Connection: Upgrade'' @ crlf @ ''Sec-WebSocket-Accept: '' @ key @ crlf @ crlf
     \<and> length key = 28 \<and> set key \<subseteq> insert CHR ''='' (set kAlphabet)
     \<and> length (sha_pad (client_key @ kWsGuid)) mod 64 = 0 \<and> length (Sha1 (client_key @ kWsGuid)) = 20"
proof -
  have "length (WsComputeAcceptKey client_key) = 28" by (simp add: WsComputeAcceptKey_def length_Base64 length_Sha1)
  moreover have "set (WsComputeAcceptKey client_key) \<subseteq> insert CHR ''='' (set kAlphabet)"
    unfolding WsComputeAcceptKey_def by (rule Base64_alphabet)
  moreover have "length (sha_pad (client_key @ kWsGuid)) mod 64 = 0" using sha_total_blocks by (simp add: length_sha_pad)
  ultimately show ?thesis unfolding WsBuildHandshakeResponse_def by (intro exI [of _ "WsComputeAcceptKey client_key"]) (simp add: length_Sha1)
qed

end
