(* ===== verification/Io.thy ===== *)
theory Io
  imports Bytes
begin

section \<open>Non-blocking reads and writes\<close>

text \<open>
  Every connection of the program drains its descriptor in the same two loops. The results of the
  system calls are inputs of the model: a list of what successive \<open>read\<close> and \<open>write\<close>
  calls return; where the list ends, the call would block (EAGAIN). A buffer appears as
  the bytes it holds (\<open>Byte_Buffer\<close> proves that it is that queue).
\<close>

datatype ReadResult = ReadSome bytes | ReadIntr | ReadAgain | ReadFail

datatype WriteResult = WroteSome nat | WriteIntr | WriteAgain | WriteFail

datatype ReadEnd = Blocked | Eof | Failed

text \<open>A read that returns no byte is the end of the stream.\<close>

fun read_loop :: "ReadResult list \<Rightarrow> bytes \<Rightarrow> bytes \<times> ReadEnd" where
  "read_loop [] b = (b, Blocked)"
| "read_loop (ReadSome s # rs) b = (if s = [] then (b, Eof) else read_loop rs (b @ s))"
| "read_loop (ReadIntr # rs) b = read_loop rs b"
| "read_loop (ReadAgain # rs) b = (b, Blocked)"
| "read_loop (ReadFail # rs) b = (b, Failed)"

text \<open>What is left to write and whether the descriptor failed. A write that takes no byte is a failure.\<close>

fun write_loop :: "WriteResult list \<Rightarrow> bytes \<Rightarrow> bytes \<times> bool" where
  "write_loop ws [] = ([], False)"
| "write_loop [] out = (out, False)"
| "write_loop (WroteSome n # ws) out = (if n > 0 then write_loop ws (drop n out) else (out, True))"
| "write_loop (WriteIntr # ws) out = write_loop ws out"
| "write_loop (WriteAgain # ws) out = (out, False)"
| "write_loop (WriteFail # ws) out = (out, True)"

lemma read_loop_chunks: "list_all (\<lambda>s. s \<noteq> []) cs \<Longrightarrow> read_loop (map ReadSome cs) b = (b @ concat cs, Blocked)"
  by (induction cs arbitrary: b) simp_all

lemma write_loop_Nil [simp]: "write_loop [] out = (out, False)"
  by (cases out) simp_all

lemma write_loop_suffix: "\<exists>sent. out = sent @ fst (write_loop ws out)"
proof (induction ws out rule: write_loop.induct)
  case (3 n ws v va)
  then show ?case by (cases "n > 0") (auto, metis append.assoc append_take_drop_id)
qed auto

end
