(* ===== verification/Websocket.thy ===== *)
theory Websocket
  imports Io Ws_Frame Ws_Handshake Http_Parser
begin

section \<open>WebSocket connections (net/websocket.h, net/websocket.cc)\<close>

text \<open>
  One connection: the HTTP upgrade, then frames, with reassembly of fragmented messages. The owner's
  callbacks \<open>on_message\<close> and \<open>on_open\<close> are parameters of the model: functions on the
  connection, through which the owner may queue replies or begin closing. \<open>ws_log\<close> records
  the messages handed to \<open>on_message\<close> and \<open>close_calls\<close> how often the owner was told to
  tear the connection down. System call results are arguments (theory \<open>Io\<close>).
\<close>

definition kMaxFramePayload :: nat where
  "kMaxFramePayload = 16 * 1024 * 1024"

definition kMaxMessageBytes :: nat where
  "kMaxMessageBytes = 64 * 1024 * 1024"

record WsConnection =
  ws_fd :: int
  ws_id :: nat
  ws_aggregator :: bool
  ws_in :: bytes
  ws_out :: bytes
  handshake_parser :: HttpRequestParser
  ws_open :: bool
  ws_write_enabled :: bool
  ws_closing :: bool
  ws_closed :: bool
  ws_assembling :: bool
  assembling_binary :: bool
  ws_assembly :: bytes
  ws_log :: "(bool \<times> bytes) list"
  close_calls :: nat

type_synonym ws_message_fn = "bool \<Rightarrow> bytes \<Rightarrow> WsConnection \<Rightarrow> WsConnection"
type_synonym ws_open_fn = "HttpRequest \<Rightarrow> WsConnection \<Rightarrow> WsConnection"

definition new_WsConnection :: "int \<Rightarrow> nat \<Rightarrow> bool \<Rightarrow> WsConnection" where
  "new_WsConnection fd i aggregator = \<lparr>ws_fd = fd, ws_id = i, ws_aggregator = aggregator, ws_in = [], ws_out = [],
     handshake_parser = new_HttpRequestParser (64 * 1024) (8 * 1024 * 1024), ws_open = False, ws_write_enabled = False,
     ws_closing = False, ws_closed = False, ws_assembling = False, assembling_binary = False, ws_assembly = [],
     ws_log = [], close_calls = 0\<rparr>"

definition ws_queue :: "bytes \<Rightarrow> WsConnection \<Rightarrow> WsConnection" where
  "ws_queue s c = c\<lparr>ws_out := ws_out c @ s\<rparr>"

definition ws_close :: "WsConnection \<Rightarrow> WsConnection" where
  "ws_close c = (if ws_closed c then c else c\<lparr>ws_closed := True, close_calls := Suc (close_calls c)\<rparr>)"

definition ws_want_write :: "bool \<Rightarrow> WsConnection \<Rightarrow> WsConnection" where
  "ws_want_write on c = (if on = ws_write_enabled c then c else c\<lparr>ws_write_enabled := on\<rparr>)"

definition ws_on_writable :: "WriteResult list \<Rightarrow> WsConnection \<Rightarrow> WsConnection" where
  "ws_on_writable ws c =
     (let (out, failed) = write_loop ws (ws_out c); c1 = c\<lparr>ws_out := out\<rparr>
      in if failed then ws_close c1
         else if out = []
         then let c2 = ws_want_write False c1 in if ws_closing c2 then ws_close c2 else c2
         else c1)"

definition send_text :: "WriteResult list \<Rightarrow> bytes \<Rightarrow> WsConnection \<Rightarrow> WsConnection" where
  "send_text ws s c = ws_on_writable ws (ws_want_write True (ws_queue (EncodeWsFrame kText s True None) c))"

definition send_binary :: "WriteResult list \<Rightarrow> bytes \<Rightarrow> WsConnection \<Rightarrow> WsConnection" where
  "send_binary ws s c = ws_on_writable ws (ws_want_write True (ws_queue (EncodeWsFrame kBinary s True None) c))"

definition send_close :: "WriteResult list \<Rightarrow> 16 word \<Rightarrow> bytes \<Rightarrow> WsConnection \<Rightarrow> WsConnection" where
  "send_close ws code reason c =
     ws_on_writable ws (ws_want_write True
       ((ws_queue (EncodeWsFrame kClose ([chr (ucast (drop_bit 8 code AND 0xFF)), chr (ucast (code AND 0xFF))] @ reason) True None) c)
          \<lparr>ws_closing := True\<rparr>))"

definition deliver :: "ws_message_fn \<Rightarrow> bool \<Rightarrow> bytes \<Rightarrow> WsConnection \<Rightarrow> WsConnection" where
  "deliver on_message is_binary s c = on_message is_binary s (c\<lparr>ws_log := ws_log c @ [(is_binary, s)]\<rparr>)"

definition handle_frame :: "ws_message_fn \<Rightarrow> WsFrame \<Rightarrow> WsConnection \<Rightarrow> WsConnection" where
  "handle_frame on_message frame c =
     (case ws_opcode frame of
        kPing \<Rightarrow> ws_queue (EncodeWsFrame kPong (ws_payload frame) True None) c
      | kPong \<Rightarrow> c
      | kClose \<Rightarrow> (ws_queue (EncodeWsFrame kClose (ws_payload frame) True None) c)\<lparr>ws_closing := True\<rparr>
      | kContinuation \<Rightarrow>
          if \<not> ws_assembling c then ws_close c
          else if length (ws_assembly c) + length (ws_payload frame) > kMaxMessageBytes then ws_close c
          else let c1 = c\<lparr>ws_assembly := ws_assembly c @ ws_payload frame\<rparr>
               in if ws_fin frame
                  then (deliver on_message (assembling_binary c1) (ws_assembly c1) (c1\<lparr>ws_assembling := False\<rparr>))\<lparr>ws_assembly := []\<rparr>
                  else c1
      | data \<Rightarrow>
          if ws_assembling c then ws_close c
          else let is_binary = (data = kBinary)
               in if ws_fin frame then deliver on_message is_binary (ws_payload frame) c
                  else c\<lparr>ws_assembling := True, assembling_binary := is_binary, ws_assembly := ws_payload frame\<rparr>)"

definition frames_step :: "ws_message_fn \<Rightarrow> WsConnection \<Rightarrow> (WsConnection + WsConnection) option" where
  "frames_step on_message c =
     (case DecodeWsFrame kMaxFramePayload True (ws_in c) of
        kIncomplete \<Rightarrow> Some (Inr c)
      | kError err \<Rightarrow> Some (Inr (ws_close c))
      | kComplete frame n \<Rightarrow>
          let c1 = handle_frame on_message frame (c\<lparr>ws_in := drop n (ws_in c)\<rparr>)
          in if ws_closed c1 \<or> ws_closing c1 then Some (Inr c1) else Some (Inl c1))"

definition process_frames :: "ws_message_fn \<Rightarrow> WsConnection \<Rightarrow> WsConnection option" where
  "process_frames on_message c = iter (frames_step on_message) c"

definition bad_upgrade :: bytes where
  "bad_upgrade = ''HTTP/1.1 400 Bad Request'' @ crlf @ ''Content-Length: 0'' @ crlf @ ''Connection: close'' @ crlf @ crlf"

definition do_handshake :: "ws_open_fn \<Rightarrow> WsConnection \<Rightarrow> WsConnection option" where
  "do_handshake on_open c = do {
     (r, p, v) \<leftarrow> http_parse (handshake_parser c) (ws_in c);
     let c1 = c\<lparr>handshake_parser := p, ws_in := v\<rparr>;
     Some (case r of
             pIncomplete \<Rightarrow> c1
           | pError \<Rightarrow> ws_close c1
           | pComplete \<Rightarrow>
               (case WsIsUpgradeRequest (hp_request p) of
                  None \<Rightarrow> (ws_queue bad_upgrade c1)\<lparr>ws_closing := True\<rparr>
                | Some key \<Rightarrow> on_open (hp_request p) ((ws_queue (WsBuildHandshakeResponse key) c1)\<lparr>ws_open := True\<rparr>)))
   }"

definition ws_on_readable :: "ws_message_fn \<Rightarrow> ws_open_fn \<Rightarrow> ReadResult list \<Rightarrow> WriteResult list \<Rightarrow> WsConnection \<Rightarrow> WsConnection option" where
  "ws_on_readable on_message on_open rs ws c =
     (let (v, e) = read_loop rs (ws_in c); c1 = c\<lparr>ws_in := v\<rparr>
      in if e \<noteq> Blocked then Some (ws_close c1)
         else do {
           c2 \<leftarrow> (if ws_open c1 then Some c1 else do_handshake on_open c1);
           if ws_closed c2 then Some c2
           else do {
             c3 \<leftarrow> (if ws_open c2 then process_frames on_message c2 else Some c2);
             if ws_closed c3 then Some c3
             else if ws_out c3 \<noteq> [] then Some (ws_on_writable ws (ws_want_write True c3)) else Some c3
           }
         })"

definition ws_on_io_ready :: "ws_message_fn \<Rightarrow> ws_open_fn \<Rightarrow> bool \<Rightarrow> bool \<Rightarrow> bool \<Rightarrow> ReadResult list \<Rightarrow> WriteResult list \<Rightarrow> WriteResult list
    \<Rightarrow> WsConnection \<Rightarrow> WsConnection option" where
  "ws_on_io_ready on_message on_open readable writable failed rs ws ws' c = do {
     c1 \<leftarrow> (if readable then ws_on_readable on_message on_open rs ws c else Some c);
     if readable \<and> ws_closed c1 then Some c1
     else let c2 = (if writable then ws_on_writable ws' c1 else c1)
          in if writable \<and> ws_closed c2 then Some c2
             else Some (if failed then ws_close c2 else c2)
   }"

subsection \<open>The server's table of connections\<close>

text \<open>Closing a connection removes it from the event loop at once and from the table later, from the
  loop's deferred work; \<open>closed_ids\<close> are the ids reported to \<open>on_close\<close>.\<close>

record WsServer =
  ws_conns :: "(int \<times> WsConnection) list"
  ws_next_conn_id :: nat
  ws_deferred :: "int list"
  closed_ids :: "nat list"

definition new_WsServer :: WsServer where
  "new_WsServer = \<lparr>ws_conns = [], ws_next_conn_id = 1, ws_deferred = [], closed_ids = []\<rparr>"

definition ws_on_accept :: "int \<Rightarrow> bool \<Rightarrow> bool \<Rightarrow> WsServer \<Rightarrow> WsServer" where
  "ws_on_accept fd aggregator added s =
     (let s1 = s\<lparr>ws_next_conn_id := Suc (ws_next_conn_id s)\<rparr>
      in if \<not> added then s1
         else s1\<lparr>ws_conns := emplace fd (new_WsConnection fd (ws_next_conn_id s) aggregator) (ws_conns s1)\<rparr>)"

definition deliver_text :: "WriteResult list \<Rightarrow> int \<Rightarrow> nat \<Rightarrow> bytes \<Rightarrow> WsServer \<Rightarrow> WsServer" where
  "deliver_text ws fd i s srv =
     (case map_of (ws_conns srv) fd of
        None \<Rightarrow> srv
      | Some c \<Rightarrow> if ws_id c \<noteq> i then srv
                  else srv\<lparr>ws_conns := AList.update fd (send_text ws s c) (ws_conns srv)\<rparr>)"

definition ws_close_connection :: "int \<Rightarrow> WsServer \<Rightarrow> WsServer" where
  "ws_close_connection fd srv =
     (let s1 = (case map_of (ws_conns srv) fd of None \<Rightarrow> srv | Some c \<Rightarrow> srv\<lparr>closed_ids := closed_ids srv @ [ws_id c]\<rparr>)
      in s1\<lparr>ws_deferred := ws_deferred s1 @ [fd]\<rparr>)"

definition ws_run_deferred :: "WsServer \<Rightarrow> WsServer" where
  "ws_run_deferred srv = srv\<lparr>ws_conns := fold AList.delete (ws_deferred srv) (ws_conns srv), ws_deferred := []\<rparr>"

subsection \<open>Reassembly\<close>

text \<open>What the owner's message callback leaves alone: the input, the state of the reassembly, and whether
  the connection is closing. Queueing replies does.\<close>

definition keeps :: "ws_message_fn \<Rightarrow> bool" where
  "keeps f \<longleftrightarrow> (\<forall>b s c. let c' = f b s c in ws_in c' = ws_in c \<and> ws_assembling c' = ws_assembling c
     \<and> ws_log c' = ws_log c \<and> ws_closed c' = ws_closed c \<and> ws_closing c' = ws_closing c \<and> ws_open c' = ws_open c)"

text \<open>A message as a client sends it: fragments, each after any number of pings, every frame with its
  own masking key.\<close>

type_synonym fragment = "(bytes \<times> bytes) list \<times> bytes \<times> bytes"

definition ping_frame :: "bytes \<times> bytes \<Rightarrow> bytes option \<times> WsFrame" where
  "ping_frame = (\<lambda>(k, s). (Some k, \<lparr>ws_fin = True, ws_opcode = kPing, ws_payload = s\<rparr>))"

definition data_frame :: "bool \<Rightarrow> bool \<Rightarrow> bool \<Rightarrow> bytes \<Rightarrow> bytes \<Rightarrow> bytes option \<times> WsFrame" where
  "data_frame first fin b k s =
     (Some k, \<lparr>ws_fin = fin, ws_opcode = (if \<not> first then kContinuation else if b then kBinary else kText), ws_payload = s\<rparr>)"

fun fragment_frames :: "bool \<Rightarrow> bool \<Rightarrow> fragment list \<Rightarrow> (bytes option \<times> WsFrame) list" where
  "fragment_frames first b [] = []"
| "fragment_frames first b ((ps, k, s) # fs) = map ping_frame ps @ data_frame first (fs = []) b k s # fragment_frames False b fs"

definition message_bytes :: "fragment list \<Rightarrow> bytes" where
  "message_bytes fs = concat (map (\<lambda>f. snd (snd f)) fs)"

definition message_ok :: "bool \<times> fragment list \<Rightarrow> bool" where
  "message_ok = (\<lambda>(b, fs). fs \<noteq> [] \<and> length (message_bytes fs) \<le> kMaxMessageBytes
     \<and> list_all (ws_ok kMaxFramePayload True) (fragment_frames True b fs))"

definition message_wire :: "bool \<times> fragment list \<Rightarrow> bytes" where
  "message_wire = (\<lambda>(b, fs). concat (map ws_encode (fragment_frames True b fs)))"

definition at_rest :: "bytes \<Rightarrow> (bool \<times> bytes) list \<Rightarrow> WsConnection \<Rightarrow> bool" where
  "at_rest v l c \<longleftrightarrow> ws_in c = v \<and> ws_log c = l \<and> \<not> ws_assembling c \<and> \<not> ws_closed c \<and> \<not> ws_closing c \<and> ws_open c"

definition half_way :: "bytes \<Rightarrow> (bool \<times> bytes) list \<Rightarrow> bool \<Rightarrow> bytes \<Rightarrow> WsConnection \<Rightarrow> bool" where
  "half_way v l b a c \<longleftrightarrow> ws_in c = v \<and> ws_log c = l \<and> ws_assembling c \<and> assembling_binary c = b \<and> ws_assembly c = a
     \<and> \<not> ws_closed c \<and> \<not> ws_closing c \<and> ws_open c"

lemma frame_step:
  assumes "ws_ok kMaxFramePayload True kf" "ws_in c = ws_encode kf @ v"
    "\<not> ws_closed (handle_frame f (snd kf) (c\<lparr>ws_in := v\<rparr>))" "\<not> ws_closing (handle_frame f (snd kf) (c\<lparr>ws_in := v\<rparr>))"
  shows "process_frames f c = process_frames f (handle_frame f (snd kf) (c\<lparr>ws_in := v\<rparr>))"
proof -
  have "DecodeWsFrame kMaxFramePayload True (ws_in c) = kComplete (snd kf) (length (ws_encode kf))"
    using ws_decode_whole [of kMaxFramePayload True "fst kf" "snd kf" v] assms(1,2) by simp
  then have "frames_step f c = Some (Inl (handle_frame f (snd kf) (c\<lparr>ws_in := v\<rparr>)))"
    using assms by (simp add: frames_step_def Let_def)
  then show ?thesis unfolding process_frames_def by simp
qed

lemma ping_step:
  assumes "list_all (ws_ok kMaxFramePayload True) (map ping_frame ps)"
  shows "at_rest (concat (map ws_encode (map ping_frame ps)) @ v) l c \<Longrightarrow> \<exists>c'. process_frames f c = process_frames f c' \<and> at_rest v l c'"
    and "half_way (concat (map ws_encode (map ping_frame ps)) @ v) l b a c \<Longrightarrow> \<exists>c'. process_frames f c = process_frames f c' \<and> half_way v l b a c'"
  using assms
proof (induction ps arbitrary: c)
  case (Cons p ps)
  let ?v = "concat (map ws_encode (map ping_frame ps)) @ v"
  have h: "handle_frame f (snd (ping_frame p)) d = ws_queue (EncodeWsFrame kPong (snd p) True None) d" for d
    by (simp add: handle_frame_def ping_frame_def split_def)
  {
    case 1
    let ?c = "handle_frame f (snd (ping_frame p)) (c\<lparr>ws_in := ?v\<rparr>)"
    have "at_rest ?v l ?c" using 1 unfolding h by (auto simp: at_rest_def ws_queue_def)
    moreover have "process_frames f c = process_frames f ?c"
      by (rule frame_step) (use 1 h in \<open>simp_all add: at_rest_def ws_queue_def\<close>)
    ultimately show ?case using Cons.IH(1) [of ?c] 1 by simp
  next
    case 2
    let ?c = "handle_frame f (snd (ping_frame p)) (c\<lparr>ws_in := ?v\<rparr>)"
    have "half_way ?v l b a ?c" using 2 unfolding h by (auto simp: half_way_def ws_queue_def)
    moreover have "process_frames f c = process_frames f ?c"
      by (rule frame_step) (use 2 h in \<open>simp_all add: half_way_def ws_queue_def\<close>)
    ultimately show ?case using Cons.IH(2) [of ?c] 2 by simp
  }
qed auto

lemma continue_step:
  assumes "keeps f" "fs \<noteq> []" "length a + length (message_bytes fs) \<le> kMaxMessageBytes"
    "list_all (ws_ok kMaxFramePayload True) (fragment_frames False b fs)"
    "half_way (concat (map ws_encode (fragment_frames False b fs)) @ v) l b a c"
  shows "\<exists>c'. process_frames f c = process_frames f c' \<and> at_rest v (l @ [(b, a @ message_bytes fs)]) c'"
  using assms(2-)
proof (induction fs arbitrary: a c)
  case (Cons fr fs)
  obtain ps k s where fr: "fr = (ps, k, s)" by (cases fr)
  let ?d = "data_frame False (fs = []) b k s" and ?v = "concat (map ws_encode (fragment_frames False b fs)) @ v"
  have ok: "list_all (ws_ok kMaxFramePayload True) (map ping_frame ps)" "ws_ok kMaxFramePayload True ?d"
    "list_all (ws_ok kMaxFramePayload True) (fragment_frames False b fs)"
    using Cons.prems(3) by (simp_all add: fr)
  have len: "length a + length s \<le> kMaxMessageBytes" "length (a @ s) + length (message_bytes fs) \<le> kMaxMessageBytes"
    using Cons.prems(2) by (simp_all add: fr message_bytes_def)
  have "half_way (concat (map ws_encode (map ping_frame ps)) @ ws_encode ?d @ ?v) l b a c"
    using Cons.prems(4) by (simp add: fr)
  from ping_step(2) [OF ok(1) this, of f] obtain c1
    where c1: "process_frames f c = process_frames f c1" "half_way (ws_encode ?d @ ?v) l b a c1" by blast
  let ?c = "handle_frame f (snd ?d) (c1\<lparr>ws_in := ?v\<rparr>)"
  have h: "handle_frame f (snd ?d) d = (let d1 = d\<lparr>ws_assembly := a @ s\<rparr> in
      if fs = [] then (deliver f b (a @ s) (d1\<lparr>ws_assembling := False\<rparr>))\<lparr>ws_assembly := []\<rparr> else d1)"
    if "half_way ?v l b a d" for d
    using that len(1) by (simp add: handle_frame_def data_frame_def half_way_def Let_def)
  have hw: "half_way ?v l b a (c1\<lparr>ws_in := ?v\<rparr>)" using c1(2) by (simp add: half_way_def)
  show ?case
  proof (cases "fs = []")
    case True
    have r: "at_rest v (l @ [(b, a @ s)]) ?c" unfolding h [OF hw] using True hw assms(1)
      by (simp add: Let_def deliver_def at_rest_def half_way_def keeps_def)
    then have "process_frames f c1 = process_frames f ?c"
      by (intro frame_step) (use c1(2) ok(2) in \<open>simp_all add: half_way_def at_rest_def\<close>)
    then show ?thesis using r c1(1) True by (auto simp: fr message_bytes_def)
  next
    case False
    then have r: "half_way ?v l b (a @ s) ?c" unfolding h [OF hw] using hw by (simp add: Let_def half_way_def)
    then have "process_frames f c1 = process_frames f ?c"
      by (intro frame_step) (use c1(2) ok(2) in \<open>simp_all add: half_way_def\<close>)
    then show ?thesis using Cons.IH [OF False len(2) ok(3) r] c1(1) by (simp add: fr message_bytes_def)
  qed
qed simp

lemma message_step:
  assumes "keeps f" "message_ok (b, fs)" "at_rest (message_wire (b, fs) @ v) l c"
  shows "\<exists>c'. process_frames f c = process_frames f c' \<and> at_rest v (l @ [(b, message_bytes fs)]) c'"
proof -
  obtain ps k s fs' where fs: "fs = (ps, k, s) # fs'" using assms(2) by (cases fs) (auto simp: message_ok_def)
  let ?d = "data_frame True (fs' = []) b k s" and ?v = "concat (map ws_encode (fragment_frames False b fs')) @ v"
  have ok: "list_all (ws_ok kMaxFramePayload True) (map ping_frame ps)" "ws_ok kMaxFramePayload True ?d"
    "list_all (ws_ok kMaxFramePayload True) (fragment_frames False b fs')"
    using assms(2) by (simp_all add: fs message_ok_def)
  have "at_rest (concat (map ws_encode (map ping_frame ps)) @ ws_encode ?d @ ?v) l c"
    using assms(3) by (simp add: fs message_wire_def)
  from ping_step(1) [OF ok(1) this, of f] obtain c1
    where c1: "process_frames f c = process_frames f c1" "at_rest (ws_encode ?d @ ?v) l c1" by blast
  let ?c = "handle_frame f (snd ?d) (c1\<lparr>ws_in := ?v\<rparr>)"
  have h: "?c = (if fs' = [] then deliver f b s (c1\<lparr>ws_in := ?v\<rparr>)
      else c1\<lparr>ws_in := ?v, ws_assembling := True, assembling_binary := b, ws_assembly := s\<rparr>)"
    using c1(2) by (simp add: handle_frame_def data_frame_def at_rest_def Let_def)
  show ?thesis
  proof (cases "fs' = []")
    case True
    have r: "at_rest v (l @ [(b, s)]) ?c" unfolding h using True c1(2) assms(1) by (simp add: deliver_def at_rest_def keeps_def Let_def)
    then have "process_frames f c1 = process_frames f ?c"
      by (intro frame_step) (use c1(2) ok(2) in \<open>simp_all add: at_rest_def\<close>)
    then show ?thesis using r c1(1) True by (auto simp: fs message_bytes_def)
  next
    case False
    then have r: "half_way ?v l b s ?c" unfolding h using c1(2) by (simp add: half_way_def at_rest_def)
    then have "process_frames f c1 = process_frames f ?c"
      by (intro frame_step) (use c1(2) ok(2) in \<open>simp_all add: at_rest_def half_way_def\<close>)
    moreover have "length s + length (message_bytes fs') \<le> kMaxMessageBytes"
      using assms(2) by (simp add: message_ok_def fs message_bytes_def)
    ultimately show ?thesis using continue_step [OF assms(1) False _ ok(3) r] c1(1) by (simp add: fs message_bytes_def)
  qed
qed

lemma messages_step:
  assumes "keeps f" "list_all message_ok ms" "at_rest (concat (map message_wire ms) @ v) l c"
  shows "\<exists>c'. process_frames f c = process_frames f c' \<and> at_rest v (l @ map (\<lambda>(b, fs). (b, message_bytes fs)) ms) c'"
  using assms(2,3)
proof (induction ms arbitrary: l c)
  case (Cons m ms)
  obtain b fs where m: "m = (b, fs)" by (cases m)
  have "at_rest (message_wire (b, fs) @ concat (map message_wire ms) @ v) l c" using Cons.prems(2) m by simp
  from message_step [OF assms(1) _ this] obtain c1
    where "process_frames f c = process_frames f c1" "at_rest (concat (map message_wire ms) @ v) (l @ [(b, message_bytes fs)]) c1"
    using Cons.prems(1) m by auto
  then show ?case using Cons.IH [of "l @ [(b, message_bytes fs)]" c1] Cons.prems(1) m by auto
qed auto

lemma process_incomplete:
  "DecodeWsFrame kMaxFramePayload True (ws_in c) = kIncomplete \<Longrightarrow> process_frames f c = Some c"
  by (simp add: process_frames_def frames_step_def)

lemma ws_on_writable_keeps [simp]:
  "ws_log (ws_on_writable ws c) = ws_log c" "ws_in (ws_on_writable ws c) = ws_in c"
  "ws_log (ws_want_write on c) = ws_log c" "ws_in (ws_want_write on c) = ws_in c"
  by (simp_all add: ws_on_writable_def ws_want_write_def ws_close_def Let_def split_def)

lemma on_readable_open:
  assumes "ws_open c" "list_all (\<lambda>s. s \<noteq> []) chunks" "process_frames f (c\<lparr>ws_in := ws_in c @ concat chunks\<rparr>) = Some c'"
    "\<not> ws_closed c"
  shows "\<exists>r. ws_on_readable f g (map ReadSome chunks) ws c = Some r \<and> ws_log r = ws_log c' \<and> ws_in r = ws_in c'"
  using assms by (simp add: ws_on_readable_def read_loop_chunks)

subsection \<open>Properties\<close>

text \<open>C40. Message reassembly: on an open connection, when what is buffered plus what the reads return is
  a sequence of messages, each cut into fragments with pings in between and every frame masked with a
  key of its own, followed by the beginning of a frame, then the readable event delivers exactly the
  messages, whole, in order, with their text or binary kind, and keeps the unfinished frame.\<close>

theorem ws_reassembly:
  assumes "keeps f" "list_all message_ok ms" "at_rest v l c" "list_all (\<lambda>s. s \<noteq> []) chunks"
    "v @ concat chunks = concat (map message_wire ms) @ p" "DecodeWsFrame kMaxFramePayload True p = kIncomplete"
  shows "\<exists>c'. ws_on_readable f g (map ReadSome chunks) ws c = Some c' \<and> ws_in c' = p
     \<and> ws_log c' = l @ map (\<lambda>(b, fs). (b, message_bytes fs)) ms"
proof -
  let ?c = "c\<lparr>ws_in := ws_in c @ concat chunks\<rparr>"
  have "at_rest (concat (map message_wire ms) @ p) l ?c" using assms(3,5) by (simp add: at_rest_def)
  from messages_step [OF assms(1,2) this] obtain c'
    where c': "process_frames f ?c = process_frames f c'" "at_rest p (l @ map (\<lambda>(b, fs). (b, message_bytes fs)) ms) c'" by blast
  have "process_frames f ?c = Some c'" unfolding c'(1) by (rule process_incomplete) (use c'(2) assms(6) in \<open>simp add: at_rest_def\<close>)
  then obtain r where "ws_on_readable f g (map ReadSome chunks) ws c = Some r \<and> ws_log r = ws_log c' \<and> ws_in r = ws_in c'"
    using on_readable_open [OF _ assms(4), of c f c' g ws] assms(3) by (auto simp: at_rest_def)
  then show ?thesis using c'(2) by (auto simp: at_rest_def)
qed

definition sample_messages :: "(bool \<times> fragment list) list" where
  "sample_messages = [(False, [([], ''abcd'', ''hel''), ([(''efgh'', ''p''), (''ijkl'', [])], ''mnop'', ''lo'')]),
     (True, [([], ''qrst'', [CHR 0x00, CHR 0xFF])])]"

definition sample_open :: WsConnection where
  "sample_open = (new_WsConnection 7 1 False)\<lparr>ws_open := True\<rparr>"

theorem ws_reassembly_witness:
  "\<exists>c'. ws_on_readable (\<lambda>b. send_text []) (\<lambda>_ c. c) (map ReadSome [concat (map message_wire sample_messages), [CHR 0x81]]) [] sample_open = Some c'
     \<and> ws_in c' = [CHR 0x81] \<and> ws_log c' = [(False, ''hello''), (True, [CHR 0x00, CHR 0xFF])]"
proof -
  have k: "keeps (\<lambda>b. send_text [])"
    by (simp add: keeps_def send_text_def ws_on_writable_def ws_want_write_def ws_queue_def EncodeWsFrame_def ws_head_def)
  have m: "list_all message_ok sample_messages"
    by (simp add: sample_messages_def message_ok_def message_bytes_def kMaxMessageBytes_def kMaxFramePayload_def ws_ok_def
      ping_frame_def data_frame_def is_control_def)
  have r: "at_rest [] [] sample_open" by (simp add: at_rest_def sample_open_def new_WsConnection_def)
  have n: "list_all (\<lambda>s. s \<noteq> []) [concat (map message_wire sample_messages), [CHR 0x81]]"
    by (simp add: sample_messages_def message_wire_def data_frame_def ws_encode_def EncodeWsFrame_def ws_head_def)
  have "DecodeWsFrame kMaxFramePayload True [CHR 0x81] = kIncomplete" by (simp add: DecodeWsFrame_def)
  from ws_reassembly [OF k m r n _ this, of "\<lambda>_ c. c" "[]"] show ?thesis
    by (simp add: sample_messages_def message_bytes_def)
qed

end
