(* ===== verification/Helper_Client.thy ===== *)
theory Helper_Client
  imports Io Helper_Codec "HOL-Library.Multiset"
begin

section \<open>The pipelined helper client (ipc/helper\_client.h, ipc/helper\_client.cc)\<close>

text \<open>
  One client per helper process: requests are numbered, encoded and queued, and each reply is handed
  to the callback registered under its request id. A callback is a value \<open>'k\<close> (what the closure
  captures); the owner's reaction to it is a function on the client, a parameter of the model, through
  which the owner may send further requests while the client is in the middle of a handler, as
  the storage and the auth client do.

  Four fields record what the code does to its surroundings: \<open>hc_calls\<close> the callbacks it ran,
  \<open>hc_asked\<close> the callbacks it accepted, \<open>hc_requests\<close> the messages it encoded and
  \<open>hc_written\<close> the bytes the descriptor took. The clock and the results of the system calls
  are arguments. An unordered map is walked in an unspecified order; here it is an association list
  in the order of insertion, and the properties do not depend on it. The record is left open at its
  end: the clients built on this one (\<open>Storage_Client\<close>, \<open>Trading_Engine\<close>) extend it
  with their own state, which their callbacks change.
\<close>

record HelperCodec =
  codec_encode :: "HelperMessage \<Rightarrow> bytes"
  codec_decode :: "bytes \<Rightarrow> HelperMessage Decode"

definition text_codec :: HelperCodec where
  "text_codec = \<lparr>codec_encode = text_encode, codec_decode = text_decode\<rparr>"

definition binary_codec :: HelperCodec where
  "binary_codec = \<lparr>codec_encode = binary_encode, codec_decode = binary_decode\<rparr>"

record 'k Pending =
  pend_cb :: 'k
  pend_deadline :: int

record 'k HelperClient =
  hc_read_fd :: int
  hc_write_fd :: int
  hc_same_fd :: bool
  timeout_ns :: int
  hc_in :: bytes
  hc_out :: bytes
  hc_pending :: "(nat \<times> 'k Pending) list"
  next_req_id :: nat
  sweep_interval :: "int option"
  hc_write_enabled :: bool
  write_registered :: bool
  hc_closed :: bool
  hc_calls :: "(nat \<times> 'k \<times> bool \<times> HelperMessage) list"
  hc_asked :: "(nat \<times> 'k) list"
  hc_requests :: "HelperMessage list"
  hc_written :: bytes

type_synonym ('k, 'z) owner =
  "'k \<Rightarrow> bool \<Rightarrow> HelperMessage \<Rightarrow> ('k, 'z) HelperClient_scheme \<Rightarrow> ('k, 'z) HelperClient_scheme"

definition new_HelperClient :: "int \<Rightarrow> int \<Rightarrow> int \<Rightarrow> 'z \<Rightarrow> ('k, 'z) HelperClient_scheme" where
  "new_HelperClient rfd wfd timeout z = \<lparr>hc_read_fd = rfd, hc_write_fd = wfd, hc_same_fd = (rfd = wfd), timeout_ns = timeout,
     hc_in = [], hc_out = [], hc_pending = [], next_req_id = 1,
     sweep_interval = (if timeout > 0 then Some (if timeout div 2 > 0 then timeout div 2 else timeout) else None),
     hc_write_enabled = False, write_registered = False, hc_closed = False,
     hc_calls = [], hc_asked = [], hc_requests = [], hc_written = [], \<dots> = z\<rparr>"

text \<open>Running a callback.\<close>

definition hc_call :: "('k, 'z) owner \<Rightarrow> nat \<Rightarrow> 'k \<Rightarrow> bool \<Rightarrow> HelperMessage \<Rightarrow> ('k, 'z) HelperClient_scheme \<Rightarrow> ('k, 'z) HelperClient_scheme" where
  "hc_call f i k ok msg c = f k ok msg (c\<lparr>hc_calls := hc_calls c @ [(i, k, ok, msg)]\<rparr>)"

definition set_write_interest :: "bool \<Rightarrow> ('k, 'z) HelperClient_scheme \<Rightarrow> ('k, 'z) HelperClient_scheme" where
  "set_write_interest on c =
     (if hc_same_fd c then (if on = hc_write_enabled c then c else c\<lparr>hc_write_enabled := on\<rparr>)
      else if on \<and> \<not> write_registered c then c\<lparr>write_registered := True\<rparr>
      else if \<not> on \<and> write_registered c then c\<lparr>write_registered := False\<rparr>
      else c)"

definition handle_close :: "('k, 'z) owner \<Rightarrow> ('k, 'z) HelperClient_scheme \<Rightarrow> ('k, 'z) HelperClient_scheme" where
  "handle_close f c =
     (if hc_closed c then c
      else fold (\<lambda>(i, p). hc_call f i (pend_cb p) False new_HelperMessage) (hc_pending c)
             (c\<lparr>hc_closed := True, write_registered := False, hc_pending := []\<rparr>))"

definition hc_on_writable :: "('k, 'z) owner \<Rightarrow> WriteResult list \<Rightarrow> ('k, 'z) HelperClient_scheme \<Rightarrow> ('k, 'z) HelperClient_scheme" where
  "hc_on_writable f ws c =
     (let (out, failed) = write_loop ws (hc_out c);
          c1 = c\<lparr>hc_out := out, hc_written := hc_written c @ take (length (hc_out c) - length out) (hc_out c)\<rparr>
      in if failed then handle_close f c1
         else if out = [] then set_write_interest False c1 else c1)"

definition helper_send :: "HelperCodec \<Rightarrow> ('k, 'z) owner \<Rightarrow> string \<Rightarrow> (string \<times> string) list \<Rightarrow> 'k option \<Rightarrow> int \<Rightarrow> WriteResult list
    \<Rightarrow> ('k, 'z) HelperClient_scheme \<Rightarrow> ('k, 'z) HelperClient_scheme" where
  "helper_send codec f ty flds cb now ws c =
     (let i = next_req_id c;
          c1 = c\<lparr>next_req_id := Suc i, hc_asked := hc_asked c @ (case cb of None \<Rightarrow> [] | Some k \<Rightarrow> [(i, k)])\<rparr>
      in if hc_closed c1
         then (case cb of None \<Rightarrow> c1 | Some k \<Rightarrow> hc_call f i k False new_HelperMessage c1)
         else let msg = \<lparr>req_id = i, msg_type = ty, msg_fields = flds\<rparr>;
                  c2 = c1\<lparr>hc_out := hc_out c1 @ codec_encode codec msg, hc_requests := hc_requests c1 @ [msg]\<rparr>;
                  c3 = (case cb of
                          None \<Rightarrow> c2
                        | Some k \<Rightarrow> c2\<lparr>hc_pending := emplace i
                            \<lparr>pend_cb = k, pend_deadline = (if timeout_ns c2 > 0 then now + timeout_ns c2 else 0)\<rparr> (hc_pending c2)\<rparr>)
              in hc_on_writable f ws (set_write_interest True c3))"

definition reply_step :: "HelperCodec \<Rightarrow> ('k, 'z) owner \<Rightarrow> ('k, 'z) HelperClient_scheme \<Rightarrow> (('k, 'z) HelperClient_scheme + ('k, 'z) HelperClient_scheme) option" where
  "reply_step codec f c =
     (case codec_decode codec (hc_in c) of
        kIncomplete \<Rightarrow> Some (Inr c)
      | kError err \<Rightarrow> Some (Inr (handle_close f c))
      | kComplete msg n \<Rightarrow>
          let c1 = c\<lparr>hc_in := drop n (hc_in c)\<rparr>
          in (case map_of (hc_pending c1) (req_id msg) of
                None \<Rightarrow> Some (Inl c1)
              | Some p \<Rightarrow> Some (Inl (hc_call f (req_id msg) (pend_cb p) True msg
                                  (c1\<lparr>hc_pending := AList.delete (req_id msg) (hc_pending c1)\<rparr>)))))"

definition hc_on_readable :: "HelperCodec \<Rightarrow> ('k, 'z) owner \<Rightarrow> ReadResult list \<Rightarrow> ('k, 'z) HelperClient_scheme \<Rightarrow> ('k, 'z) HelperClient_scheme option" where
  "hc_on_readable codec f rs c =
     (let (v, e) = read_loop rs (hc_in c); c1 = c\<lparr>hc_in := v\<rparr>
      in if e \<noteq> Blocked then Some (handle_close f c1) else iter (reply_step codec f) c1)"

definition hc_on_io_ready :: "HelperCodec \<Rightarrow> ('k, 'z) owner \<Rightarrow> int \<Rightarrow> bool \<Rightarrow> bool \<Rightarrow> bool \<Rightarrow> ReadResult list \<Rightarrow> WriteResult list
    \<Rightarrow> ('k, 'z) HelperClient_scheme \<Rightarrow> ('k, 'z) HelperClient_scheme option" where
  "hc_on_io_ready codec f fd readable writable failed rs ws c =
     (let rd = (fd = hc_read_fd c \<and> readable)
      in do {
        c1 \<leftarrow> (if rd then hc_on_readable codec f rs c else Some c);
        if rd \<and> hc_closed c1 then Some c1
        else let wr = (fd = hc_write_fd c1 \<and> writable); c2 = (if wr then hc_on_writable f ws c1 else c1)
             in if wr \<and> hc_closed c2 then Some c2
                else Some (if failed then handle_close f c2 else c2)
      })"

definition expire_one :: "('k, 'z) owner \<Rightarrow> nat \<Rightarrow> ('k, 'z) HelperClient_scheme \<Rightarrow> ('k, 'z) HelperClient_scheme" where
  "expire_one f i c =
     (case map_of (hc_pending c) i of
        None \<Rightarrow> c
      | Some p \<Rightarrow> hc_call f i (pend_cb p) False new_HelperMessage (c\<lparr>hc_pending := AList.delete i (hc_pending c)\<rparr>))"

definition hc_on_timer :: "('k, 'z) owner \<Rightarrow> int \<Rightarrow> ('k, 'z) HelperClient_scheme \<Rightarrow> ('k, 'z) HelperClient_scheme" where
  "hc_on_timer f now c =
     (if timeout_ns c \<le> 0 \<or> hc_pending c = [] then c
      else fold (expire_one f)
             (map fst (filter (\<lambda>(i, p). pend_deadline p \<noteq> 0 \<and> pend_deadline p \<le> now) (hc_pending c))) c)"

definition pending_count :: "('k, 'z) HelperClient_scheme \<Rightarrow> nat" where
  "pending_count c = length (hc_pending c)"

text \<open>What may happen to a client, one handler at a time.\<close>

datatype 'k HcEvent =
    HcSend string "(string \<times> string) list" "'k option" int "WriteResult list"
  | HcIo int bool bool bool "ReadResult list" "WriteResult list"
  | HcTimer int

fun hc_step :: "HelperCodec \<Rightarrow> ('k, 'z) owner \<Rightarrow> 'k HcEvent \<Rightarrow> ('k, 'z) HelperClient_scheme \<Rightarrow> ('k, 'z) HelperClient_scheme option" where
  "hc_step codec f (HcSend ty flds cb now ws) c = Some (helper_send codec f ty flds cb now ws c)"
| "hc_step codec f (HcIo fd readable writable failed rs ws) c = hc_on_io_ready codec f fd readable writable failed rs ws c"
| "hc_step codec f (HcTimer now) c = Some (hc_on_timer f now c)"

fun hc_run :: "HelperCodec \<Rightarrow> ('k, 'z) owner \<Rightarrow> 'k HcEvent list \<Rightarrow> ('k, 'z) HelperClient_scheme \<Rightarrow> ('k, 'z) HelperClient_scheme option" where
  "hc_run codec f [] c = Some c"
| "hc_run codec f (e # es) c = do { c1 \<leftarrow> hc_step codec f e c; hc_run codec f es c1 }"

subsection \<open>Accounting\<close>

text \<open>Every accepted callback has been run, or is pending, or is in \<open>x\<close>, the requests set aside
  by a handler that is about to run them; successful replies carry the id of their request; nothing
  is pending on a closed client; and the descriptor has got a prefix of the encoded requests.\<close>

definition answered :: "('k, 'z) HelperClient_scheme \<Rightarrow> (nat \<times> 'k) list" where
  "answered c = map (\<lambda>(i, k, _). (i, k)) (hc_calls c)"

definition awaiting :: "('k, 'z) HelperClient_scheme \<Rightarrow> (nat \<times> 'k) list" where
  "awaiting c = map (\<lambda>(i, p). (i, pend_cb p)) (hc_pending c)"

definition accounted :: "HelperCodec \<Rightarrow> (nat \<times> 'k) list \<Rightarrow> ('k, 'z) HelperClient_scheme \<Rightarrow> bool" where
  "accounted codec x c \<longleftrightarrow>
     mset (answered c @ awaiting c @ x) = mset (hc_asked c)
     \<and> distinct (map fst (hc_asked c)) \<and> list_all (\<lambda>(i, k). i < next_req_id c) (hc_asked c)
     \<and> list_all (\<lambda>(i, k, ok, msg). ok \<longrightarrow> req_id msg = i) (hc_calls c)
     \<and> (hc_closed c \<longrightarrow> hc_pending c = [])
     \<and> hc_written c @ hc_out c = concat (map (codec_encode codec) (hc_requests c))"

text \<open>An owner may do anything to the client in a callback that keeps the accounts, in particular send
  requests.\<close>

definition owner_ok :: "HelperCodec \<Rightarrow> ('k, 'z) owner \<Rightarrow> bool" where
  "owner_ok codec f \<longleftrightarrow> (\<forall>k ok msg c x. accounted codec x c \<longrightarrow> accounted codec x (f k ok msg c)
     \<and> hc_in (f k ok msg c) = hc_in c \<and> (hc_closed c \<longrightarrow> hc_closed (f k ok msg c)))"

definition takes_bytes :: "HelperCodec \<Rightarrow> bool" where
  "takes_bytes codec \<longleftrightarrow> (\<forall>v msg n. codec_decode codec v = kComplete msg n \<longrightarrow> 0 < n \<and> n \<le> length v)"

lemma codecs_take_bytes: "takes_bytes text_codec" "takes_bytes binary_codec"
proof -
  have "0 < n \<and> n \<le> length v" if "text_decode v = kComplete msg n" for v msg n
    using that find_blank_bound [of v] unfolding text_decode_def by (auto split: option.splits if_splits sum.splits)
  then show "takes_bytes text_codec" by (simp add: takes_bytes_def text_codec_def)
  have "0 < n \<and> n \<le> length v" if "binary_decode v = kComplete msg n" for v msg n
    using that unfolding binary_decode_def Let_def by (auto split: if_splits sum.splits)
  then show "takes_bytes binary_codec" by (simp add: takes_bytes_def binary_codec_def)
qed

lemma call_ok:
  assumes "owner_ok codec f" "accounted codec ((i, k) # x) c" "ok \<Longrightarrow> req_id msg = i"
  shows "accounted codec x (hc_call f i k ok msg c) \<and> hc_in (hc_call f i k ok msg c) = hc_in c
    \<and> (hc_closed c \<longrightarrow> hc_closed (hc_call f i k ok msg c))"
proof -
  have "accounted codec x (c\<lparr>hc_calls := hc_calls c @ [(i, k, ok, msg)]\<rparr>)" using assms(2,3) by (simp add: accounted_def answered_def awaiting_def)
  with assms(1) show ?thesis unfolding hc_call_def owner_ok_def by fastforce
qed

lemma set_write_interest_keeps [simp]:
  "accounted codec x (set_write_interest on c) = accounted codec x c" "hc_in (set_write_interest on c) = hc_in c"
  "hc_closed (set_write_interest on c) = hc_closed c" "hc_out (set_write_interest on c) = hc_out c"
  by (simp_all add: set_write_interest_def accounted_def answered_def awaiting_def)

lemma fail_all_accounted:
  assumes "owner_ok codec f" "accounted codec (map (\<lambda>(i, p). (i, pend_cb p)) ps @ x) c" "hc_closed c"
  defines "c' \<equiv> fold (\<lambda>(i, p). hc_call f i (pend_cb p) False new_HelperMessage) ps c"
  shows "accounted codec x c' \<and> hc_in c' = hc_in c \<and> hc_closed c'"
  using assms(2,3) unfolding c'_def
proof (induction ps arbitrary: c)
  case (Cons ip ps)
  obtain i p where ip: "ip = (i, p)" by (cases ip)
  let ?c = "hc_call f i (pend_cb p) False new_HelperMessage c"
  have "accounted codec (map (\<lambda>(i, p). (i, pend_cb p)) ps @ x) ?c \<and> hc_in ?c = hc_in c \<and> (hc_closed c \<longrightarrow> hc_closed ?c)"
    by (rule call_ok [OF assms(1)]) (use Cons.prems(1) ip in simp_all)
  then show ?case using Cons.IH [of ?c] Cons.prems(2) ip by simp
qed simp

lemma handle_close_ok:
  assumes "owner_ok codec f" "accounted codec x c"
  shows "accounted codec x (handle_close f c) \<and> hc_in (handle_close f c) = hc_in c \<and> hc_closed (handle_close f c)"
proof (cases "hc_closed c")
  case False
  let ?c = "c\<lparr>hc_closed := True, write_registered := False, hc_pending := []\<rparr>"
  have "accounted codec (map (\<lambda>(i, p). (i, pend_cb p)) (hc_pending c) @ x) ?c"
    using assms(2) by (simp add: accounted_def answered_def awaiting_def)
  from fail_all_accounted [OF assms(1) this] show ?thesis using False by (simp add: handle_close_def)
qed (use assms in \<open>simp add: handle_close_def\<close>)

lemma on_writable_ok:
  assumes "owner_ok codec f" "accounted codec x c"
  shows "accounted codec x (hc_on_writable f ws c) \<and> hc_in (hc_on_writable f ws c) = hc_in c
    \<and> (hc_closed c \<longrightarrow> hc_closed (hc_on_writable f ws c))"
proof -
  obtain out failed where w: "write_loop ws (hc_out c) = (out, failed)" by fastforce
  obtain sent where "hc_out c = sent @ out" using write_loop_suffix [of "hc_out c" ws] w by auto
  then have "accounted codec x (c\<lparr>hc_out := out, hc_written := hc_written c @ take (length (hc_out c) - length out) (hc_out c)\<rparr>)"
    using assms(2) by (simp add: accounted_def answered_def awaiting_def)
  from this handle_close_ok [OF assms(1) this] show ?thesis
    by (cases "out = []") (simp_all add: hc_on_writable_def w Let_def)
qed

lemma accounted_keys:
  assumes "accounted codec x c"
  shows "distinct (map fst (hc_pending c))" "map_of (hc_pending c) (next_req_id c) = None"
proof -
  have m: "mset (answered c @ awaiting c @ x) = mset (hc_asked c)" using assms by (simp add: accounted_def)
  then have "mset (map fst (answered c @ awaiting c @ x)) = mset (map fst (hc_asked c))" by (metis mset_map)
  moreover have "distinct (map fst (hc_asked c))" using assms by (simp add: accounted_def)
  ultimately have "distinct (map fst (answered c @ awaiting c @ x))" by (metis mset_eq_imp_distinct_iff)
  moreover have w: "map fst (awaiting c) = map fst (hc_pending c)" by (simp add: awaiting_def split_def comp_def)
  ultimately show "distinct (map fst (hc_pending c))" by simp
  have "set (awaiting c) \<subseteq> set (hc_asked c)" using mset_eq_setD [OF m] by auto
  then have "list_all (\<lambda>ik. fst ik < next_req_id c) (awaiting c)" using assms by (fastforce simp: accounted_def list_all_iff)
  then have "list_all (\<lambda>i. i < next_req_id c) (map fst (hc_pending c))" unfolding w [symmetric] by (simp add: list_all_iff)
  then show "map_of (hc_pending c) (next_req_id c) = None" by (auto simp: map_of_eq_None_iff list_all_iff)
qed

lemma mset_delete:
  "distinct (map fst m) \<Longrightarrow> map_of m i = Some p \<Longrightarrow> mset m = add_mset (i, p) (mset (AList.delete i m))"
proof (induction m)
  case (Cons jq m)
  obtain j q where jq: "jq = (j, q)" by (cases jq)
  show ?case
  proof (cases "j = i")
    case True
    then have "i \<notin> fst ` set m" using Cons.prems(1) jq by simp
    then show ?thesis using True Cons.prems(2) jq by (simp add: delete_idem)
  qed (use Cons jq in simp)
qed simp

lemma take_pending:
  assumes "accounted codec x c" "map_of (hc_pending c) i = Some p"
  shows "accounted codec ((i, pend_cb p) # x) (c\<lparr>hc_pending := AList.delete i (hc_pending c)\<rparr>)"
proof -
  have "mset (awaiting c) = add_mset (i, pend_cb p) (mset (awaiting (c\<lparr>hc_pending := AList.delete i (hc_pending c)\<rparr>)))"
    using mset_delete [OF accounted_keys(1) [OF assms(1)] assms(2)] by (simp add: awaiting_def)
  then show ?thesis using assms by (auto simp: accounted_def answered_def awaiting_def)
qed

lemma send_ok:
  assumes "owner_ok codec f" "accounted codec x c"
  shows "accounted codec x (helper_send codec f ty flds cb now ws c) \<and> hc_in (helper_send codec f ty flds cb now ws c) = hc_in c
    \<and> (hc_closed c \<longrightarrow> hc_closed (helper_send codec f ty flds cb now ws c))"
proof (cases "hc_closed c")
  case True
  let ?c = "c\<lparr>next_req_id := Suc (next_req_id c), hc_asked := hc_asked c @ (case cb of None \<Rightarrow> [] | Some k \<Rightarrow> [(next_req_id c, k)])\<rparr>"
  have "accounted codec ((case cb of None \<Rightarrow> [] | Some k \<Rightarrow> [(next_req_id c, k)]) @ x) ?c"
    using assms(2) by (auto simp: accounted_def answered_def awaiting_def list_all_iff less_Suc_eq split: option.splits)
  then show ?thesis using True call_ok [OF assms(1), of "next_req_id c" _ x ?c]
    by (cases cb) (simp_all add: helper_send_def Let_def)
next
  case False
  let ?i = "next_req_id c"
  let ?msg = "\<lparr>req_id = ?i, msg_type = ty, msg_fields = flds\<rparr>"
  define c2 where "c2 = c\<lparr>next_req_id := Suc ?i, hc_asked := hc_asked c @ (case cb of None \<Rightarrow> [] | Some k \<Rightarrow> [(?i, k)]),
    hc_out := hc_out c @ codec_encode codec ?msg, hc_requests := hc_requests c @ [?msg]\<rparr>"
  define c3 where "c3 = (case cb of None \<Rightarrow> c2 | Some k \<Rightarrow> c2\<lparr>hc_pending := emplace ?i
    \<lparr>pend_cb = k, pend_deadline = (if timeout_ns c2 > 0 then now + timeout_ns c2 else 0)\<rparr> (hc_pending c2)\<rparr>)"
  have "accounted codec x c3" using assms(2) accounted_keys(2) [OF assms(2)] False
    unfolding c3_def c2_def by (auto simp: accounted_def answered_def awaiting_def emplace_def list_all_iff less_Suc_eq split: option.splits)
  moreover have "helper_send codec f ty flds cb now ws c = hc_on_writable f ws (set_write_interest True c3)" "hc_in c3 = hc_in c"
    using False by (simp_all add: helper_send_def Let_def c3_def c2_def split: option.splits)
  ultimately show ?thesis using on_writable_ok [OF assms(1), of x "set_write_interest True c3" ws] False by simp
qed

lemma reply_step_ok:
  assumes "owner_ok codec f" "takes_bytes codec" "accounted codec [] c"
  shows "(\<exists>c'. reply_step codec f c = Some (Inl c') \<and> accounted codec [] c' \<and> length (hc_in c') < length (hc_in c))
    \<or> (\<exists>c'. reply_step codec f c = Some (Inr c') \<and> accounted codec [] c')"
proof (cases "codec_decode codec (hc_in c)")
  case (kComplete msg n)
  let ?c = "c\<lparr>hc_in := drop n (hc_in c)\<rparr>"
  have n: "0 < n" "n \<le> length (hc_in c)" using assms(2) kComplete by (auto simp: takes_bytes_def)
  have ok: "accounted codec [] ?c" using assms(3) by (simp add: accounted_def answered_def awaiting_def)
  show ?thesis
  proof (cases "map_of (hc_pending c) (req_id msg)")
    case None
    then show ?thesis using kComplete n ok by (simp add: reply_step_def)
  next
    case (Some p)
    then have "accounted codec [(req_id msg, pend_cb p)] (?c\<lparr>hc_pending := AList.delete (req_id msg) (hc_pending ?c)\<rparr>)"
      using take_pending [OF ok, of "req_id msg" p] by simp
    from call_ok [OF assms(1) this] show ?thesis using kComplete n Some by (simp add: reply_step_def)
  qed
qed (use assms handle_close_ok [OF assms(1,3)] in \<open>simp_all add: reply_step_def\<close>)

lemma on_readable_ok:
  assumes "owner_ok codec f" "takes_bytes codec" "accounted codec [] c"
  shows "\<exists>c'. hc_on_readable codec f rs c = Some c' \<and> accounted codec [] c'"
proof -
  obtain v e where v: "read_loop rs (hc_in c) = (v, e)" by fastforce
  have ok: "accounted codec [] (c\<lparr>hc_in := v\<rparr>)" using assms(3) by (simp add: accounted_def answered_def awaiting_def)
  have "\<exists>c'. iter (reply_step codec f) (c\<lparr>hc_in := v\<rparr>) = Some c' \<and> accounted codec [] c'"
    by (rule iter_total [where I = "accounted codec []" and m = "\<lambda>c. length (hc_in c)"])
      (use ok reply_step_ok [OF assms(1,2)] in auto)
  then show ?thesis using handle_close_ok [OF assms(1) ok] by (cases e) (simp_all add: hc_on_readable_def v)
qed

lemma on_io_ready_ok:
  assumes "owner_ok codec f" "takes_bytes codec" "accounted codec [] c"
  shows "\<exists>c'. hc_on_io_ready codec f fd readable writable failed rs ws c = Some c' \<and> accounted codec [] c'"
proof -
  obtain c1 where c1: "(if fd = hc_read_fd c \<and> readable then hc_on_readable codec f rs c else Some c) = Some c1" "accounted codec [] c1"
    using on_readable_ok [OF assms, of rs] assms(3) by (cases "fd = hc_read_fd c \<and> readable") auto
  then show ?thesis using on_writable_ok [OF assms(1) c1(2), of ws] handle_close_ok [OF assms(1)]
    by (simp add: hc_on_io_ready_def Let_def)
qed

lemma on_timer_ok:
  assumes "owner_ok codec f" "accounted codec [] c"
  shows "accounted codec [] (hc_on_timer f now c)"
proof -
  have "accounted codec [] (expire_one f i c)" if "accounted codec [] c" for i c
    using that call_ok [OF assms(1) take_pending [OF that]] by (simp add: expire_one_def split: option.split)
  then have "accounted codec [] (fold (expire_one f) is c)" if "accounted codec [] c" for "is" c
    using that by (induction "is" arbitrary: c) auto
  then show ?thesis using assms(2) by (simp add: hc_on_timer_def)
qed

lemma run_accounted:
  assumes "owner_ok codec f" "takes_bytes codec" "accounted codec [] c"
  shows "\<exists>c'. hc_run codec f es c = Some c' \<and> accounted codec [] c'"
  using assms(3)
proof (induction es arbitrary: c)
  case (Cons e es)
  have "\<exists>c1. hc_step codec f e c = Some c1 \<and> accounted codec [] c1"
  proof (cases e)
    case HcSend
    then show ?thesis using send_ok [OF assms(1) Cons.prems] by simp
  next
    case HcIo
    then show ?thesis using on_io_ready_ok [OF assms(1,2) Cons.prems] by simp
  next
    case HcTimer
    then show ?thesis using on_timer_ok [OF assms(1) Cons.prems] by simp
  qed
  then show ?case using Cons.IH by auto
qed simp

lemma new_accounted: "accounted codec [] (new_HelperClient rfd wfd timeout z)"
  by (simp add: accounted_def answered_def awaiting_def new_HelperClient_def)

text \<open>The two owners the properties are applied to: one that ignores replies, and one that sends a
  further request from inside the callback of a successful one.\<close>

lemma idle_owner_ok: "owner_ok codec (\<lambda>k ok msg c. c)"
  by (simp add: owner_ok_def)

lemma sending_owner_ok:
  "owner_ok codec (\<lambda>k ok msg c. if ok then helper_send codec (\<lambda>k ok msg c. c) ty flds (Some k) now ws c else c)"
  unfolding owner_ok_def using send_ok [OF idle_owner_ok] by (simp add: all_conj_distrib) blast

subsection \<open>What a client leaves of the state around it\<close>

text \<open>A property of the extension's fields and of the callbacks that have run, kept by every callback and not
  lost when further callbacks run, is kept by every handler. A callback may rely on having been
  logged.\<close>

type_synonym ('k, 'z) log_prop = "(nat \<times> 'k \<times> bool \<times> HelperMessage) set \<Rightarrow> 'z \<Rightarrow> bool"

definition log_mono :: "('k, 'z) log_prop \<Rightarrow> bool" where
  "log_mono Q \<longleftrightarrow> (\<forall>S T z. S \<subseteq> T \<longrightarrow> Q S z \<longrightarrow> Q T z)"

definition holds :: "('k, 'z) log_prop \<Rightarrow> ('k, 'z) HelperClient_scheme \<Rightarrow> bool" where
  "holds Q c \<longleftrightarrow> Q (set (hc_calls c)) (HelperClient.more c)"

definition keeps_log :: "('k, 'z) log_prop \<Rightarrow> ('k, 'z) owner \<Rightarrow> bool" where
  "keeps_log Q f \<longleftrightarrow> log_mono Q
     \<and> (\<forall>k ok msg c. (\<exists>i. (i, k, ok, msg) \<in> set (hc_calls c)) \<longrightarrow> holds Q c \<longrightarrow> holds Q (f k ok msg c))"

lemma log_mono_insert: "log_mono Q \<Longrightarrow> Q S z \<Longrightarrow> Q (insert x S) z"
  unfolding log_mono_def by blast

lemma call_holds:
  assumes "keeps_log Q f" "holds Q c"
  shows "holds Q (hc_call f i k ok msg c)"
proof -
  let ?c = "c\<lparr>hc_calls := hc_calls c @ [(i, k, ok, msg)]\<rparr>"
  have "holds Q ?c"
    using assms log_mono_insert [of Q] by (simp add: holds_def keeps_log_def)
  moreover have "\<exists>j. (j, k, ok, msg) \<in> set (hc_calls ?c)" by (intro exI [of _ i]) simp
  ultimately show ?thesis using assms(1) unfolding hc_call_def keeps_log_def by blast
qed

lemma holds_update [simp]:
  "holds Q (set_write_interest on c) = holds Q c" "holds Q (c\<lparr>hc_in := v\<rparr>) = holds Q c" "holds Q (c\<lparr>hc_out := v\<rparr>) = holds Q c"
  "holds Q (c\<lparr>hc_closed := b\<rparr>) = holds Q c" "holds Q (c\<lparr>write_registered := b\<rparr>) = holds Q c"
  "holds Q (c\<lparr>hc_pending := ps\<rparr>) = holds Q c" "holds Q (c\<lparr>hc_written := v\<rparr>) = holds Q c"
  "holds Q (c\<lparr>next_req_id := n\<rparr>) = holds Q c" "holds Q (c\<lparr>hc_asked := x\<rparr>) = holds Q c" "holds Q (c\<lparr>hc_requests := r\<rparr>) = holds Q c"
  by (simp_all add: holds_def set_write_interest_def)

lemma fail_all_holds:
  "keeps_log Q f \<Longrightarrow> holds Q c \<Longrightarrow> holds Q (fold (\<lambda>(i, p). hc_call f i (pend_cb p) False new_HelperMessage) ps c)"
  by (induction ps arbitrary: c) (auto simp: call_holds)

lemma handle_close_holds: "keeps_log Q f \<Longrightarrow> holds Q c \<Longrightarrow> holds Q (handle_close f c)"
  by (simp add: handle_close_def fail_all_holds)

lemma on_writable_holds: "keeps_log Q f \<Longrightarrow> holds Q c \<Longrightarrow> holds Q (hc_on_writable f ws c)"
  by (simp add: hc_on_writable_def Let_def split_def handle_close_holds)

lemma send_holds: "keeps_log Q f \<Longrightarrow> holds Q c \<Longrightarrow> holds Q (helper_send codec f ty flds cb now ws c)"
  by (cases cb) (simp_all add: helper_send_def Let_def call_holds on_writable_holds)

lemma on_timer_holds: "keeps_log Q f \<Longrightarrow> holds Q c \<Longrightarrow> holds Q (hc_on_timer f now c)"
proof -
  assume f: "keeps_log Q f" and c: "holds Q c"
  have "holds Q (expire_one f i c)" if "holds Q c" for i c
    using that f by (simp add: expire_one_def call_holds split: option.split)
  then have "holds Q (fold (expire_one f) is c)" if "holds Q c" for "is" c
    using that by (induction "is" arbitrary: c) auto
  then show ?thesis using c by (simp add: hc_on_timer_def)
qed

lemma on_readable_holds:
  assumes "keeps_log Q f" "holds Q c" "hc_on_readable codec f rs c = Some c'"
  shows "holds Q c'"
proof -
  obtain v e where v: "read_loop rs (hc_in c) = (v, e)" by fastforce
  have "holds Q c'" if it: "iter (reply_step codec f) (c\<lparr>hc_in := v\<rparr>) = Some c'"
  proof (rule iter_partial [OF it, where I = "holds Q"])
    show "holds Q (c\<lparr>hc_in := v\<rparr>)" using assms(2) by simp
  qed (use assms(1) in \<open>auto simp: reply_step_def handle_close_holds call_holds Let_def split: Decode.splits option.splits\<close>)
  then show ?thesis using assms v by (cases e) (auto simp: hc_on_readable_def handle_close_holds)
qed

lemma on_io_ready_holds:
  assumes "keeps_log Q f" "holds Q c" "hc_on_io_ready codec f fd readable writable failed rs ws c = Some c'"
  shows "holds Q c'"
proof -
  obtain c1 where c1: "(if fd = hc_read_fd c \<and> readable then hc_on_readable codec f rs c else Some c) = Some c1"
    using assms(3) by (auto simp: hc_on_io_ready_def Let_def bind_eq_Some_conv split: if_splits)
  then have "holds Q c1" using on_readable_holds [OF assms(1,2)] assms(2) by (auto split: if_splits)
  then show ?thesis using assms(3) c1 on_writable_holds [OF assms(1)] handle_close_holds [OF assms(1)]
    by (auto simp: hc_on_io_ready_def Let_def split: if_splits)
qed

text \<open>While the connection is up, sending runs no callback.\<close>

lemma on_writable_quiet:
  "\<not> snd (write_loop ws (hc_out c)) \<Longrightarrow>
    HelperClient.more (hc_on_writable f ws c) = HelperClient.more c \<and> hc_closed (hc_on_writable f ws c) = hc_closed c"
  by (auto simp: hc_on_writable_def set_write_interest_def Let_def split_def)

lemma send_quiet:
  assumes "\<not> hc_closed c" "\<not> snd (write_loop ws (hc_out c @ codec_encode codec \<lparr>req_id = next_req_id c, msg_type = ty, msg_fields = flds\<rparr>))"
  shows "HelperClient.more (helper_send codec f ty flds cb now ws c) = HelperClient.more c
    \<and> \<not> hc_closed (helper_send codec f ty flds cb now ws c)"
proof -
  obtain c3 where c3: "helper_send codec f ty flds cb now ws c = hc_on_writable f ws (set_write_interest True c3)"
    "hc_out c3 = hc_out c @ codec_encode codec \<lparr>req_id = next_req_id c, msg_type = ty, msg_fields = flds\<rparr>"
    "HelperClient.more c3 = HelperClient.more c" "\<not> hc_closed c3"
    using assms(1) by (cases cb) (simp_all add: helper_send_def Let_def)
  have "HelperClient.more (set_write_interest True c3) = HelperClient.more c3" by (simp add: set_write_interest_def)
  then show ?thesis using on_writable_quiet [of ws "set_write_interest True c3" f] assms(2) c3 by simp
qed

subsection \<open>Properties\<close>

text \<open>C12. Every request is answered exactly once: whatever requests are sent, replies arrive, time-outs
  and failures occur and in whatever order, and although callbacks may send again from inside a
  handler, the handlers return; the callbacks that ran and the pending ones are together exactly the
  accepted ones, each under an id of its own; a successful reply reached the request whose id it
  carries; on a closed client nothing is left pending; and the bytes the helper got are a prefix of
  the encoded requests in the order they were sent.\<close>

theorem helper_exactly_once:
  assumes "owner_ok codec f" "codec = text_codec \<or> codec = binary_codec"
  shows "\<exists>c. hc_run codec f es (new_HelperClient rfd wfd timeout z) = Some c
    \<and> mset (answered c) + mset (awaiting c) = mset (hc_asked c) \<and> distinct (map fst (hc_asked c))
    \<and> list_all (\<lambda>(i, k, ok, msg). ok \<longrightarrow> req_id msg = i) (hc_calls c)
    \<and> (hc_closed c \<longrightarrow> hc_pending c = [])
    \<and> hc_written c @ hc_out c = concat (map (codec_encode codec) (hc_requests c))"
proof -
  have "takes_bytes codec" using assms(2) codecs_take_bytes by blast
  from run_accounted [OF assms(1) this new_accounted] obtain c
    where "hc_run codec f es (new_HelperClient rfd wfd timeout z) = Some c" "accounted codec [] c" by blast
  then show ?thesis by (auto simp: accounted_def)
qed

text \<open>A request, its reply, the request the owner sends from the callback, and then the helper's end of
  file.\<close>

definition sample_owner :: "(nat, unit) owner" where
  "sample_owner = (\<lambda>k ok msg c. if ok then helper_send text_codec (\<lambda>k ok msg c. c) ''again'' [] (Some k) 0 [] c else c)"

definition sample_events :: "nat HcEvent list" where
  "sample_events = [HcSend ''ping'' [] (Some 7) 0 [],
     HcIo 4 True False False [ReadSome (text_encode \<lparr>req_id = 1, msg_type = ''ok'', msg_fields = []\<rparr>)] [],
     HcIo 4 True False False [ReadSome []] []]"

theorem helper_exactly_once_witness:
  "\<exists>c. hc_run text_codec sample_owner sample_events (new_HelperClient 4 5 0 ()) = Some c
    \<and> mset (answered c) + mset (awaiting c) = mset (hc_asked c) \<and> distinct (map fst (hc_asked c))
    \<and> hc_written c @ hc_out c = concat (map text_encode (hc_requests c))"
proof -
  have "owner_ok text_codec sample_owner" unfolding sample_owner_def by (rule sending_owner_ok)
  from helper_exactly_once [OF this, of sample_events 4 5 0 "()"] show ?thesis
    by (simp add: text_codec_def) blast
qed

end
