(* ===== verification/Storage_Client.thy ===== *)
theory Storage_Client
  imports Helper_Client
begin

section \<open>The storage client (ipc/storage\_client.h, ipc/storage\_client.cc)\<close>

text \<open>
  Requests to the storage helper over a helper client, with an outbox of reports not yet covered by
  a commit watermark. The record extends the helper client's: the storage client's callbacks run
  inside that client's handlers and change the outbox. A callback is a \<open>StorageCb\<close>, which holds
  the caller's own callback \<open>'r\<close> where there is one.
\<close>

subsection \<open>Numbers in fields\<close>

text \<open>The digits at the front of a field, as all the parsers here read them; \<open>std::uint64_t\<close> wraps. The signed
  parsers have no overflow check; they are modelled on the values they are defined for.\<close>

fun digits_from :: "nat \<Rightarrow> string \<Rightarrow> nat" where
  "digits_from v [] = v"
| "digits_from v (c # s) = (if \<not> is_digit c then v else digits_from (v * 10 + digit_val c) s)"

definition ParseI64 :: "string \<Rightarrow> int" where
  "ParseI64 s =
     (if s \<noteq> [] \<and> (hd s = CHR ''-'' \<or> hd s = CHR ''+'')
      then let v = int (digits_from 0 (tl s)) in if hd s = CHR ''-'' then - v else v
      else int (digits_from 0 s))"

definition as_u64 :: "int \<Rightarrow> nat" where
  "as_u64 i = nat (i mod 2 ^ 64)"

definition ParseU64 :: "string \<Rightarrow> HelperMessage \<Rightarrow> nat" where
  "ParseU64 key m = (case msg_get key m of None \<Rightarrow> 0 | Some s \<Rightarrow> digits_from 0 s mod 2 ^ 64)"

subsection \<open>Pulled orders\<close>

record PulledOrder =
  po_id :: nat
  po_price :: int
  po_leaves :: int
  po_seq :: nat

text \<open>Up to four comma-separated numbers; missing ones are zero.\<close>

fun parse_fields :: "nat \<Rightarrow> string list \<Rightarrow> int list" where
  "parse_fields 0 fs = []"
| "parse_fields (Suc n) [] = 0 # parse_fields n []"
| "parse_fields (Suc n) (f # fs) = ParseI64 f # parse_fields n fs"

definition parse_record :: "string \<Rightarrow> PulledOrder" where
  "parse_record rec =
     (let f = parse_fields 4 (split_on CHR '','' rec)
      in \<lparr>po_id = as_u64 (f ! 0), po_price = f ! 1, po_leaves = f ! 2, po_seq = as_u64 (f ! 3)\<rparr>)"

definition ParseOrders :: "string \<Rightarrow> PulledOrder list" where
  "ParseOrders blob = map parse_record (filter (\<lambda>rec. rec \<noteq> []) (split_on CHR '';'' blob))"

subsection \<open>The client\<close>

datatype OutboxState = kPending | kAcked

record OutboxEntry =
  ob_kind :: string
  ob_state :: OutboxState

datatype 'r StorageCb =
    ReportCb "'r option"
  | CommitCb "'r option"
  | RestCb "'r option"
  | PullCb "'r option"
  | WatermarkCb "'r option"
  | PositionCb "'r option"

datatype StorageReply =
    Reported bool
  | Committed bool nat
  | Pulled bool "PulledOrder list"
  | Watermarks bool nat nat
  | Position bool int

record 'r StorageClient = "'r StorageCb HelperClient" +
  outbox :: "(nat \<times> OutboxEntry) list"

text \<open>What the caller does in its callback.\<close>

type_synonym ('r, 'z) storage_owner = "'r \<Rightarrow> StorageReply \<Rightarrow> ('r, 'z) StorageClient_scheme \<Rightarrow> ('r, 'z) StorageClient_scheme"

text \<open>The callbacks the client registers with the helper client: the outbox afterwards, and the caller's
  callback with what it is told.\<close>

definition storage_reply :: "'r StorageCb \<Rightarrow> bool \<Rightarrow> HelperMessage \<Rightarrow> (nat \<times> OutboxEntry) list
    \<Rightarrow> (nat \<times> OutboxEntry) list \<times> ('r \<times> StorageReply) option" where
  "storage_reply k ok reply ob =
     (case k of
        ReportCb cb \<Rightarrow>
          (if ok \<and> map_of ob (req_id reply) \<noteq> None
           then AList.map_entry (req_id reply) (\<lambda>e. e\<lparr>ob_state := kAcked\<rparr>) ob else ob,
           map_option (\<lambda>r. (r, Reported ok)) cb)
      | CommitCb cb \<Rightarrow>
          let watermark = (if ok then ParseU64 ''committed'' reply else 0)
          in (if ok then dropWhile (\<lambda>(i, _). i \<le> watermark) ob else ob,
              map_option (\<lambda>r. (r, Committed ok watermark)) cb)
      | RestCb cb \<Rightarrow> (ob, map_option (\<lambda>r. (r, Reported ok)) cb)
      | PullCb cb \<Rightarrow>
          let orders = (if ok then (case msg_get ''orders'' reply of None \<Rightarrow> [] | Some blob \<Rightarrow> ParseOrders blob) else [])
          in (ob, map_option (\<lambda>r. (r, Pulled ok orders)) cb)
      | WatermarkCb cb \<Rightarrow>
          let max_id = (if ok then ParseU64 ''max_id'' reply else 0);
              max_rank = (if ok then ParseU64 ''max_rank'' reply else 0)
          in (ob, map_option (\<lambda>r. (r, Watermarks ok max_id max_rank)) cb)
      | PositionCb cb \<Rightarrow>
          let net = (if ok then (case msg_get ''net'' reply of None \<Rightarrow> 0 | Some s \<Rightarrow> ParseI64 s) else 0)
          in (ob, map_option (\<lambda>r. (r, Position ok net)) cb))"

definition storage_cb :: "('r, 'z) storage_owner \<Rightarrow> ('r StorageCb, 'z StorageClient_ext) owner" where
  "storage_cb g k ok reply c =
     (let (ob, r) = storage_reply k ok reply (outbox c); c1 = c\<lparr>outbox := ob\<rparr>
      in case r of None \<Rightarrow> c1 | Some (cb, rep) \<Rightarrow> g cb rep c1)"

text \<open>The storage client runs on a codec, with the clock and the results of the writes of one event:
  the same arguments go to every send of the event.\<close>

record Link =
  link_codec :: HelperCodec
  link_now :: int
  link_ws :: "WriteResult list"

definition storage_send :: "Link \<Rightarrow> ('r, 'z) storage_owner \<Rightarrow> string \<Rightarrow> (string \<times> string) list \<Rightarrow> 'r StorageCb
    \<Rightarrow> ('r, 'z) StorageClient_scheme \<Rightarrow> ('r, 'z) StorageClient_scheme" where
  "storage_send l g ty flds k c = helper_send (link_codec l) (storage_cb g) ty flds (Some k) (link_now l) (link_ws l) c"

definition report :: "Link \<Rightarrow> ('r, 'z) storage_owner \<Rightarrow> string \<Rightarrow> string \<Rightarrow> (string \<times> string) list \<Rightarrow> 'r option
    \<Rightarrow> ('r, 'z) StorageClient_scheme \<Rightarrow> ('r, 'z) StorageClient_scheme" where
  "report l g ty kind flds cb c =
     (let i = next_req_id c; c1 = storage_send l g ty flds (ReportCb cb) c
      in c1\<lparr>outbox := map_emplace i \<lparr>ob_kind = kind, ob_state = kPending\<rparr> (outbox c1)\<rparr>)"

definition report_order :: "Link \<Rightarrow> ('r, 'z) storage_owner \<Rightarrow> (string \<times> string) list \<Rightarrow> 'r option
    \<Rightarrow> ('r, 'z) StorageClient_scheme \<Rightarrow> ('r, 'z) StorageClient_scheme" where
  "report_order l g flds cb = report l g ''report_order'' ''order'' flds cb"

definition report_trade :: "Link \<Rightarrow> ('r, 'z) storage_owner \<Rightarrow> (string \<times> string) list \<Rightarrow> 'r option
    \<Rightarrow> ('r, 'z) StorageClient_scheme \<Rightarrow> ('r, 'z) StorageClient_scheme" where
  "report_trade l g flds cb = report l g ''report_trade'' ''trade'' flds cb"

definition report_fill :: "Link \<Rightarrow> ('r, 'z) storage_owner \<Rightarrow> (string \<times> string) list \<Rightarrow> 'r option
    \<Rightarrow> ('r, 'z) StorageClient_scheme \<Rightarrow> ('r, 'z) StorageClient_scheme" where
  "report_fill l g flds cb = report l g ''report_fill'' ''fill'' flds cb"

definition commit_storage :: "Link \<Rightarrow> ('r, 'z) storage_owner \<Rightarrow> 'r option \<Rightarrow> ('r, 'z) StorageClient_scheme \<Rightarrow> ('r, 'z) StorageClient_scheme" where
  "commit_storage l g cb = storage_send l g ''commit'' [] (CommitCb cb)"

definition rest_fields :: "string \<Rightarrow> string \<Rightarrow> nat \<Rightarrow> int \<Rightarrow> int \<Rightarrow> nat \<Rightarrow> (string \<times> string) list" where
  "rest_fields sy sd i px lv sq =
     [(''symbol'', sy), (''side'', sd), (''id'', decimal i), (''price'', to_string_int px),
      (''leaves'', to_string_int lv), (''seq'', decimal sq)]"

definition report_rest :: "Link \<Rightarrow> ('r, 'z) storage_owner \<Rightarrow> string \<Rightarrow> string \<Rightarrow> nat \<Rightarrow> int \<Rightarrow> int \<Rightarrow> nat \<Rightarrow> 'r option
    \<Rightarrow> ('r, 'z) StorageClient_scheme \<Rightarrow> ('r, 'z) StorageClient_scheme" where
  "report_rest l g sy sd i px lv sq cb =
     storage_send l g ''report_rest'' (rest_fields sy sd i px lv sq) (RestCb cb)"

definition cancel_fields :: "string \<Rightarrow> nat \<Rightarrow> (string \<times> string) list" where
  "cancel_fields sy i = [(''symbol'', sy), (''id'', decimal i)]"

definition report_cancel :: "Link \<Rightarrow> ('r, 'z) storage_owner \<Rightarrow> string \<Rightarrow> nat \<Rightarrow> 'r option
    \<Rightarrow> ('r, 'z) StorageClient_scheme \<Rightarrow> ('r, 'z) StorageClient_scheme" where
  "report_cancel l g sy i cb = storage_send l g ''report_cancel'' (cancel_fields sy i) (RestCb cb)"

definition pull_fields :: "string \<Rightarrow> string \<Rightarrow> int \<Rightarrow> int \<Rightarrow> (string \<times> string) list" where
  "pull_fields sy sd from_price n =
     [(''symbol'', sy), (''side'', sd), (''from_price'', to_string_int from_price), (''count'', to_string_int n)]"

definition pull_levels :: "Link \<Rightarrow> ('r, 'z) storage_owner \<Rightarrow> string \<Rightarrow> string \<Rightarrow> int \<Rightarrow> int \<Rightarrow> 'r option
    \<Rightarrow> ('r, 'z) StorageClient_scheme \<Rightarrow> ('r, 'z) StorageClient_scheme" where
  "pull_levels l g sy sd from_price n cb =
     storage_send l g ''pull_levels'' (pull_fields sy sd from_price n) (PullCb cb)"

definition pull_watermarks :: "Link \<Rightarrow> ('r, 'z) storage_owner \<Rightarrow> 'r option \<Rightarrow> ('r, 'z) StorageClient_scheme \<Rightarrow> ('r, 'z) StorageClient_scheme" where
  "pull_watermarks l g cb = storage_send l g ''pull_watermarks'' [] (WatermarkCb cb)"

definition pull_position :: "Link \<Rightarrow> ('r, 'z) storage_owner \<Rightarrow> string \<Rightarrow> string \<Rightarrow> 'r option
    \<Rightarrow> ('r, 'z) StorageClient_scheme \<Rightarrow> ('r, 'z) StorageClient_scheme" where
  "pull_position l g user sy cb = storage_send l g ''pull_position'' [(''user'', user), (''symbol'', sy)] (PositionCb cb)"

definition processed_pending :: "('r, 'z) StorageClient_scheme \<Rightarrow> nat" where
  "processed_pending c = length (outbox c)"

end
