(* ===== verification/Storage_Helper.thy ===== *)
theory Storage_Helper
  imports Storage_Client
begin

section \<open>The reference storage helper (tools/storage\_helper/main.cc)\<close>

text \<open>
  The process at the other end of the storage client: it keeps the attribution of every reported
  order, net net_positions, and the full resting book, and answers pulls from it. \<open>std::map\<close>s appear as
  association lists in key order; \<open>std::sort\<close> by sequence number is modelled by a stable sort.
\<close>

record OrderInfo =
  oi_owner :: string
  oi_side :: string
  oi_symbol :: string

record RestingOrder =
  ro_id :: nat
  ro_price :: int
  ro_leaves :: int
  ro_seq :: nat

type_synonym book_key = "string \<times> string"
type_synonym price_levels_map = "(int \<times> RestingOrder list) list"

record StorageState =
  highest :: nat
  order_info :: "(nat \<times> OrderInfo) list"
  net_positions :: "(book_key \<times> int) list"
  resting_book :: "(book_key \<times> price_levels_map) list"
  rest_index :: "(nat \<times> (string \<times> string \<times> int)) list"

definition new_StorageState :: StorageState where
  "new_StorageState = \<lparr>highest = 0, order_info = [], net_positions = [], resting_book = [], rest_index = []\<rparr>"

definition ParseInt :: "string \<Rightarrow> int" where
  "ParseInt s =
     (if s \<noteq> [] \<and> (hd s = CHR ''-'' \<or> hd s = CHR ''+'')
      then let v = int (digits_from 0 (tl s)) in if hd s = CHR ''-'' then - v else v
      else int (digits_from 0 s))"

definition store_side :: "book_key \<Rightarrow> StorageState \<Rightarrow> price_levels_map" where
  "store_side key st = (case map_of (resting_book st) key of None \<Rightarrow> [] | Some m \<Rightarrow> m)"

definition store_level :: "book_key \<Rightarrow> int \<Rightarrow> StorageState \<Rightarrow> RestingOrder list" where
  "store_level key px st = (case map_of (store_side key st) px of None \<Rightarrow> [] | Some v \<Rightarrow> v)"

definition put_level :: "book_key \<Rightarrow> int \<Rightarrow> RestingOrder list \<Rightarrow> StorageState \<Rightarrow> StorageState" where
  "put_level key px v st = st\<lparr>resting_book := AList.update key (map_put px v (store_side key st)) (resting_book st)\<rparr>"

definition drop_from_level :: "nat \<Rightarrow> book_key \<Rightarrow> int \<Rightarrow> StorageState \<Rightarrow> StorageState" where
  "drop_from_level i key px st =
     (case map_of (resting_book st) key of
        None \<Rightarrow> st
      | Some m \<Rightarrow>
          (case map_of m px of
             None \<Rightarrow> st
           | Some v \<Rightarrow>
               let v' = filter (\<lambda>d. ro_id d \<noteq> i) v;
                   m' = (if v' = [] then AList.delete px m else AList.update px v' m)
               in st\<lparr>resting_book := (if m' = [] then AList.delete key (resting_book st)
                                       else AList.update key m' (resting_book st))\<rparr>))"

definition RemoveResting :: "nat \<Rightarrow> StorageState \<Rightarrow> StorageState" where
  "RemoveResting i st =
     (case map_of (rest_index st) i of
        None \<Rightarrow> st
      | Some (sy, sd, px) \<Rightarrow>
          (drop_from_level i (sy, sd) px st)\<lparr>rest_index := AList.delete i (rest_index st)\<rparr>)"

subsection \<open>Handling one request\<close>

definition get_or :: "string \<Rightarrow> string \<Rightarrow> HelperMessage \<Rightarrow> string" where
  "get_or dflt key req = (case msg_get key req of None \<Rightarrow> dflt | Some s \<Rightarrow> s)"

definition int_field :: "string \<Rightarrow> HelperMessage \<Rightarrow> int" where
  "int_field key req = (case msg_get key req of None \<Rightarrow> 0 | Some s \<Rightarrow> ParseInt s)"

definition handle_order :: "HelperMessage \<Rightarrow> StorageState \<Rightarrow> StorageState" where
  "handle_order req st0 =
     (let st = st0\<lparr>highest := max (highest st0) (req_id req)\<rparr>
      in case msg_get ''id'' req of
           None \<Rightarrow> st
         | Some s \<Rightarrow> st\<lparr>order_info := map_put (as_u64 (ParseInt s))
             \<lparr>oi_owner = get_or [] ''owner'' req, oi_side = get_or [] ''side'' req, oi_symbol = get_or [] ''symbol'' req\<rparr>
             (order_info st)\<rparr>)"

definition add_position :: "nat \<Rightarrow> int \<Rightarrow> StorageState \<Rightarrow> StorageState" where
  "add_position i q st =
     (case map_of (order_info st) i of
        None \<Rightarrow> st
      | Some info \<Rightarrow>
          if oi_owner info = [] then st
          else let key = (oi_owner info, oi_symbol info);
                   old = (case map_of (net_positions st) key of None \<Rightarrow> 0 | Some n \<Rightarrow> n)
               in st\<lparr>net_positions := AList.update key (old + (if oi_side info = ''buy'' then q else - q)) (net_positions st)\<rparr>)"

definition take_leaves :: "nat \<Rightarrow> int \<Rightarrow> RestingOrder \<Rightarrow> RestingOrder" where
  "take_leaves i q d = (if ro_id d = i then d\<lparr>ro_leaves := ro_leaves d - q\<rparr> else d)"

definition fill_resting :: "nat \<Rightarrow> int \<Rightarrow> StorageState \<Rightarrow> StorageState" where
  "fill_resting i q st =
     (case map_of (rest_index st) i of
        None \<Rightarrow> st
      | Some (sy, sd, px) \<Rightarrow>
          let v = map (take_leaves i q) (store_level (sy, sd) px st);
              st1 = put_level (sy, sd) px v st;
              leaves_left = fold (\<lambda>d acc. if ro_id d = i then ro_leaves d else acc) v 0
          in if leaves_left \<le> 0 then RemoveResting i st1 else st1)"

definition handle_fill :: "HelperMessage \<Rightarrow> StorageState \<Rightarrow> StorageState" where
  "handle_fill req st0 =
     (let st = st0\<lparr>highest := max (highest st0) (req_id req)\<rparr>
      in case (msg_get ''id'' req, msg_get ''qty'' req) of
           (Some s, Some q) \<Rightarrow> fill_resting (as_u64 (ParseInt s)) (ParseInt q) (add_position (as_u64 (ParseInt s)) (ParseInt q) st)
         | _ \<Rightarrow> st)"

definition rest_order :: "book_key \<Rightarrow> RestingOrder \<Rightarrow> StorageState \<Rightarrow> StorageState" where
  "rest_order key d st =
     (let st2 = put_level key (ro_price d) (store_level key (ro_price d) st @ [d]) st
      in st2\<lparr>rest_index := AList.update (ro_id d) (fst key, snd key, ro_price d) (rest_index st2)\<rparr>)"

definition handle_rest :: "HelperMessage \<Rightarrow> StorageState \<Rightarrow> StorageState" where
  "handle_rest req st =
     (case (msg_get ''symbol'' req, msg_get ''side'' req, msg_get ''id'' req) of
        (Some sy, Some sd, Some s) \<Rightarrow>
          let d = \<lparr>ro_id = as_u64 (ParseInt s), ro_price = int_field ''price'' req,
                   ro_leaves = int_field ''leaves'' req, ro_seq = as_u64 (int_field ''seq'' req)\<rparr>
          in rest_order (sy, sd) d (RemoveResting (ro_id d) st)
      | _ \<Rightarrow> st)"

definition order_record :: "RestingOrder \<Rightarrow> string" where
  "order_record d = decimal (ro_id d) @ '','' @ to_string_int (ro_price d) @ '','' @ to_string_int (ro_leaves d) @ '',''
     @ decimal (ro_seq d) @ '';''"

fun emit_levels :: "(int \<Rightarrow> bool) \<Rightarrow> int \<Rightarrow> price_levels_map \<Rightarrow> string \<times> int \<Rightarrow> string \<times> int" where
  "emit_levels beyond n [] acc = acc"
| "emit_levels beyond n ((px, v) # m) (blob, levels) =
     (if \<not> levels < n then (blob, levels)
      else if beyond px then emit_levels beyond n m (blob @ concat (map order_record (sort_key ro_seq v)), levels + 1)
      else emit_levels beyond n m (blob, levels))"

definition pull_from_book :: "string \<Rightarrow> string \<Rightarrow> int \<Rightarrow> int \<Rightarrow> StorageState \<Rightarrow> string \<times> int" where
  "pull_from_book sy sd from_price n st =
     (case map_of (resting_book st) (sy, sd) of
        None \<Rightarrow> ([], 0)
      | Some m \<Rightarrow> if sd = ''buy'' then emit_levels (\<lambda>px. px < from_price) n (rev m) ([], 0)
                  else emit_levels (\<lambda>px. px > from_price) n m ([], 0))"

definition respond :: "HelperMessage \<Rightarrow> string \<Rightarrow> (string \<times> string) list \<Rightarrow> HelperMessage" where
  "respond req ty flds = \<lparr>req_id = req_id req, msg_type = ty, msg_fields = flds\<rparr>"

definition Handle :: "HelperMessage \<Rightarrow> StorageState \<Rightarrow> HelperMessage \<times> StorageState" where
  "Handle req st =
     (if msg_type req = ''report_order'' then (respond req (msg_type req) [(''status'', ''ok'')], handle_order req st)
      else if msg_type req = ''report_fill'' then (respond req (msg_type req) [(''status'', ''ok'')], handle_fill req st)
      else if msg_type req = ''report_trade''
      then (respond req (msg_type req) [(''status'', ''ok'')], st\<lparr>highest := max (highest st) (req_id req)\<rparr>)
      else if msg_type req = ''commit'' then (respond req ''commit'' [(''committed'', decimal (highest st))], st)
      else if msg_type req = ''pull_position''
      then (let net = (case (msg_get ''user'' req, msg_get ''symbol'' req) of
                         (Some user, Some sy) \<Rightarrow> (case map_of (net_positions st) (user, sy) of None \<Rightarrow> 0 | Some n \<Rightarrow> n)
                       | _ \<Rightarrow> 0)
            in (respond req ''position'' [(''net'', to_string_int net)], st))
      else if msg_type req = ''report_rest'' then (respond req ''report_rest'' [(''status'', ''ok'')], handle_rest req st)
      else if msg_type req = ''report_cancel''
      then (respond req ''report_cancel'' [(''status'', ''ok'')],
            (case msg_get ''id'' req of None \<Rightarrow> st | Some s \<Rightarrow> RemoveResting (as_u64 (ParseInt s)) st))
      else if msg_type req = ''pull_levels''
      then (case (msg_get ''symbol'' req, msg_get ''side'' req) of
              (Some sy, Some sd) \<Rightarrow>
                let (blob, levels) = pull_from_book sy sd (int_field ''from_price'' req) (int_field ''count'' req) st
                in (respond req ''levels'' [(''symbol'', sy), (''side'', sd), (''orders'', blob), (''count'', to_string_int levels)], st)
            | _ \<Rightarrow> (respond req ''levels'' [(''orders'', []), (''count'', to_string_int 0)], st))
      else if msg_type req = ''pull_watermarks''
      then (respond req (msg_type req)
              [(''max_id'', decimal (fold (\<lambda>(i, _). max i) (order_info st) 0)),
               (''max_rank'', decimal (fold (\<lambda>(_, m). fold (\<lambda>(_, v). fold (\<lambda>d. max (ro_seq d)) v) m) (resting_book st) 0))], st)
      else if msg_type req = ''ping'' then (respond req ''pong'' [], st)
      else (respond req ''error'' [(''reason'', ''unknown type: '' @ msg_type req)], st))"

text \<open>The loop of \<open>main\<close>: the requests in the buffered bytes are answered in order; the result is
  what was written and whether the loop goes on reading.\<close>

definition serve_step :: "StorageState \<times> bytes \<times> bytes
    \<Rightarrow> ((StorageState \<times> bytes \<times> bytes) + (StorageState \<times> bytes \<times> bytes \<times> bool)) option" where
  "serve_step = (\<lambda>(st, v, out).
     case text_decode v of
       kIncomplete \<Rightarrow> Some (Inr (st, v, out, True))
     | kError err \<Rightarrow> Some (Inr (st, v, out, False))
     | kComplete req n \<Rightarrow>
         let (resp, st') = Handle req st
         in Some (Inl (st', drop n v, out @ text_encode resp)))"

fun serve :: "bytes list \<Rightarrow> StorageState \<times> bytes \<times> bytes \<Rightarrow> (StorageState \<times> bytes \<times> bytes \<times> bool) option" where
  "serve chunks (st, v, out) = do {
     (st1, v1, out1, going) \<leftarrow> iter serve_step (st, v, out);
     (case chunks of
        [] \<Rightarrow> Some (st1, v1, out1, going)
      | c # cs \<Rightarrow> if going \<and> c \<noteq> [] then serve cs (st1, v1 @ c, out1) else Some (st1, v1, out1, going))
   }"

subsection \<open>Numbers survive the wire\<close>

lemma digits_from_digits: "list_all is_digit ds \<Longrightarrow> digits_from v (ds @ s) = digits_from (foldl (\<lambda>v c. v * 10 + digit_val c) v ds) s"
  by (induction ds arbitrary: v) simp_all

lemma digits_from_decimal [simp]: "digits_from 0 (decimal n) = n"
  using digits_from_digits [OF decimal_digits(2) [of n], of 0 "[]"] of_decimal_decimal [of n] by (simp add: of_decimal_def)

lemma digit_chars: "is_digit c \<Longrightarrow> c \<noteq> CHR ''-'' \<and> c \<noteq> CHR ''+'' \<and> c \<noteq> CHR '','' \<and> c \<noteq> CHR '';''"
  by (auto simp: is_digit_def)

lemma decimal_chars: "c \<in> set (decimal n) \<Longrightarrow> is_digit c"
  using decimal_digits(2) [of n] by (simp add: list_all_iff)

lemma ParseI64_eq: "ParseI64 = ParseInt"
  by (simp add: ParseI64_def ParseInt_def fun_eq_iff)

lemma ParseInt_decimal [simp]: "ParseInt (decimal n) = int n"
  using digit_chars [OF decimal_chars, OF list.set_sel(1) [OF decimal_digits(1) [of n]]] by (simp add: ParseInt_def)

lemma ParseInt_to_string [simp]: "ParseInt (to_string_int i) = i"
proof (cases "i < 0")
  case True
  then show ?thesis by (simp add: to_string_int_def ParseInt_def)
qed (simp add: to_string_int_def)

lemma as_u64_int [simp]: "n < 2 ^ 64 \<Longrightarrow> as_u64 (int n) = n"
  by (simp add: as_u64_def)

definition pulled :: "RestingOrder \<Rightarrow> PulledOrder" where
  "pulled d = \<lparr>po_id = ro_id d, po_price = ro_price d, po_leaves = ro_leaves d, po_seq = ro_seq d\<rparr>"

definition fits :: "RestingOrder \<Rightarrow> bool" where
  "fits d \<longleftrightarrow> ro_id d < 2 ^ 64 \<and> ro_seq d < 2 ^ 64"

lemma number_chars: "CHR '','' \<notin> set (decimal n)" "CHR '';'' \<notin> set (decimal n)"
  "CHR '','' \<notin> set (to_string_int i)" "CHR '';'' \<notin> set (to_string_int i)"
proof -
  show d: "CHR '','' \<notin> set (decimal n)" "CHR '';'' \<notin> set (decimal n)" for n
    using decimal_chars digit_chars by blast+
  show "CHR '','' \<notin> set (to_string_int i)" "CHR '';'' \<notin> set (to_string_int i)"
    using d by (simp_all add: to_string_int_def)
qed

lemma parse_record_back:
  assumes "fits d"
  shows "parse_record (butlast (order_record d)) = pulled d"
proof -
  have "butlast (order_record d) = decimal (ro_id d) @ CHR '','' # to_string_int (ro_price d) @ CHR '','' #
      to_string_int (ro_leaves d) @ CHR '','' # decimal (ro_seq d)"
    by (simp add: order_record_def butlast_append)
  then have "split_on CHR '','' (butlast (order_record d))
      = [decimal (ro_id d), to_string_int (ro_price d), to_string_int (ro_leaves d), decimal (ro_seq d)]"
    by (simp add: split_on_line number_chars)
  moreover have "parse_fields 4 [a, b, c, e] = [ParseInt a, ParseInt b, ParseInt c, ParseInt e]" for a b c e
    by (simp add: numeral_eq_Suc ParseI64_eq)
  ultimately show ?thesis using assms by (simp add: parse_record_def pulled_def fits_def)
qed

lemma order_record_parts:
  "order_record d = butlast (order_record d) @ [CHR '';'']" "CHR '';'' \<notin> set (butlast (order_record d))" "butlast (order_record d) \<noteq> []"
  using decimal_digits(1) [of "ro_id d"] number_chars by (auto simp: order_record_def butlast_append)

lemma ParseOrders_back: "list_all fits ds \<Longrightarrow> ParseOrders (concat (map order_record ds)) = map pulled ds"
proof (induction ds)
  case (Cons d ds)
  have "split_on CHR '';'' (order_record d @ s) = butlast (order_record d) # split_on CHR '';'' s" for s
    using split_on_line(1) [OF order_record_parts(2), of d s] order_record_parts(1) [of d]
    by (metis append.assoc append_Cons append_Nil)
  then show ?case using Cons order_record_parts(3) [of d] by (simp add: ParseOrders_def parse_record_back)
qed (simp add: ParseOrders_def)

subsection \<open>The book by level\<close>

lemma store_side_put_level: "store_side key' (put_level key px v st) = (if key' = key then map_put px v (store_side key st) else store_side key' st)"
  by (simp add: store_side_def put_level_def)

lemma store_level_put_level [simp]:
  "store_level key' px' (put_level key px v st) = (if key' = key \<and> px' = px then v else store_level key' px' st)"
  by (simp add: store_level_def store_side_put_level)

lemma store_side_drop:
  "store_side key' (drop_from_level i key px st) =
     (if key' = key \<and> map_of (store_side key st) px \<noteq> None
      then let v = filter (\<lambda>d. ro_id d \<noteq> i) (store_level key px st)
           in if v = [] then AList.delete px (store_side key st) else AList.update px v (store_side key st)
      else store_side key' st)"
proof (cases "map_of (resting_book st) key")
  case None
  then show ?thesis by (simp add: store_side_def drop_from_level_def)
next
  case (Some m)
  then have "store_side key st = m" by (simp add: store_side_def)
  then show ?thesis using Some by (cases "map_of m px") (simp_all add: drop_from_level_def store_level_def store_side_def Let_def)
qed

lemma store_level_drop [simp]:
  "store_level key' px' (drop_from_level i key px st)
     = (if key' = key \<and> px' = px then filter (\<lambda>d. ro_id d \<noteq> i) (store_level key px st) else store_level key' px' st)"
  by (auto simp: store_level_def store_side_drop Let_def split: option.splits)

lemma kept_fields [simp]:
  "rest_index (put_level key px v st) = rest_index st" "rest_index (drop_from_level i key px st) = rest_index st"
  "store_level key px (st\<lparr>rest_index := x\<rparr>) = store_level key px st" "store_side key (st\<lparr>rest_index := x\<rparr>) = store_side key st"
  "store_level key px (st\<lparr>highest := h\<rparr>) = store_level key px st" "store_side key (st\<lparr>highest := h\<rparr>) = store_side key st"
  "store_level key px (st\<lparr>order_info := y\<rparr>) = store_level key px st" "store_side key (st\<lparr>order_info := y\<rparr>) = store_side key st"
  "store_level key px (st\<lparr>net_positions := z\<rparr>) = store_level key px st" "store_side key (st\<lparr>net_positions := z\<rparr>) = store_side key st"
  by (auto simp: put_level_def drop_from_level_def store_level_def store_side_def Let_def split: option.splits)

subsection \<open>The invariant and the abstract book\<close>

text \<open>The index and the levels agree, a level holds orders of its price with distinct ids, no level is
  empty, and the levels of a book are in price order.\<close>

definition levels_ok :: "price_levels_map \<Rightarrow> bool" where
  "levels_ok m \<longleftrightarrow> sorted_wrt (<) (map fst m) \<and> list_all (\<lambda>(px, v). v \<noteq> []) m"

definition storage_ok :: "StorageState \<Rightarrow> bool" where
  "storage_ok st \<longleftrightarrow>
     (\<forall>key px d. d \<in> set (store_level key px st) \<longrightarrow> ro_price d = px \<and> map_of (rest_index st) (ro_id d) = Some (fst key, snd key, px))
     \<and> (\<forall>i sy sd px. map_of (rest_index st) i = Some (sy, sd, px) \<longrightarrow> i \<in> ro_id ` set (store_level (sy, sd) px st))
     \<and> (\<forall>key px. distinct (map ro_id (store_level key px st)))
     \<and> (\<forall>key. levels_ok (store_side key st))"

text \<open>What the helper stores is a finite map from order ids to where the order rests and what is left of it.\<close>

definition stored :: "StorageState \<Rightarrow> nat \<Rightarrow> (book_key \<times> RestingOrder) option" where
  "stored st i =
     (case map_of (rest_index st) i of
        None \<Rightarrow> None
      | Some (sy, sd, px) \<Rightarrow> map_option (\<lambda>d. ((sy, sd), d)) (find (\<lambda>d. ro_id d = i) (store_level (sy, sd) px st)))"

lemma storage_okD:
  assumes "storage_ok st"
  shows "d \<in> set (store_level key px st) \<Longrightarrow> ro_price d = px"
    "d \<in> set (store_level key px st) \<Longrightarrow> map_of (rest_index st) (ro_id d) = Some (fst key, snd key, px)"
    "map_of (rest_index st) i = Some (sy, sd, px) \<Longrightarrow> \<exists>d. d \<in> set (store_level (sy, sd) px st) \<and> ro_id d = i"
    "distinct (map ro_id (store_level key px st))"
    "sorted_wrt (<) (map fst (store_side key st))" "(px, v) \<in> set (store_side key st) \<Longrightarrow> v \<noteq> []"
    "levels_ok (store_side key st)"
proof -
  note ok = assms [unfolded storage_ok_def levels_ok_def list_all_iff]
  show "d \<in> set (store_level key px st) \<Longrightarrow> ro_price d = px"
    "d \<in> set (store_level key px st) \<Longrightarrow> map_of (rest_index st) (ro_id d) = Some (fst key, snd key, px)"
    "distinct (map ro_id (store_level key px st))" "sorted_wrt (<) (map fst (store_side key st))" using ok by blast+
  show "\<exists>d. d \<in> set (store_level (sy, sd) px st) \<and> ro_id d = i" if "map_of (rest_index st) i = Some (sy, sd, px)"
    using ok that by blast
  show "(px, v) \<in> set (store_side key st) \<Longrightarrow> v \<noteq> []" using ok by blast
  show "levels_ok (store_side key st)" using assms unfolding storage_ok_def by blast
qed

lemma stored_iff:
  assumes "storage_ok st"
  shows "stored st i = Some (key, d) \<longleftrightarrow> d \<in> set (store_level key (ro_price d) st) \<and> ro_id d = i"
proof
  assume l: "stored st i = Some (key, d)"
  then obtain sy sd px where x: "map_of (rest_index st) i = Some (sy, sd, px)" "key = (sy, sd)"
    "find (\<lambda>d. ro_id d = i) (store_level (sy, sd) px st) = Some d"
    by (auto simp: stored_def split: option.splits)
  then have "d \<in> set (store_level (sy, sd) px st)" "ro_id d = i" by (auto simp: find_Some_iff in_set_conv_nth)
  then show "d \<in> set (store_level key (ro_price d) st) \<and> ro_id d = i" using storage_okD(1) [OF assms] x(2) by metis
next
  assume r: "d \<in> set (store_level key (ro_price d) st) \<and> ro_id d = i"
  obtain sy sd where key: "key = (sy, sd)" by (cases key)
  let ?v = "store_level (sy, sd) (ro_price d) st"
  have "find (\<lambda>d. ro_id d = i) ?v \<noteq> None" using r key by (auto simp: find_None_iff)
  then obtain e where e: "find (\<lambda>d. ro_id d = i) ?v = Some e" by blast
  then have "e \<in> set ?v" "ro_id e = i" by (auto simp: find_Some_iff in_set_conv_nth)
  then have "e = d" using storage_okD(4) [OF assms, of "(sy, sd)" "ro_price d"] r key by (auto simp: distinct_map inj_on_def)
  then show "stored st i = Some (key, d)"
    using storage_okD(2) [OF assms, of d key "ro_price d"] r e key by (auto simp: stored_def)
qed

lemma store_level_Remove:
  assumes "storage_ok st"
  shows "store_level key px (RemoveResting i st) = filter (\<lambda>d. ro_id d \<noteq> i) (store_level key px st)"
proof (cases "map_of (rest_index st) i")
  case None
  then have "\<forall>d \<in> set (store_level key px st). ro_id d \<noteq> i" using storage_okD(2) [OF assms, of _ key px] by fastforce
  then show ?thesis using None by (simp add: RemoveResting_def)
next
  case (Some t)
  obtain sy sd p where t: "t = (sy, sd, p)" by (cases t)
  have "\<forall>d \<in> set (store_level key px st). ro_id d \<noteq> i" if "\<not> (key = (sy, sd) \<and> px = p)"
    using that storage_okD(2) [OF assms, of _ key px] Some t by fastforce
  then show ?thesis using Some t by (auto simp: RemoveResting_def)
qed

lemma levels_ok_put: "levels_ok m \<Longrightarrow> v \<noteq> [] \<Longrightarrow> levels_ok (map_put px v m)"
proof (cases "map_of m px")
  case None
  assume ok: "levels_ok m" "v \<noteq> []"
  have "map fst (insort_key fst (px, v) m) = insort px (map fst m)" by (induction m) auto
  moreover have "px \<notin> set (map fst m)" using None by (simp add: map_of_eq_None_iff)
  ultimately have "sorted_wrt (<) (map fst (insort_key fst (px, v) m))"
    using ok(1) by (simp add: levels_ok_def strict_sorted_iff sorted_insort distinct_insort)
  then show ?thesis using None ok by (auto simp: map_put_def levels_ok_def list_all_iff set_insort_key)
next
  case (Some w)
  assume ok: "levels_ok m" "v \<noteq> []"
  have "px \<in> set (map fst m)" using Some by (force dest: map_of_SomeD)
  moreover have "set (AList.update px v m) \<subseteq> insert (px, v) (set m)" by (induction m) auto
  ultimately show ?thesis using Some ok by (auto simp: map_put_def levels_ok_def list_all_iff update_keys)
qed

lemma levels_ok_delete: "levels_ok m \<Longrightarrow> levels_ok (AList.delete px m)"
proof -
  assume ok: "levels_ok m"
  have "set (AList.delete px m) \<subseteq> set m" by (auto simp: AList.delete_eq)
  then show ?thesis using ok by (auto simp: levels_ok_def list_all_iff sorted_wrt_filter)
qed

lemma levels_ok_Remove: "levels_ok (store_side key st) \<Longrightarrow> levels_ok (store_side key (RemoveResting i st))"
proof (cases "map_of (rest_index st) i")
  case (Some t)
  assume ok: "levels_ok (store_side key st)"
  obtain sy sd p where t: "t = (sy, sd, p)" by (cases t)
  have "AList.update p v (store_side key st) = map_put p v (store_side key st)" if "map_of (store_side key st) p \<noteq> None" for v
    using that by (auto simp: map_put_def)
  then show ?thesis using ok Some t levels_ok_put [OF ok] levels_ok_delete [OF ok]
    by (auto simp: RemoveResting_def store_side_drop Let_def)
qed (simp add: RemoveResting_def)

lemma rest_index_Remove [simp]: "map_of (rest_index (RemoveResting i st)) = (map_of (rest_index st))(i := None)"
  by (auto simp: RemoveResting_def fun_eq_iff split: option.splits)

lemma Remove_ok:
  assumes "storage_ok st"
  shows "storage_ok (RemoveResting i st)"
  unfolding storage_ok_def
proof (intro conjI allI impI)
  fix key px d assume "d \<in> set (store_level key px (RemoveResting i st))"
  then have d: "d \<in> set (store_level key px st)" "ro_id d \<noteq> i" by (auto simp: store_level_Remove [OF assms])
  then show "ro_price d = px" "map_of (rest_index (RemoveResting i st)) (ro_id d) = Some (fst key, snd key, px)"
    using storage_okD(1,2) [OF assms d(1)] by simp_all
next
  fix j sy sd px assume "map_of (rest_index (RemoveResting i st)) j = Some (sy, sd, px)"
  then have "map_of (rest_index st) j = Some (sy, sd, px)" "j \<noteq> i" by (auto split: if_splits)
  then show "j \<in> ro_id ` set (store_level (sy, sd) px (RemoveResting i st))"
    using storage_okD(3) [OF assms, of j sy sd px] by (auto simp: store_level_Remove [OF assms])
next
  fix key px
  show "distinct (map ro_id (store_level key px (RemoveResting i st)))"
    using storage_okD(4) [OF assms, of key px] by (simp add: store_level_Remove [OF assms] distinct_map_filter)
  show "levels_ok (store_side key (RemoveResting i st))"
    using assms levels_ok_Remove unfolding storage_ok_def by blast
qed

lemma stored_eqI:
  assumes "\<And>key d. stored st i = Some (key, d) \<longleftrightarrow> x = Some (key, d)"
  shows "stored st i = x"
  using assms by (metis option.exhaust surj_pair)

lemma stored_Remove:
  assumes "storage_ok st"
  shows "stored (RemoveResting i st) = (stored st)(i := None)"
proof (rule ext, rule stored_eqI)
  fix j key d
  show "stored (RemoveResting i st) j = Some (key, d) \<longleftrightarrow> ((stored st)(i := None)) j = Some (key, d)"
    unfolding stored_iff [OF Remove_ok [OF assms]] by (auto simp: stored_iff [OF assms] store_level_Remove [OF assms])
qed

lemma sorted_keys_distinct: "sorted_wrt (<) xs \<Longrightarrow> distinct xs" for xs :: "int list"
  by (simp add: strict_sorted_iff)

lemma map_of_in: "sorted_wrt (<) (map fst m) \<Longrightarrow> (px, v) \<in> set m \<Longrightarrow> map_of m px = Some v" for px :: int
  by (simp add: sorted_keys_distinct)

lemma put_level_ok:
  assumes ok: "storage_ok st" and old: "map ro_id v = map ro_id (store_level key px st)" "v \<noteq> []"
    and px: "list_all (\<lambda>d. ro_price d = px) v"
  shows "storage_ok (put_level key px v st)"
  unfolding storage_ok_def
proof (intro conjI allI impI)
  have ids: "ro_id ` set v = ro_id ` set (store_level key px st)" using old(1) by (metis set_map)
  fix key' px' d assume d: "d \<in> set (store_level key' px' (put_level key px v st))"
  show "ro_price d = px'" using d px storage_okD(1) [OF ok, of d key' px'] by (auto simp: list_all_iff split: if_splits)
  show "map_of (rest_index (put_level key px v st)) (ro_id d) = Some (fst key', snd key', px')"
  proof (cases "key' = key \<and> px' = px")
    case True
    then have "ro_id d \<in> ro_id ` set (store_level key px st)" using d ids by auto
    then show ?thesis using storage_okD(2) [OF ok] True by auto
  next
    case False
    then show ?thesis using d storage_okD(2) [OF ok, of d key' px'] by (auto split: if_splits)
  qed
next
  have ids: "ro_id ` set v = ro_id ` set (store_level key px st)" using old(1) by (metis set_map)
  fix j sy sd px' assume "map_of (rest_index (put_level key px v st)) j = Some (sy, sd, px')"
  then show "j \<in> ro_id ` set (store_level (sy, sd) px' (put_level key px v st))"
    using storage_okD(3) [OF ok, of j sy sd px'] ids by auto
next
  fix key' px'
  show "distinct (map ro_id (store_level key' px' (put_level key px v st)))"
    using storage_okD(4) [OF ok] old(1) by simp
  show "levels_ok (store_side key' (put_level key px v st))"
    using storage_okD(7) [OF ok] levels_ok_put old(2) by (simp add: store_side_put_level)
qed

lemma store_level_rest [simp]:
  "store_level key' px (rest_order key d st) = store_level key' px st @ (if key' = key \<and> px = ro_price d then [d] else [])"
  by (simp add: rest_order_def Let_def)

lemma rest_order_ok:
  assumes ok: "storage_ok st" and new: "map_of (rest_index st) (ro_id d) = None"
  shows "storage_ok (rest_order key d st)"
  unfolding storage_ok_def
proof (intro conjI allI impI)
  have idx: "map_of (rest_index (rest_order key d st)) = (map_of (rest_index st))(ro_id d \<mapsto> (fst key, snd key, ro_price d))"
    by (simp add: rest_order_def Let_def)
  {
    fix key' px e assume e: "e \<in> set (store_level key' px (rest_order key d st))"
    show "ro_price e = px" using e storage_okD(1) [OF ok, of e key' px] by (auto split: if_splits)
    show "map_of (rest_index (rest_order key d st)) (ro_id e) = Some (fst key', snd key', px)"
    proof (cases "e \<in> set (store_level key' px st)")
      case True
      then have "ro_id e \<noteq> ro_id d" using storage_okD(2) [OF ok True] new by auto
      then show ?thesis using storage_okD(2) [OF ok True] idx by simp
    next
      case False
      then show ?thesis using e idx by (simp split: if_splits)
    qed
  next
    fix j sy sd px assume "map_of (rest_index (rest_order key d st)) j = Some (sy, sd, px)"
    then show "j \<in> ro_id ` set (store_level (sy, sd) px (rest_order key d st))"
      using storage_okD(3) [OF ok, of j sy sd px] unfolding idx by (auto split: if_splits)
  next
    fix key' px
    have "ro_id d \<notin> ro_id ` set (store_level key' px st)" using storage_okD(2) [OF ok, of _ key' px] new by fastforce
    then show "distinct (map ro_id (store_level key' px (rest_order key d st)))" using storage_okD(4) [OF ok, of key' px]
      by (cases "key' = key \<and> px = ro_price d") auto
    show "levels_ok (store_side key' (rest_order key d st))"
      using storage_okD(7) [OF ok] by (simp add: rest_order_def Let_def store_side_put_level levels_ok_put)
  }
qed

lemma stored_rest:
  assumes "storage_ok st" "map_of (rest_index st) (ro_id d) = None"
  shows "stored (rest_order key d st) = (stored st)(ro_id d \<mapsto> (key, d))"
proof (rule ext, rule stored_eqI)
  have new: "ro_id e \<noteq> ro_id d" if "e \<in> set (store_level k px st)" for e k px
    using storage_okD(2) [OF assms(1) that] assms(2) by auto
  fix j k e
  show "stored (rest_order key d st) j = Some (k, e) \<longleftrightarrow> ((stored st)(ro_id d \<mapsto> (key, d))) j = Some (k, e)"
    unfolding stored_iff [OF rest_order_ok [OF assms]] using new [of e k "ro_price e"] by (auto simp: stored_iff [OF assms(1)])
qed

text \<open>A fill takes from the order and drops it when nothing is left.\<close>

lemma fold_no_leaves: "i \<notin> ro_id ` set v \<Longrightarrow> fold (\<lambda>d acc. if ro_id d = i then ro_leaves d else acc) v acc = acc"
  by (induction v arbitrary: acc) auto

lemma fold_leaves:
  "distinct (map ro_id v) \<Longrightarrow> d \<in> set v \<Longrightarrow> fold (\<lambda>e acc. if ro_id e = ro_id d then ro_leaves e else acc) v acc = ro_leaves d"
proof (induction v arbitrary: acc)
  case (Cons e v)
  show ?case
  proof (cases "e = d")
    case True
    then show ?thesis using Cons.prems(1) by (simp add: fold_no_leaves)
  next
    case False
    then have "d \<in> set v" using Cons.prems(2) by simp
    moreover then have "ro_id e \<noteq> ro_id d" using Cons.prems(1) by auto
    ultimately show ?thesis using Cons by simp
  qed
qed simp

lemma take_leaves_keeps [simp]: "ro_id (take_leaves i q e) = ro_id e" "ro_price (take_leaves i q e) = ro_price e"
  by (simp_all add: take_leaves_def)

lemma take_leaves_image:
  assumes "distinct (map ro_id v)" "d \<in> set v" "ro_id d = i"
  shows "e \<in> take_leaves i q ` set v \<and> ro_id e = j
    \<longleftrightarrow> (if j = i then e = d\<lparr>ro_leaves := ro_leaves d - q\<rparr> else e \<in> set v \<and> ro_id e = j)"
proof (cases "j = i")
  case True
  have d': "take_leaves i q d = d\<lparr>ro_leaves := ro_leaves d - q\<rparr>" using assms(3) by (simp add: take_leaves_def)
  have "e = take_leaves i q d" if e: "e \<in> take_leaves i q ` set v" "ro_id e = i"
  proof -
    obtain e' where e': "e' \<in> set v" "e = take_leaves i q e'" using e(1) by blast
    then have "e' = d" using assms e(2) by (auto simp: distinct_map inj_on_def)
    then show ?thesis using e'(2) by simp
  qed
  moreover have "take_leaves i q d \<in> take_leaves i q ` set v" using assms(2) by (rule imageI)
  moreover have "ro_id (take_leaves i q d) = i" using assms(3) by simp
  ultimately have "e \<in> take_leaves i q ` set v \<and> ro_id e = i \<longleftrightarrow> e = take_leaves i q d" by blast
  then show ?thesis using True d' by simp
next
  case False
  have "e \<in> take_leaves i q ` set v \<longleftrightarrow> e \<in> set v" if i: "ro_id e \<noteq> i"
  proof
    assume "e \<in> take_leaves i q ` set v"
    then obtain e' where "e' \<in> set v" "e = take_leaves i q e'" by blast
    then show "e \<in> set v" using i by (simp add: take_leaves_def split: if_splits)
  next
    assume "e \<in> set v"
    then have "take_leaves i q e \<in> take_leaves i q ` set v" by (rule imageI)
    then show "e \<in> take_leaves i q ` set v" using i by (simp add: take_leaves_def)
  qed
  then show ?thesis using False by auto
qed

lemma fill_spec:
  assumes ok: "storage_ok st"
  shows "storage_ok (fill_resting i q st)"
    and "stored (fill_resting i q st) = (case stored st i of
           None \<Rightarrow> stored st
         | Some (key, d) \<Rightarrow> (stored st)(i := if ro_leaves d - q \<le> 0 then None else Some (key, d\<lparr>ro_leaves := ro_leaves d - q\<rparr>)))"
proof -
  have "storage_ok (fill_resting i q st) \<and> stored (fill_resting i q st) = (case stored st i of
           None \<Rightarrow> stored st
         | Some (key, d) \<Rightarrow> (stored st)(i := if ro_leaves d - q \<le> 0 then None else Some (key, d\<lparr>ro_leaves := ro_leaves d - q\<rparr>)))"
  proof (cases "map_of (rest_index st) i")
    case None
    then show ?thesis using ok by (simp add: fill_resting_def stored_def)
  next
    case (Some t)
    obtain sy sd px where t: "t = (sy, sd, px)" by (cases t)
    let ?key = "(sy, sd)" and ?v = "store_level (sy, sd) px st"
    obtain d where d: "d \<in> set ?v" "ro_id d = i" using storage_okD(3) [OF ok] Some t by blast
    have px: "ro_price d = px" using storage_okD(1) [OF ok d(1)] .
    have sd: "stored st i = Some (?key, d)" using d px by (simp add: stored_iff [OF ok])
    let ?w = "map (take_leaves i q) ?v" and ?st = "put_level ?key px (map (take_leaves i q) ?v) st"
    have ok1: "storage_ok ?st"
      by (rule put_level_ok [OF ok]) (use d storage_okD(1) [OF ok, of _ ?key px] in \<open>auto simp: list_all_iff\<close>)
    note moved = take_leaves_image [OF storage_okD(4) [OF ok, of ?key px] d, of _ q]
    have st1: "stored ?st = (stored st)(i \<mapsto> (?key, d\<lparr>ro_leaves := ro_leaves d - q\<rparr>))"
    proof (rule ext, rule stored_eqI)
      fix j k e
      let ?r = "((stored st)(i \<mapsto> (?key, d\<lparr>ro_leaves := ro_leaves d - q\<rparr>))) j = Some (k, e)"
      show "stored ?st j = Some (k, e) \<longleftrightarrow> ?r"
      proof (cases "k = ?key \<and> ro_price e = px")
        case True
        then have "stored ?st j = Some (k, e) \<longleftrightarrow> e \<in> take_leaves i q ` set ?v \<and> ro_id e = j"
          unfolding stored_iff [OF ok1] by simp
        also have "\<dots> \<longleftrightarrow> ?r" unfolding moved using True by (cases "j = i") (auto simp: stored_iff [OF ok])
        finally show ?thesis .
      next
        case False
        then have l: "stored ?st j = Some (k, e) \<longleftrightarrow> stored st j = Some (k, e)"
          unfolding stored_iff [OF ok1] stored_iff [OF ok] by auto
        show ?thesis
        proof (cases "j = i")
          case True
          then show ?thesis unfolding l using sd False px by auto
        qed (simp add: l)
      qed
    qed
    have "distinct (map ro_id ?w)" using storage_okD(4) [OF ok, of ?key px] by (simp add: comp_def)
    moreover have "take_leaves i q d \<in> set ?w" using d(1) by simp
    ultimately have left: "fold (\<lambda>d acc. if ro_id d = i then ro_leaves d else acc) ?w 0 = ro_leaves d - q"
      using fold_leaves [of ?w "take_leaves i q d" 0] d(2) by (simp add: take_leaves_def)
    show ?thesis using Some t sd left Remove_ok [OF ok1] stored_Remove [OF ok1] ok1 st1 by (simp add: fill_resting_def Let_def)
  qed
  then show "storage_ok (fill_resting i q st)"
    "stored (fill_resting i q st) = (case stored st i of
           None \<Rightarrow> stored st
         | Some (key, d) \<Rightarrow> (stored st)(i := if ro_leaves d - q \<le> 0 then None else Some (key, d\<lparr>ro_leaves := ro_leaves d - q\<rparr>)))"
    by blast+
qed

subsection \<open>Requests\<close>

lemma rest_after_remove:
  assumes "storage_ok st" "ro_id d = i"
  shows "storage_ok (rest_order key d (RemoveResting i st))"
    "stored (rest_order key d (RemoveResting i st)) = (stored st)(i \<mapsto> (key, d))"
  using Remove_ok [OF assms(1), of i] stored_Remove [OF assms(1), of i] assms(2)
  by (simp_all add: rest_order_ok stored_rest)

lemma other_fields [simp]:
  "storage_ok (st\<lparr>highest := h\<rparr>) = storage_ok st" "stored (st\<lparr>highest := h\<rparr>) = stored st"
  "storage_ok (st\<lparr>order_info := x\<rparr>) = storage_ok st" "stored (st\<lparr>order_info := x\<rparr>) = stored st"
  "storage_ok (st\<lparr>net_positions := y\<rparr>) = storage_ok st" "stored (st\<lparr>net_positions := y\<rparr>) = stored st"
  by (auto simp: storage_ok_def stored_def fun_eq_iff split: option.split)

lemma add_position_book [simp]: "storage_ok (add_position i q st) = storage_ok st" "stored (add_position i q st) = stored st"
  by (simp_all add: add_position_def Let_def split: option.split)

lemma Handle_ok:
  assumes "storage_ok st"
  shows "storage_ok (snd (Handle req st))"
proof -
  have "storage_ok (handle_order req st)" using assms by (simp add: handle_order_def Let_def split: option.split)
  moreover have "storage_ok (handle_fill req st)" using assms by (simp add: handle_fill_def Let_def fill_spec split: option.split)
  moreover have "storage_ok (handle_rest req st)" using assms
    by (auto simp: handle_rest_def Let_def rest_after_remove(1) split: option.split)
  ultimately show ?thesis using assms by (simp add: Handle_def Let_def Remove_ok split_def split: option.split)
qed

lemma new_storage_ok: "storage_ok new_StorageState"
  by (simp add: storage_ok_def new_StorageState_def store_level_def store_side_def levels_ok_def)

subsection \<open>Pulling the deep side of a book\<close>

definition level_orders :: "price_levels_map \<Rightarrow> RestingOrder list" where
  "level_orders m = concat (map (\<lambda>pv. sort_key ro_seq (snd pv)) m)"

lemma emit_levels_spec:
  "emit_levels P n m (blob, lv) = (blob @ concat (map order_record (level_orders (take (nat (n - lv)) (filter (\<lambda>pv. P (fst pv)) m)))),
     lv + int (length (take (nat (n - lv)) (filter (\<lambda>pv. P (fst pv)) m))))"
proof (induction m arbitrary: blob lv)
  case (Cons pv m)
  obtain px v where pv: "pv = (px, v)" by (cases pv)
  have "nat (n - lv) = Suc (nat (n - (lv + 1)))" if "lv < n" using that by simp
  then show ?case using Cons.IH pv by (simp add: level_orders_def)
qed (simp add: level_orders_def)

definition beats :: "string \<Rightarrow> int \<Rightarrow> int \<Rightarrow> bool" where
  "beats sd a b = (if sd = ''buy'' then a > b else a < b)"

definition best_first :: "string \<Rightarrow> price_levels_map \<Rightarrow> price_levels_map" where
  "best_first sd m = (if sd = ''buy'' then rev m else m)"

lemma pull_from_book_eq:
  "pull_from_book sy sd from_price n st =
     (let ls = take (nat n) (filter (\<lambda>pv. beats sd from_price (fst pv)) (best_first sd (store_side (sy, sd) st)))
      in (concat (map order_record (level_orders ls)), int (length ls)))"
  by (cases "map_of (resting_book st) (sy, sd)")
    (simp_all add: pull_from_book_def store_side_def emit_levels_spec beats_def best_first_def Let_def level_orders_def)

lemma book_prices:
  assumes "storage_ok st"
  shows "(px, v) \<in> set (store_side key st) \<longleftrightarrow> store_level key px st = v \<and> v \<noteq> []"
proof
  assume m: "(px, v) \<in> set (store_side key st)"
  then have "map_of (store_side key st) px = Some v" using storage_okD(5) [OF assms] by (rule_tac map_of_in)
  then show "store_level key px st = v \<and> v \<noteq> []" using storage_okD(6) [OF assms m] by (simp add: store_level_def)
next
  assume "store_level key px st = v \<and> v \<noteq> []"
  then show "(px, v) \<in> set (store_side key st)" by (auto simp: store_level_def split: option.splits dest: map_of_SomeD)
qed

lemma level_stored:
  assumes "storage_ok st"
  shows "d \<in> set (store_level key px st) \<longleftrightarrow> stored st (ro_id d) = Some (key, d) \<and> ro_price d = px"
  using storage_okD(1) [OF assms, of d key px] by (auto simp: stored_iff [OF assms])

lemma deep_prices:
  assumes "storage_ok st"
  shows "set (map fst (filter (\<lambda>pv. beats sd from_price (fst pv)) (best_first sd (store_side key st))))
    = {px. beats sd from_price px \<and> (\<exists>i d. stored st i = Some (key, d) \<and> ro_price d = px)}"
proof -
  have "(\<exists>v. (px, v) \<in> set (store_side key st)) \<longleftrightarrow> (\<exists>d. d \<in> set (store_level key px st))" for px
    unfolding book_prices [OF assms] by (cases "store_level key px st") auto
  also have "(\<exists>d. d \<in> set (store_level key px st)) \<longleftrightarrow> (\<exists>i d. stored st i = Some (key, d) \<and> ro_price d = px)" for px
    unfolding level_stored [OF assms] using stored_iff [OF assms] by blast
  finally have "(\<exists>v. (px, v) \<in> set (store_side key st)) \<longleftrightarrow> (\<exists>i d. stored st i = Some (key, d) \<and> ro_price d = px)" for px .
  moreover have "set (map fst (filter (\<lambda>pv. beats sd from_price (fst pv)) (best_first sd (store_side key st))))
      = {px. beats sd from_price px \<and> (\<exists>v. (px, v) \<in> set (store_side key st))}"
    by (auto simp: best_first_def image_iff)
  ultimately show ?thesis by simp
qed

lemma best_first_sorted:
  "sorted_wrt (<) (map fst m) \<Longrightarrow> sorted_wrt (beats sd) (map fst (filter P (best_first sd m)))"
  by (auto simp: beats_def best_first_def sorted_wrt_map sorted_wrt_rev intro!: sorted_wrt_filter)

lemma Handle_rest:
  assumes "storage_ok st" "i < 2 ^ 64" "sq < 2 ^ 64"
  shows "stored (snd (Handle \<lparr>req_id = n, msg_type = ''report_rest'', msg_fields = rest_fields sy sd i px lv sq\<rparr> st))
    = (stored st)(i \<mapsto> ((sy, sd), \<lparr>ro_id = i, ro_price = px, ro_leaves = lv, ro_seq = sq\<rparr>))"
  using assms by (simp add: Handle_def msg_get_def rest_fields_def handle_rest_def int_field_def rest_after_remove Let_def)

lemma Handle_cancel:
  assumes "storage_ok st" "i < 2 ^ 64"
  shows "stored (snd (Handle \<lparr>req_id = n, msg_type = ''report_cancel'', msg_fields = cancel_fields sy i\<rparr> st)) = (stored st)(i := None)"
  using assms by (simp add: Handle_def msg_get_def cancel_fields_def stored_Remove)

lemma Handle_fill:
  assumes "storage_ok st" "i < 2 ^ 64"
  shows "stored (snd (Handle \<lparr>req_id = n, msg_type = ''report_fill'', msg_fields = [(''id'', decimal i), (''qty'', to_string_int q)]\<rparr> st))
    = (case stored st i of
         None \<Rightarrow> stored st
       | Some (key, d) \<Rightarrow> (stored st)(i := if ro_leaves d - q \<le> 0 then None else Some (key, d\<lparr>ro_leaves := ro_leaves d - q\<rparr>)))"
  using assms by (cases "stored st i") (simp_all add: Handle_def msg_get_def handle_fill_def fill_spec Let_def split_def)

subsection \<open>Properties\<close>

text \<open>C13. The helper keeps the resting book it is told about: on a consistent store, reporting an order
  puts it under its id in place of any earlier report, a cancel removes it, a fill takes its quantity and
  drops the order when nothing is left, and every request, of whatever type and with whatever
  fields, leaves a consistent store.\<close>

theorem storage_keeps_book:
  assumes "storage_ok st" "i < 2 ^ 64" "sq < 2 ^ 64"
  shows "storage_ok (snd (Handle req st))
    \<and> stored (snd (Handle \<lparr>req_id = n, msg_type = ''report_rest'', msg_fields = rest_fields sy sd i px lv sq\<rparr> st))
        = (stored st)(i \<mapsto> ((sy, sd), \<lparr>ro_id = i, ro_price = px, ro_leaves = lv, ro_seq = sq\<rparr>))
    \<and> stored (snd (Handle \<lparr>req_id = n, msg_type = ''report_cancel'', msg_fields = cancel_fields sy i\<rparr> st)) = (stored st)(i := None)
    \<and> stored (snd (Handle \<lparr>req_id = n, msg_type = ''report_fill'', msg_fields = [(''id'', decimal i), (''qty'', to_string_int q)]\<rparr> st))
        = (case stored st i of
             None \<Rightarrow> stored st
           | Some (key, d) \<Rightarrow> (stored st)(i := if ro_leaves d - q \<le> 0 then None else Some (key, d\<lparr>ro_leaves := ro_leaves d - q\<rparr>)))"
  by (intro conjI Handle_ok Handle_rest Handle_cancel Handle_fill assms)

definition sample_store :: StorageState where
  "sample_store = snd (Handle \<lparr>req_id = 1, msg_type = ''report_rest'', msg_fields = rest_fields ''X'' ''buy'' 7 100 5 1\<rparr> new_StorageState)"

lemma sample_store_ok: "storage_ok sample_store"
  unfolding sample_store_def by (rule Handle_ok [OF new_storage_ok])

theorem storage_keeps_book_witness:
  "storage_ok sample_store \<and> stored (snd (Handle \<lparr>req_id = 2, msg_type = ''report_cancel'', msg_fields = cancel_fields ''X'' 7\<rparr> sample_store)) 7 = None"
  using sample_store_ok storage_keeps_book [OF sample_store_ok, of 7 1] by simp

text \<open>C14. A pull brings back the best deep levels: the orders the storage client decodes from the helper's
  reply are those resting strictly beyond the given price, at the best such prices up to the requested
  number of levels, best price first and within a price in the order of their sequence numbers, each
  with its id, price, remaining quantity and sequence number.\<close>

theorem pull_levels_answers:
  assumes "storage_ok st" "\<forall>i key d. stored st i = Some (key, d) \<longrightarrow> fits d"
  shows "\<exists>ps. sorted_wrt (beats sd) ps
    \<and> set ps = {px. beats sd from_price px \<and> (\<exists>i d. stored st i = Some ((sy, sd), d) \<and> ro_price d = px)}
    \<and> storage_reply (PullCb (Some r)) True
          (fst (Handle \<lparr>req_id = m, msg_type = ''pull_levels'', msg_fields = pull_fields sy sd from_price n\<rparr> st)) ob
        = (ob, Some (r, Pulled True (map pulled (concat (map (\<lambda>px. sort_key ro_seq (store_level (sy, sd) px st)) (take (nat n) ps))))))"
proof -
  let ?key = "(sy, sd)"
  let ?m = "filter (\<lambda>pv. beats sd from_price (fst pv)) (best_first sd (store_side ?key st))"
  let ?ps = "map fst ?m"
  have in_book: "pv \<in> set ?m \<Longrightarrow> store_level ?key (fst pv) st = snd pv \<and> snd pv \<noteq> []" for pv
    using book_prices [OF assms(1), of "fst pv" "snd pv" ?key] by (auto simp: best_first_def split: if_splits)
  have ps: "set ?ps = {px. beats sd from_price px \<and> (\<exists>i d. stored st i = Some (?key, d) \<and> ro_price d = px)}"
    by (rule deep_prices [OF assms(1)])
  have os: "level_orders (take (nat n) ?m) = concat (map (\<lambda>px. sort_key ro_seq (store_level ?key px st)) (take (nat n) ?ps))"
    unfolding level_orders_def take_map map_map comp_def
    by (rule arg_cong [where f = concat], rule map_cong [OF refl]) (use in_book in \<open>auto dest!: in_set_takeD\<close>)
  have "list_all fits (level_orders (take (nat n) ?m))"
    unfolding list_all_iff
  proof
    fix d assume "d \<in> set (level_orders (take (nat n) ?m))"
    then obtain pv where pv: "pv \<in> set (take (nat n) ?m)" "d \<in> set (snd pv)" by (auto simp: level_orders_def)
    then have "d \<in> set (store_level ?key (fst pv) st)" using in_book [OF in_set_takeD] by simp
    then show "fits d" using assms(2) level_stored [OF assms(1)] by blast
  qed
  then have "storage_reply (PullCb (Some r)) True
      (fst (Handle \<lparr>req_id = m, msg_type = ''pull_levels'', msg_fields = pull_fields sy sd from_price n\<rparr> st)) ob = (ob, Some (r, Pulled True (map pulled (level_orders (take (nat n) ?m)))))"
    by (simp add: Handle_def msg_get_def pull_fields_def pull_from_book_eq int_field_def respond_def storage_reply_def
      ParseOrders_back Let_def)
  then show ?thesis unfolding os using ps best_first_sorted [OF storage_okD(5) [OF assms(1)], of sd] by blast
qed

theorem pull_levels_answers_witness:
  "\<exists>ps. set ps = {px. beats ''buy'' 200 px \<and> (\<exists>i d. stored sample_store i = Some ((''X'', ''buy''), d) \<and> ro_price d = px)}
    \<and> storage_reply (PullCb (Some ())) True
        (fst (Handle \<lparr>req_id = 3, msg_type = ''pull_levels'', msg_fields = pull_fields ''X'' ''buy'' 200 4\<rparr> sample_store)) []
      = ([], Some ((), Pulled True (map pulled (concat (map (\<lambda>px. sort_key ro_seq (store_level (''X'', ''buy'') px sample_store)) (take 4 ps))))))"
proof -
  have "stored sample_store = [7 \<mapsto> ((''X'', ''buy''), \<lparr>ro_id = 7, ro_price = 100, ro_leaves = 5, ro_seq = 1\<rparr>)]"
    unfolding sample_store_def using Handle_rest [OF new_storage_ok, of 7 1]
    by (simp add: stored_def new_StorageState_def fun_eq_iff)
  then have "\<forall>i key d. stored sample_store i = Some (key, d) \<longrightarrow> fits d" by (simp add: fits_def)
  from pull_levels_answers [OF sample_store_ok this, of "''buy''" 200 "''X''" "()" 3 4 "[]"] show ?thesis by auto
qed

end
