(* ===== verification/Trading_Engine.thy ===== *)
theory Trading_Engine
  imports Matching_Engine Storage_Client
begin

section \<open>The trading engine (engine/trading\_engine.h, engine/trading\_engine.cc)\<close>

text \<open>
  Report-before-place sequencing: an order is reported to storage first and placed in the matching
  engine only when storage has acknowledged it, strictly in order of arrival, once the account's
  position is loaded and the resident window reaches as far as the order does. The record extends the
  storage client's, because the engine's callbacks run inside that client's handlers; on a closed
  storage connection they even run inside the engine's own calls.

  Every operation takes the link of the event and the owner \<open>g\<close>, what the engine's callbacks do
  when the storage client runs them. That is the engine itself, \<open>te_owner\<close>, at a bounded depth of
  nesting; deeper nesting sets \<open>te_fault\<close>, as does an exception that escapes the matching
  engine. The orders handed to the matching engine are appended to \<open>te_placed\<close>, the results handed to
  the callers' callbacks to \<open>te_results\<close>. Handles of
  orders (random UUIDs) are arguments.
\<close>

datatype EngineCb =
    OrderReported SeqNo
  | PositionPulled Symbol ClientId
  | LevelsPulled Symbol Side
  | FillRecorded
  | SeedPulled "nat option"

datatype CancelResult = kOk | kNotFound | kForbidden

record OrderHandle =
  h_symbol :: Symbol
  h_id :: OrderId
  h_owner :: string

record PendingOrder =
  pe_symbol :: Symbol
  pe_owner :: string
  pe_uuid :: string
  pe_order :: Order
  pe_cb :: "nat option"
  pe_client :: ClientId
  pe_acked :: bool
  pe_ok :: bool
  pe_pos_ready :: bool

record Result =
  res_seq :: SeqNo
  res_cb :: "nat option"
  res_storage_ok :: bool
  res_order_id :: OrderId
  res_uuid :: string
  outcome :: SubmitOutcome

record TradingEngine = "EngineCb StorageClient" +
  te_matching :: Engine
  te_pending :: "(SeqNo \<times> PendingOrder) list"
  handles :: "(string \<times> OrderHandle) list"
  id_uuid :: "(OrderId \<times> string) list"
  user_client :: "(string \<times> ClientId) list"
  position_loaded :: "(Symbol \<times> ClientId) list"
  position_loading :: "(Symbol \<times> ClientId) list"
  te_mem_levels :: nat
  warmed :: "Symbol list"
  depth_pulls :: int
  pull_ignore :: "OrderId list"
  next_assign_seq :: SeqNo
  next_place_seq :: SeqNo
  next_order_id :: OrderId
  next_client_id :: ClientId
  report_failures :: nat
  te_placed :: "(SeqNo \<times> Order) list"
  te_results :: "Result list"
  te_auctions :: "(nat \<times> Trade list) list"
  te_seeded :: "nat list"
  te_fault :: bool

type_synonym te_owner_fn = "EngineCb \<Rightarrow> StorageReply \<Rightarrow> TradingEngine \<Rightarrow> TradingEngine"

definition SideName :: "Side \<Rightarrow> string" where
  "SideName s = (if s = Buy then ''buy'' else ''sell'')"

definition OrderFields :: "Symbol \<Rightarrow> string \<Rightarrow> Order \<Rightarrow> (string \<times> string) list" where
  "OrderFields sy owner x =
     [(''symbol'', sy), (''owner'', owner), (''id'', decimal (oid x)), (''side'', SideName (side x)),
      (''price'', to_string_int (price x)), (''qty'', to_string_int (qty x))]"

definition client_for :: "string \<Rightarrow> TradingEngine \<Rightarrow> ClientId \<times> TradingEngine" where
  "client_for owner te =
     (if owner = [] then (0, te)
      else case map_of (user_client te) owner of
             Some c \<Rightarrow> (c, te)
           | None \<Rightarrow> let c = next_client_id te
                     in (c, te\<lparr>next_client_id := Suc c, user_client := emplace owner c (user_client te)\<rparr>))"

definition ensure_position :: "Link \<Rightarrow> te_owner_fn \<Rightarrow> Symbol \<Rightarrow> string \<Rightarrow> ClientId \<Rightarrow> TradingEngine \<Rightarrow> bool \<times> TradingEngine" where
  "ensure_position l g sy owner client te =
     (if client = 0 then (True, te)
      else if (sy, client) \<in> set (position_loaded te) then (True, te)
      else if (sy, client) \<in> set (position_loading te) then (False, te)
      else (False, pull_position l g owner sy (Some (PositionPulled sy client))
                     (te\<lparr>position_loading := List.insert (sy, client) (position_loading te)\<rparr>)))"

definition submit_order :: "Link \<Rightarrow> te_owner_fn \<Rightarrow> Symbol \<Rightarrow> string \<Rightarrow> Order \<Rightarrow> string \<Rightarrow> nat option \<Rightarrow> TradingEngine \<Rightarrow> TradingEngine" where
  "submit_order l g sy owner order0 uuid cb te0 =
     (let (x, te1) = (if oid order0 = 0 then (order0\<lparr>oid := next_order_id te0\<rparr>, te0\<lparr>next_order_id := Suc (next_order_id te0)\<rparr>)
                      else (order0, te0));
          (client, te2) = client_for owner te1;
          order = x\<lparr>client_id := client\<rparr>;
          sq = next_assign_seq te2; te3 = te2\<lparr>next_assign_seq := Suc sq\<rparr>;
          (ready, te4) = ensure_position l g sy owner client te3;
          p = \<lparr>pe_symbol = sy, pe_owner = owner, pe_uuid = uuid, pe_order = order, pe_cb = cb, pe_client = client,
               pe_acked = False, pe_ok = False, pe_pos_ready = ready\<rparr>;
          te5 = te4\<lparr>te_pending := map_emplace sq p (te_pending te4)\<rparr>
      in report_order l g (OrderFields sy owner order) (Some (OrderReported sq)) te5)"

subsection \<open>The resident window\<close>

definition needs_deep :: "Symbol \<Rightarrow> Order \<Rightarrow> Side \<Rightarrow> TradingEngine \<Rightarrow> bool" where
  "needs_deep sy x contra te =
     (if \<not> engine_has_deep sy contra (te_matching te) then False
      else case engine_worst_resident sy contra (te_matching te) of
             None \<Rightarrow> True
           | Some worst \<Rightarrow> if otype x = Market then True
                           else if side x = Buy then price x > worst else price x < worst)"

definition kMax64 :: int where
  "kMax64 = 2 ^ 63 - 1"

definition kMin64 :: int where
  "kMin64 = - (2 ^ 63)"

definition ensure_depth :: "Link \<Rightarrow> te_owner_fn \<Rightarrow> Symbol \<Rightarrow> Order \<Rightarrow> TradingEngine \<Rightarrow> bool \<times> TradingEngine" where
  "ensure_depth l g sy x te =
     (let batch = int (te_mem_levels te); contra = Opposite (side x)
      in if te_mem_levels te = 0 then (True, te)
         else if depth_pulls te > 0 then (False, te)
         else if sy \<notin> set (warmed te)
         then (False,
               pull_levels l g sy ''sell'' kMin64 batch (Some (LevelsPulled sy Sell))
                 (pull_levels l g sy ''buy'' kMax64 batch (Some (LevelsPulled sy Buy))
                   (te\<lparr>warmed := List.insert sy (warmed te), depth_pulls := depth_pulls te + 2\<rparr>)))
         else if needs_deep sy x contra te
         then (False,
               pull_levels l g sy (SideName contra)
                 (case engine_worst_resident sy contra (te_matching te) of
                    Some worst \<Rightarrow> worst
                  | None \<Rightarrow> if contra = Sell then kMin64 else kMax64)
                 batch (Some (LevelsPulled sy contra)) (te\<lparr>depth_pulls := depth_pulls te + 1\<rparr>))
         else (True, te))"

subsection \<open>Reporting\<close>

definition report_requeued :: "Link \<Rightarrow> te_owner_fn \<Rightarrow> Symbol \<Rightarrow> TradingEngine \<Rightarrow> TradingEngine" where
  "report_requeued l g sy te =
     (let (xs, M) = engine_take_requeued sy (te_matching te)
      in fold (\<lambda>x. report_rest l g sy (SideName (side x)) (oid x) (price x) (leaves x) (rank x) None) xs
           (te\<lparr>te_matching := M\<rparr>))"

definition trade_fields :: "Symbol \<Rightarrow> Trade \<Rightarrow> (string \<times> string) list" where
  "trade_fields sy t =
     [(''symbol'', sy), (''taker'', decimal (taker_id t)), (''maker'', decimal (maker_id t)),
      (''price'', to_string_int (t_price t)), (''qty'', to_string_int (t_qty t))]"

definition fill_fields :: "Symbol \<Rightarrow> OrderId \<Rightarrow> Quantity \<Rightarrow> Quantity \<Rightarrow> bool \<Rightarrow> (string \<times> string) list" where
  "fill_fields sy i q remaining complete =
     [(''symbol'', sy), (''id'', decimal i), (''qty'', to_string_int q), (''remaining'', to_string_int remaining),
      (''status'', if complete then ''filled'' else ''partial'')]"

definition add_filled :: "OrderId \<Rightarrow> Quantity \<Rightarrow> (OrderId \<times> Quantity) list \<Rightarrow> (OrderId \<times> Quantity) list" where
  "add_filled i q m = map_put i ((case map_of m i of None \<Rightarrow> 0 | Some v \<Rightarrow> v) + q) m"

definition report_maker :: "Link \<Rightarrow> te_owner_fn \<Rightarrow> Symbol \<Rightarrow> OrderId \<times> Quantity \<Rightarrow> TradingEngine \<Rightarrow> TradingEngine" where
  "report_maker l g sy = (\<lambda>(i, q) te.
     let m = engine_find sy i (te_matching te)
     in report_fill l g (fill_fields sy i q (case m of None \<Rightarrow> 0 | Some x \<Rightarrow> leaves x) (m = None)) (Some FillRecorded) te)"

definition report_results :: "Link \<Rightarrow> te_owner_fn \<Rightarrow> Symbol \<Rightarrow> Order \<Rightarrow> SubmitOutcome \<Rightarrow> TradingEngine \<Rightarrow> TradingEngine" where
  "report_results l g sy taker out te =
     (let te1 = fold (\<lambda>t. report_trade l g (trade_fields sy t) (Some FillRecorded)) (trades out) te;
          te2 = (if out_filled out > 0
                 then report_fill l g (fill_fields sy (oid taker) (out_filled out) (qty taker - out_filled out)
                        (qty taker - out_filled out = 0)) (Some FillRecorded) te1
                 else te1);
          maker_filled = fold (\<lambda>t. add_filled (maker_id t) (t_qty t)) (trades out) []
      in fold (report_maker l g sy) maker_filled te2)"

definition report_auction :: "Link \<Rightarrow> te_owner_fn \<Rightarrow> Symbol \<Rightarrow> Trade list \<Rightarrow> TradingEngine \<Rightarrow> TradingEngine" where
  "report_auction l g sy ts te =
     (let te1 = fold (\<lambda>t. report_trade l g (trade_fields sy t) (Some FillRecorded)) ts te;
          filled_by = fold (\<lambda>t m. add_filled (maker_id t) (t_qty t) (add_filled (taker_id t) (t_qty t) m)) ts []
      in fold (report_maker l g sy) filled_by te1)"

definition prune_one :: "Symbol \<Rightarrow> Trade \<Rightarrow> TradingEngine \<Rightarrow> TradingEngine" where
  "prune_one sy t te =
     (if engine_find sy (maker_id t) (te_matching te) \<noteq> None then te
      else case map_of (id_uuid te) (maker_id t) of
             None \<Rightarrow> te
           | Some u \<Rightarrow> te\<lparr>handles := AList.delete u (handles te), id_uuid := AList.delete (maker_id t) (id_uuid te)\<rparr>)"

definition prune_filled :: "Symbol \<Rightarrow> SubmitOutcome \<Rightarrow> TradingEngine \<Rightarrow> TradingEngine" where
  "prune_filled sy out te = fold (prune_one sy) (trades out) te"

subsection \<open>Placing in order\<close>

definition register_handle :: "Link \<Rightarrow> te_owner_fn \<Rightarrow> PendingOrder \<Rightarrow> SubmitOutcome \<Rightarrow> TradingEngine \<Rightarrow> TradingEngine" where
  "register_handle l g p out te =
     (if rested out \<or> rested_deep out
      then let ro = resting out
           in report_rest l g (pe_symbol p) (SideName (side ro)) (oid ro) (price ro) (leaves ro) (rank ro) None
                (te\<lparr>handles := emplace (pe_uuid p) \<lparr>h_symbol = pe_symbol p, h_id = oid (pe_order p), h_owner = pe_owner p\<rparr> (handles te),
                    id_uuid := emplace (oid (pe_order p)) (pe_uuid p) (id_uuid te)\<rparr>)
      else te)"

definition finish :: "SeqNo \<Rightarrow> PendingOrder \<Rightarrow> SubmitOutcome \<Rightarrow> TradingEngine \<Rightarrow> TradingEngine" where
  "finish sq p out te = te\<lparr>te_results := te_results te @
     [\<lparr>res_seq = sq, res_cb = pe_cb p, res_storage_ok = pe_ok p, res_order_id = oid (pe_order p), res_uuid = pe_uuid p, outcome = out\<rparr>]\<rparr>"

definition place_order :: "Link \<Rightarrow> te_owner_fn \<Rightarrow> SeqNo \<Rightarrow> PendingOrder \<Rightarrow> TradingEngine \<Rightarrow> TradingEngine" where
  "place_order l g sq p te =
     (if \<not> pe_ok p then finish sq p default_Outcome te
      else case engine_submit (pe_symbol p) (pe_order p) (te_matching te) of
             None \<Rightarrow> te\<lparr>te_fault := True\<rparr>
           | Some (out, M) \<Rightarrow>
               finish sq p out
                 (prune_filled (pe_symbol p) out
                   (report_requeued l g (pe_symbol p)
                     (report_results l g (pe_symbol p) (pe_order p) out
                       (register_handle l g p out
                         (te\<lparr>te_matching := M, te_placed := te_placed te @ [(sq, pe_order p)]\<rparr>))))))"

definition drain_head :: "Link \<Rightarrow> te_owner_fn \<Rightarrow> TradingEngine \<Rightarrow> (TradingEngine + TradingEngine) option" where
  "drain_head l g te =
     (let sq = next_place_seq te
      in case map_of (te_pending te) sq of
           None \<Rightarrow> Some (Inr te)
         | Some p \<Rightarrow>
             if \<not> pe_acked p \<or> \<not> pe_pos_ready p then Some (Inr te)
             else let (ready, te1) = ensure_depth l g (pe_symbol p) (pe_order p) te
                  in if \<not> ready then Some (Inr te1)
                     else Some (Inl (place_order l g sq p
                            (te1\<lparr>te_pending := AList.delete sq (te_pending te1), next_place_seq := Suc sq\<rparr>))))"

definition drain_pending :: "Link \<Rightarrow> te_owner_fn \<Rightarrow> TradingEngine \<Rightarrow> TradingEngine" where
  "drain_pending l g te = (case iter (drain_head l g) te of Some te' \<Rightarrow> te' | None \<Rightarrow> te\<lparr>te_fault := True\<rparr>)"

subsection \<open>The engine's callbacks\<close>

definition pulled_order :: "Side \<Rightarrow> PulledOrder \<Rightarrow> Order" where
  "pulled_order s po = default_Order\<lparr>oid := po_id po, side := s, otype := Limit, price := po_price po, qty := po_leaves po,
     leaves := po_leaves po, seq := po_seq po, rank := po_seq po\<rparr>"

definition materialize :: "Symbol \<Rightarrow> Side \<Rightarrow> PulledOrder \<Rightarrow> TradingEngine \<Rightarrow> TradingEngine" where
  "materialize sy s po te =
     (if po_id po \<in> set (pull_ignore te) \<or> engine_find sy (po_id po) (te_matching te) \<noteq> None then te
      else te\<lparr>te_matching := engine_insert_resident sy (pulled_order s po) (te_matching te)\<rparr>)"

definition on_pull :: "Link \<Rightarrow> te_owner_fn \<Rightarrow> Symbol \<Rightarrow> Side \<Rightarrow> PulledOrder list \<Rightarrow> TradingEngine \<Rightarrow> TradingEngine" where
  "on_pull l g sy s os te =
     (let te1 = fold (materialize sy s) os te; te2 = te1\<lparr>depth_pulls := depth_pulls te1 - 1\<rparr>
      in if depth_pulls te2 = 0 then drain_pending l g (te2\<lparr>pull_ignore := []\<rparr>) else te2)"

definition on_order_reported :: "Link \<Rightarrow> te_owner_fn \<Rightarrow> SeqNo \<Rightarrow> bool \<Rightarrow> TradingEngine \<Rightarrow> TradingEngine" where
  "on_order_reported l g sq ok te =
     (if map_of (te_pending te) sq = None then te
      else drain_pending l g (te\<lparr>te_pending := AList.map_entry sq (\<lambda>p. p\<lparr>pe_acked := True, pe_ok := ok\<rparr>) (te_pending te)\<rparr>))"

definition on_position :: "Link \<Rightarrow> te_owner_fn \<Rightarrow> Symbol \<Rightarrow> ClientId \<Rightarrow> bool \<Rightarrow> int \<Rightarrow> TradingEngine \<Rightarrow> TradingEngine" where
  "on_position l g sy client ok nt te =
     (let te1 = (if ok then te\<lparr>te_matching := engine_seed_position sy client nt (te_matching te)\<rparr> else te)
      in drain_pending l g (te1\<lparr>position_loading := removeAll (sy, client) (position_loading te1),
           position_loaded := List.insert (sy, client) (position_loaded te1),
           te_pending := map (\<lambda>(sq, p). (sq, if pe_client p = client \<and> pe_symbol p = sy then p\<lparr>pe_pos_ready := True\<rparr> else p))
             (te_pending te1)\<rparr>))"

definition on_watermarks :: "nat option \<Rightarrow> bool \<Rightarrow> nat \<Rightarrow> nat \<Rightarrow> TradingEngine \<Rightarrow> TradingEngine" where
  "on_watermarks cb ok max_id max_rank te =
     (let te1 = (if ok then te\<lparr>next_order_id := (if max_id + 1 > next_order_id te then max_id + 1 else next_order_id te),
                              te_matching := set_seq_base (max_rank + 1) (te_matching te)\<rparr> else te)
      in te1\<lparr>te_seeded := te_seeded te1 @ (case cb of None \<Rightarrow> [] | Some k \<Rightarrow> [k])\<rparr>)"

fun engine_reply :: "Link \<Rightarrow> te_owner_fn \<Rightarrow> te_owner_fn" where
  "engine_reply l g (OrderReported sq) (Reported ok) te = on_order_reported l g sq ok te"
| "engine_reply l g (PositionPulled sy client) (Position ok nt) te = on_position l g sy client ok nt te"
| "engine_reply l g (LevelsPulled sy s) (Pulled ok os) te = on_pull l g sy s (if ok then os else []) te"
| "engine_reply l g FillRecorded (Reported ok) te = (if ok then te else te\<lparr>report_failures := Suc (report_failures te)\<rparr>)"
| "engine_reply l g (SeedPulled cb) (Watermarks ok max_id max_rank) te = on_watermarks cb ok max_id max_rank te"
| "engine_reply l g k rep te = te"

text \<open>The engine as the owner of its storage client: nested \<open>n\<close> deep at most.\<close>

primrec te_owner :: "Link \<Rightarrow> nat \<Rightarrow> te_owner_fn" where
  "te_owner l 0 = (\<lambda>k rep te. te\<lparr>te_fault := True\<rparr>)"
| "te_owner l (Suc n) = engine_reply l (te_owner l n)"

subsection \<open>The other operations\<close>

definition cancel_order :: "Link \<Rightarrow> te_owner_fn \<Rightarrow> string \<Rightarrow> string \<Rightarrow> TradingEngine \<Rightarrow> (CancelResult \<times> Symbol option) \<times> TradingEngine" where
  "cancel_order l g uuid requester te =
     (case map_of (handles te) uuid of
        None \<Rightarrow> ((kNotFound, None), te)
      | Some h \<Rightarrow>
          if h_owner h \<noteq> requester then ((kForbidden, None), te)
          else (case engine_cancel (h_symbol h) (h_id h) (te_matching te) of
                 None \<Rightarrow> ((kOk, Some (h_symbol h)), te\<lparr>te_fault := True\<rparr>)
               | Some (_, M) \<Rightarrow>
                   let te1 = report_requeued l g (h_symbol h)
                               (report_cancel l g (h_symbol h) (h_id h) None (te\<lparr>te_matching := M\<rparr>));
                       te2 = (if depth_pulls te1 > 0 then te1\<lparr>pull_ignore := List.insert (h_id h) (pull_ignore te1)\<rparr> else te1)
                   in ((kOk, Some (h_symbol h)),
                       te2\<lparr>id_uuid := AList.delete (h_id h) (id_uuid te2), handles := AList.delete uuid (handles te2)\<rparr>)))"

definition seed_from_storage :: "Link \<Rightarrow> te_owner_fn \<Rightarrow> nat option \<Rightarrow> TradingEngine \<Rightarrow> TradingEngine" where
  "seed_from_storage l g cb te = pull_watermarks l g (Some (SeedPulled cb)) te"

definition run_auction :: "Link \<Rightarrow> te_owner_fn \<Rightarrow> Symbol \<Rightarrow> bool \<Rightarrow> nat option \<Rightarrow> TradingEngine \<Rightarrow> TradingEngine" where
  "run_auction l g sy is_opening cb te =
     (case (if is_opening then engine_run_opening sy (te_matching te) else engine_run_closing sy (te_matching te)) of
        None \<Rightarrow> te\<lparr>te_fault := True\<rparr>
      | Some (ts, M) \<Rightarrow>
          let te1 = report_requeued l g sy (report_auction l g sy ts (te\<lparr>te_matching := M\<rparr>))
          in te1\<lparr>te_auctions := te_auctions te1 @ (case cb of None \<Rightarrow> [] | Some k \<Rightarrow> [(k, ts)])\<rparr>)"

definition commit_engine :: "Link \<Rightarrow> te_owner_fn \<Rightarrow> TradingEngine \<Rightarrow> TradingEngine" where
  "commit_engine l g te = commit_storage l g None te"

definition pending_placements :: "TradingEngine \<Rightarrow> nat" where
  "pending_placements te = length (te_pending te)"

definition new_TradingEngine :: "Engine \<Rightarrow> nat \<Rightarrow> int \<Rightarrow> int \<Rightarrow> int \<Rightarrow> TradingEngine" where
  "new_TradingEngine M mem rfd wfd timeout = new_HelperClient rfd wfd timeout
     \<lparr>outbox = [], te_matching = M, te_pending = [], handles = [], id_uuid = [], user_client = [], position_loaded = [],
      position_loading = [], te_mem_levels = mem, warmed = [], depth_pulls = 0, pull_ignore = [], next_assign_seq = 1,
      next_place_seq = 1, next_order_id = 1, next_client_id = 1, report_failures = 0, te_placed = [], te_results = [], te_auctions = [],
      te_seeded = [], te_fault = False\<rparr>"

subsection \<open>Runs\<close>

text \<open>What may happen to an engine: calls from the server, and the storage helper's descriptors and timer.
  Each event has its link; \<open>n\<close> bounds the nesting of callbacks.\<close>

datatype TeEvent =
    TeSubmit Symbol string Order string "nat option"
  | TeCancel string string
  | TeAuction Symbol bool "nat option"
  | TeSeed "nat option"
  | TeCommit
  | TeIo int bool bool bool "ReadResult list" "WriteResult list"
  | TeTimer

fun te_step :: "nat \<Rightarrow> Link \<times> TeEvent \<Rightarrow> TradingEngine \<Rightarrow> TradingEngine option" where
  "te_step n (l, TeSubmit sy owner x uuid cb) te = Some (submit_order l (te_owner l n) sy owner x uuid cb te)"
| "te_step n (l, TeCancel uuid requester) te = Some (snd (cancel_order l (te_owner l n) uuid requester te))"
| "te_step n (l, TeAuction sy is_opening cb) te = Some (run_auction l (te_owner l n) sy is_opening cb te)"
| "te_step n (l, TeSeed cb) te = Some (seed_from_storage l (te_owner l n) cb te)"
| "te_step n (l, TeCommit) te = Some (commit_engine l (te_owner l n) te)"
| "te_step n (l, TeIo fd readable writable failed rs ws) te =
     hc_on_io_ready (link_codec l) (storage_cb (te_owner l n)) fd readable writable failed rs ws te"
| "te_step n (l, TeTimer) te = Some (hc_on_timer (storage_cb (te_owner l n)) (link_now l) te)"

fun te_run :: "nat \<Rightarrow> (Link \<times> TeEvent) list \<Rightarrow> TradingEngine \<Rightarrow> TradingEngine option" where
  "te_run n [] te = Some te"
| "te_run n (e # es) te = do { te1 \<leftarrow> te_step n e te; te_run n es te1 }"

text \<open>Who submitted under which handle.\<close>

fun submission_of :: "Link \<times> TeEvent \<Rightarrow> (string \<times> string) set" where
  "submission_of (l, TeSubmit sy owner x uuid cb) = {(uuid, owner)}"
| "submission_of e = {}"

definition submissions :: "(Link \<times> TeEvent) list \<Rightarrow> (string \<times> string) set" where
  "submissions es = \<Union> (set (map submission_of es))"

subsection \<open>Predicates the reporting operations keep\<close>

text \<open>A predicate on the engine's state that does not look at its bookkeeping fields and that sending a storage
  request keeps is kept by everything the engine does but placing, cancelling and submitting.\<close>

locale engine_pred =
  fixes P :: "TradingEngine \<Rightarrow> bool" and l :: Link and g :: te_owner_fn
  assumes send: "P te \<Longrightarrow> P (storage_send l g ty flds cb te)"
    and other: "P (te\<lparr>outbox := ob\<rparr>) = P te" "P (te\<lparr>te_matching := M\<rparr>) = P te" "P (te\<lparr>id_uuid := iu\<rparr>) = P te"
      "P (te\<lparr>user_client := uc\<rparr>) = P te" "P (te\<lparr>position_loaded := pl\<rparr>) = P te" "P (te\<lparr>position_loading := pl\<rparr>) = P te"
      "P (te\<lparr>warmed := w\<rparr>) = P te" "P (te\<lparr>depth_pulls := d\<rparr>) = P te" "P (te\<lparr>pull_ignore := pi\<rparr>) = P te"
      "P (te\<lparr>next_order_id := n\<rparr>) = P te" "P (te\<lparr>next_client_id := n\<rparr>) = P te" "P (te\<lparr>report_failures := c\<rparr>) = P te"
      "P (te\<lparr>te_auctions := au\<rparr>) = P te" "P (te\<lparr>te_seeded := sd\<rparr>) = P te"
begin

lemma keeps_sends:
  assumes "P te"
  shows "P (pull_position l g u sy cb te)" "P (pull_levels l g sy sn px n cb te)" "P (pull_watermarks l g cb te)"
    "P (report_rest l g sy sn i px lv sq cb te)" "P (report_cancel l g sy i cb te)" "P (commit_storage l g cb te)"
    "P (report_order l g flds cb te)" "P (report_trade l g flds cb te)" "P (report_fill l g flds cb te)"
  using assms by (simp_all add: pull_position_def pull_levels_def pull_watermarks_def report_rest_def report_cancel_def
    commit_storage_def report_order_def report_trade_def report_fill_def report_def Let_def send other)

lemma folds: "(\<And>y te. P te \<Longrightarrow> P (h y te)) \<Longrightarrow> P te \<Longrightarrow> P (fold h ys te)"
  by (induction ys arbitrary: te) auto

lemma keeps_makers: "P te \<Longrightarrow> P (report_maker l g sy iq te)"
  by (simp add: report_maker_def split_def Let_def keeps_sends)

lemma keeps_reports:
  assumes "P te"
  shows "P (report_requeued l g sy te)" "P (report_results l g sy taker out te)" "P (report_auction l g sy ts te)"
  using assms by (simp_all add: report_requeued_def report_results_def report_auction_def split_def Let_def folds keeps_sends keeps_makers other)

lemma keeps_position: "P te \<Longrightarrow> P (snd (ensure_position l g sy u c te))"
  by (simp add: ensure_position_def keeps_sends other)

lemma keeps_depth: "P te \<Longrightarrow> P (snd (ensure_depth l g sy y te))"
  by (simp add: ensure_depth_def Let_def keeps_sends other)

lemma keeps_pulled: "P te \<Longrightarrow> P (fold (materialize sy s) os te)"
  by (rule folds) (simp_all add: materialize_def other)

lemma keeps_watermarks: "P te \<Longrightarrow> P (on_watermarks cb ok mi mr te)"
  by (simp add: on_watermarks_def Let_def other)

lemma keeps_client: "P te \<Longrightarrow> P (snd (client_for u te))"
  by (simp add: client_for_def Let_def other split: option.split)

end

text \<open>A predicate that looks at none of the engine's own fields is kept by all of it.\<close>

locale helper_pred = engine_pred +
  assumes own: "P (te\<lparr>te_pending := pe\<rparr>) = P te" "P (te\<lparr>handles := hs\<rparr>) = P te" "P (te\<lparr>next_assign_seq := q\<rparr>) = P te"
    "P (te\<lparr>next_place_seq := q\<rparr>) = P te" "P (te\<lparr>te_placed := tp\<rparr>) = P te" "P (te\<lparr>te_results := rs\<rparr>) = P te"
    "P (te\<lparr>te_fault := b\<rparr>) = P te"
begin

lemma keeps_prunes: "P te \<Longrightarrow> P (prune_filled sy out te)"
  unfolding prune_filled_def by (rule folds) (auto simp: prune_one_def own other split: option.split)

lemma keeps_places: "P te \<Longrightarrow> P (place_order l g sq p te)"
  by (simp add: place_order_def finish_def register_handle_def Let_def own other keeps_sends keeps_reports keeps_prunes split: option.split)

lemma keeps_drains:
  assumes "P te"
  shows "P (drain_pending l g te)"
proof (cases "iter (drain_head l g) te")
  case None
  then show ?thesis using assms by (simp add: drain_pending_def own)
next
  case (Some r)
  have "P (case r of Inl t \<Rightarrow> t | Inr t \<Rightarrow> t)" if "P te" "drain_head l g te = Some r" for te r
    using that keeps_depth [of te] by (auto simp: drain_head_def Let_def split_def own keeps_places split: option.splits if_splits)
  then have "P r" using assms by (rule_tac iter_partial [OF Some, where I = P]) force+
  then show ?thesis using Some by (simp add: drain_pending_def)
qed

lemma keeps_replies: "P te \<Longrightarrow> P (engine_reply l g k rep te)"
  by (cases "(l, g, k, rep, te)" rule: engine_reply.cases)
    (auto simp: on_order_reported_def on_position_def on_pull_def Let_def own other keeps_drains keeps_watermarks keeps_pulled)

lemma keeps_submits: "P te \<Longrightarrow> P (submit_order l g sy u y uuid cb te)"
  by (simp add: submit_order_def split_def Let_def own other keeps_sends keeps_position keeps_client)

lemma keeps_cancels: "P te \<Longrightarrow> P (snd (cancel_order l g uuid u te))"
  by (auto simp: cancel_order_def Let_def own other keeps_sends keeps_reports split: option.split)

lemma keeps_auctions: "P te \<Longrightarrow> P (run_auction l g sy is_opening cb te)"
  by (simp add: run_auction_def Let_def own other keeps_reports split: option.split)

end

end
