(* ===== verification/Trading_Properties.thy ===== *)
theory Trading_Properties
  imports Trading_Engine
begin

section \<open>Sequencing in the trading engine\<close>

text \<open>
  Whatever the storage helper does and however callbacks nest, orders are placed in the order of their
  arrival, each one only after storage has acknowledged it, and each is answered once; only the
  owner of an order cancels it. The last properties show two states the engine does not get out of:
  a deep side that storage no longer has, and the first order of an account on a closed storage
  connection.
\<close>

subsection \<open>The invariant\<close>

type_synonym te_log = "(nat \<times> EngineCb StorageCb \<times> bool \<times> HelperMessage) set"

text \<open>Storage answered the report of the order with this sequence number: a callback ran that told the
  engine so.\<close>

definition acknowledged :: "te_log \<Rightarrow> SeqNo \<Rightarrow> bool \<Rightarrow> bool" where
  "acknowledged S sq ok \<longleftrightarrow> (\<exists>i k msg. (i, k, ok, msg) \<in> S \<and> snd (storage_reply k ok msg []) = Some (OrderReported sq, Reported ok))"

text \<open>Sequence numbers below \<open>next_place_seq\<close> have their result or are being placed (\<open>x\<close>, with
  storage's answer), those from there
  to \<open>k\<close> are pending; \<open>m\<close> bounds \<open>next_place_seq\<close> from below; \<open>E\<close> are the submissions.\<close>

definition te_inv :: "(string \<times> string) set \<Rightarrow> SeqNo \<Rightarrow> SeqNo \<Rightarrow> SeqNo \<Rightarrow> (SeqNo \<times> bool) list \<Rightarrow> te_log \<Rightarrow> TradingEngine \<Rightarrow> bool" where
  "te_inv E a k m x S te \<longleftrightarrow>
     next_assign_seq te = a \<and> map fst (te_pending te) = [next_place_seq te..<k] \<and> 1 \<le> next_place_seq te \<and> m \<le> next_place_seq te \<and> next_place_seq te \<le> k
     \<and> (\<not> te_fault te \<longrightarrow> mset (map res_seq (te_results te) @ map fst x) = mset [1..<next_place_seq te])
     \<and> list_all (\<lambda>(sq, ok). acknowledged S sq ok) x
     \<and> sorted_wrt (<) (map fst (te_placed te)) \<and> list_all (\<lambda>t. fst t < next_place_seq te \<and> acknowledged S (fst t) True) (te_placed te)
     \<and> list_all (\<lambda>r. acknowledged S (res_seq r) (res_storage_ok r)) (te_results te)
     \<and> list_all (\<lambda>(sq, p). (pe_acked p \<longrightarrow> acknowledged S sq (pe_ok p)) \<and> (pe_uuid p, pe_owner p) \<in> E) (te_pending te)
     \<and> list_all (\<lambda>(u, h). (u, h_owner h) \<in> E) (handles te)"

definition te_ok :: "(string \<times> string) set \<Rightarrow> SeqNo \<Rightarrow> SeqNo \<Rightarrow> SeqNo \<Rightarrow> (SeqNo \<times> bool) list \<Rightarrow> TradingEngine \<Rightarrow> bool" where
  "te_ok E a k m x te \<longleftrightarrow> te_inv E a k m x (set (hc_calls te)) te"

definition te_prop :: "(string \<times> string) set \<Rightarrow> SeqNo \<Rightarrow> SeqNo \<Rightarrow> SeqNo \<Rightarrow> (SeqNo \<times> bool) list
    \<Rightarrow> (EngineCb StorageCb, unit TradingEngine_ext StorageClient_ext) log_prop" where
  "te_prop E a k m x S z = te_inv E a k m x S (new_HelperClient 0 0 0 z)"

lemma holds_te_prop: "holds (te_prop E a k m x) te \<longleftrightarrow> te_ok E a k m x te"
  unfolding holds_def te_prop_def te_ok_def te_inv_def by (cases te) (simp add: new_HelperClient_def)

lemma acknowledged_mono: "acknowledged S sq ok \<Longrightarrow> S \<subseteq> T \<Longrightarrow> acknowledged T sq ok"
  by (auto simp: acknowledged_def)

lemma te_prop_mono: "log_mono (te_prop E a k m x)"
  unfolding log_mono_def te_prop_def te_inv_def by (auto simp: list_all_iff intro: acknowledged_mono)

definition good :: "te_owner_fn \<Rightarrow> bool" where
  "good g \<longleftrightarrow> (\<forall>E a k m x. keeps_log (te_prop E a k m x) (storage_cb g))"

lemma storage_send_ok: "good g \<Longrightarrow> te_ok E a k m x te \<Longrightarrow> te_ok E a k m x (storage_send l g ty flds cb te)"
  unfolding good_def holds_te_prop [symmetric] storage_send_def by (blast intro: send_holds)

lemma te_ok_other [simp]:
  "te_ok E a k m x (te\<lparr>outbox := ob\<rparr>) = te_ok E a k m x te" "te_ok E a k m x (te\<lparr>te_matching := M\<rparr>) = te_ok E a k m x te"
  "te_ok E a k m x (te\<lparr>id_uuid := iu\<rparr>) = te_ok E a k m x te" "te_ok E a k m x (te\<lparr>user_client := uc\<rparr>) = te_ok E a k m x te"
  "te_ok E a k m x (te\<lparr>position_loaded := pl\<rparr>) = te_ok E a k m x te" "te_ok E a k m x (te\<lparr>position_loading := pl\<rparr>) = te_ok E a k m x te"
  "te_ok E a k m x (te\<lparr>warmed := w\<rparr>) = te_ok E a k m x te" "te_ok E a k m x (te\<lparr>depth_pulls := d\<rparr>) = te_ok E a k m x te"
  "te_ok E a k m x (te\<lparr>pull_ignore := pi\<rparr>) = te_ok E a k m x te" "te_ok E a k m x (te\<lparr>next_order_id := n\<rparr>) = te_ok E a k m x te"
  "te_ok E a k m x (te\<lparr>next_client_id := n\<rparr>) = te_ok E a k m x te" "te_ok E a k m x (te\<lparr>report_failures := n\<rparr>) = te_ok E a k m x te"
  "te_ok E a k m x (te\<lparr>te_auctions := au\<rparr>) = te_ok E a k m x te" "te_ok E a k m x (te\<lparr>te_seeded := sd\<rparr>) = te_ok E a k m x te"
  by (simp_all add: te_ok_def te_inv_def)

lemma te_ok_fault: "te_ok E a k m x te \<Longrightarrow> te_ok E a k m x (te\<lparr>te_fault := True\<rparr>)"
  by (simp add: te_ok_def te_inv_def)

lemma te_ok_pred: "good g \<Longrightarrow> engine_pred (te_ok E a k m x) l g"
  by unfold_locales (simp_all add: storage_send_ok)

lemmas te_ok_sends = engine_pred.keeps_sends [OF te_ok_pred] and te_ok_reports = engine_pred.keeps_reports [OF te_ok_pred]
  and te_ok_depth = engine_pred.keeps_depth [OF te_ok_pred] and te_ok_pulled = engine_pred.keeps_pulled [OF te_ok_pred]
  and te_ok_watermarks = engine_pred.keeps_watermarks [OF te_ok_pred] and te_ok_position = engine_pred.keeps_position [OF te_ok_pred]
  and te_ok_client = engine_pred.keeps_client [OF te_ok_pred]

lemma delete_sub: "list_all P m \<Longrightarrow> list_all P (AList.delete y m)"
  by (auto simp: list_all_iff AList.delete_eq)

lemma prune_ok:
  assumes "te_ok E a k m x te"
  shows "te_ok E a k m x (prune_filled sy out te)"
proof -
  have "te_ok E a k m x (prune_one sy t te)" if "te_ok E a k m x te" for t te
    using that by (auto simp: prune_one_def te_ok_def te_inv_def delete_sub split: option.split)
  then have "te_ok E a k m x (fold (prune_one sy) ts te)" for ts using assms by (induction ts arbitrary: te) auto
  then show ?thesis by (simp add: prune_filled_def)
qed

lemma register_ok:
  assumes "good g" "te_ok E a k m x te" "(pe_uuid p, pe_owner p) \<in> E"
  shows "te_ok E a k m x (register_handle l g p out te)"
proof -
  have "te_ok E a k m x (te\<lparr>handles := emplace (pe_uuid p) \<lparr>h_symbol = pe_symbol p, h_id = oid (pe_order p), h_owner = pe_owner p\<rparr> (handles te)\<rparr>)"
    using assms(2,3) by (simp add: te_ok_def te_inv_def emplace_def)
  then show ?thesis using assms(1,2) by (simp add: register_handle_def Let_def te_ok_sends)
qed

lemma finish_ok: "te_ok E a k m ((sq, pe_ok p) # x) te \<Longrightarrow> te_ok E a k m x (finish sq p out te)"
  by (simp add: te_ok_def te_inv_def finish_def)

lemma place_ok:
  assumes "good g" "te_ok E a k m ((sq, pe_ok p) # x) te" "(pe_uuid p, pe_owner p) \<in> E"
    "list_all (\<lambda>t. fst t < sq) (te_placed te)" "sq < next_place_seq te"
  shows "te_ok E a k m x (place_order l g sq p te)"
proof (cases "pe_ok p")
  case False
  then show ?thesis using assms(2) by (simp add: place_order_def finish_ok)
next
  case True
  show ?thesis
  proof (cases "engine_submit (pe_symbol p) (pe_order p) (te_matching te)")
    case None
    then show ?thesis using assms(2) True by (simp add: place_order_def te_ok_def te_inv_def)
  next
    case (Some r)
    obtain out M where r: "r = (out, M)" by (cases r)
    have "te_ok E a k m ((sq, pe_ok p) # x) (te\<lparr>te_matching := M, te_placed := te_placed te @ [(sq, pe_order p)]\<rparr>)"
      using assms(2,4,5) True by (simp add: te_ok_def te_inv_def sorted_wrt_append list_all_iff)
    from finish_ok [OF prune_ok [OF te_ok_reports(1) [OF assms(1) te_ok_reports(2) [OF assms(1) register_ok [OF assms(1) this assms(3)]]]]]
    show ?thesis using True Some r by (simp add: place_order_def)
  qed
qed

lemma ensure_depth_ready: "fst (ensure_depth l g sy y te) \<Longrightarrow> snd (ensure_depth l g sy y te) = te"
  by (auto simp: ensure_depth_def Let_def split: if_splits)

lemma take_head_ok:
  assumes "te_ok E a k m x te" "map_of (te_pending te) (next_place_seq te) = Some p"
  defines "sq \<equiv> next_place_seq te"
  shows "pe_acked p \<Longrightarrow> te_ok E a k (Suc sq) ((sq, pe_ok p) # x) (te\<lparr>te_pending := AList.delete sq (te_pending te), next_place_seq := Suc sq\<rparr>)"
    "(pe_uuid p, pe_owner p) \<in> E" "list_all (\<lambda>t. fst t < sq) (te_placed te)" "sq < k"
proof -
  note I = assms(1) [unfolded te_ok_def te_inv_def, folded sq_def]
  have p: "(sq, p) \<in> set (te_pending te)" using assms(2) unfolding sq_def by (rule map_of_SomeD)
  then have "sq \<in> set (map fst (te_pending te))" by force
  then show "sq < k" using I by simp
  then have keys: "filter (\<lambda>j. j \<noteq> sq) (map fst (te_pending te)) = [Suc sq..<k]" using I by (simp add: upt_conv_Cons filter_id_conv)
  have P: "list_all (\<lambda>(sq, p). (pe_acked p \<longrightarrow> acknowledged (set (hc_calls te)) sq (pe_ok p)) \<and> (pe_uuid p, pe_owner p) \<in> E) (te_pending te)"
    using I by blast
  then have head: "(pe_acked p \<longrightarrow> acknowledged (set (hc_calls te)) sq (pe_ok p)) \<and> (pe_uuid p, pe_owner p) \<in> E"
    using p by (fastforce simp: list_all_iff)
  then show "(pe_uuid p, pe_owner p) \<in> E" by blast
  have placed: "list_all (\<lambda>t. fst t < sq \<and> acknowledged (set (hc_calls te)) (fst t) True) (te_placed te)" using I by blast
  then show "list_all (\<lambda>t. fst t < sq) (te_placed te)" by (rule list.pred_mono_strong) simp
  have placed': "list_all (\<lambda>t. fst t < Suc sq \<and> acknowledged (set (hc_calls te)) (fst t) True) (te_placed te)"
    using placed by (rule list.pred_mono_strong) simp
  have "mset [1..<Suc sq] = add_mset sq (mset [1..<sq])" using I by simp
  then show "te_ok E a k (Suc sq) ((sq, pe_ok p) # x) (te\<lparr>te_pending := AList.delete sq (te_pending te), next_place_seq := Suc sq\<rparr>)"
    if "pe_acked p"
    using I that head keys placed' delete_sub [OF P, of sq] \<open>sq < k\<close> by (simp add: te_ok_def te_inv_def)
qed

lemma drain_head_ok:
  assumes "good g" "te_ok E a k m x te" "drain_head l g te = Some r"
  shows "case r of Inl t \<Rightarrow> te_ok E a k (Suc (next_place_seq te)) x t \<and> next_place_seq te < k | Inr t \<Rightarrow> te_ok E a k m x t"
proof (cases "map_of (te_pending te) (next_place_seq te)")
  case None
  then show ?thesis using assms by (auto simp: drain_head_def)
next
  case (Some p)
  let ?sq = "next_place_seq te" and ?d = "ensure_depth l g (pe_symbol p) (pe_order p) te"
  show ?thesis
  proof (cases "pe_acked p \<and> pe_pos_ready p \<and> fst ?d")
    case False
    then show ?thesis using assms Some te_ok_depth [OF assms(1,2), of l "pe_symbol p" "pe_order p"]
      by (auto simp: drain_head_def split_def Let_def split: if_splits)
  next
    case True
    let ?te = "te\<lparr>te_pending := AList.delete ?sq (te_pending te), next_place_seq := Suc ?sq\<rparr>"
    note ok = take_head_ok [OF assms(2) Some]
    have "r = Inl (place_order l g ?sq p ?te)"
      using assms(3) Some True ensure_depth_ready [of l g "pe_symbol p" "pe_order p" te]
      by (auto simp: drain_head_def split_def Let_def)
    then show ?thesis using place_ok [OF assms(1), of E a k "Suc ?sq" ?sq p x ?te l] ok True by simp
  qed
qed

lemma te_ok_bound: "te_ok E a k m' x te \<Longrightarrow> m \<le> m' \<Longrightarrow> te_ok E a k m x te"
  by (auto simp: te_ok_def te_inv_def)

lemma drain_ok:
  assumes "good g" "te_ok E a k m x te"
  shows "te_ok E a k m x (drain_pending l g te)"
proof -
  have "\<exists>r. iter (drain_head l g) te = Some r \<and> te_ok E a k m x r"
  proof (rule iter_total [where I = "te_ok E a k m x" and m = "\<lambda>te. k - next_place_seq te"])
    fix te assume I: "te_ok E a k m x te"
    have "drain_head l g te \<noteq> None" by (simp add: drain_head_def Let_def split_def split: option.split)
    then obtain r where r: "drain_head l g te = Some r" by blast
    show "(\<exists>s'. drain_head l g te = Some (Inl s') \<and> te_ok E a k m x s' \<and> k - next_place_seq s' < k - next_place_seq te)
        \<or> (\<exists>r. drain_head l g te = Some (Inr r) \<and> te_ok E a k m x r)"
    proof (cases r)
      case (Inl te')
      then have "te_ok E a k (Suc (next_place_seq te)) x te'" "next_place_seq te < k" using drain_head_ok [OF assms(1) I r] by simp_all
      moreover then have "next_place_seq te < next_place_seq te'" by (simp add: te_ok_def te_inv_def)
      moreover have "m \<le> next_place_seq te" using I by (simp add: te_ok_def te_inv_def)
      ultimately show ?thesis using r Inl te_ok_bound [of E a k "Suc (next_place_seq te)" x te' m] by auto
    next
      case (Inr te')
      then show ?thesis using r drain_head_ok [OF assms(1) I r] by simp
    qed
  qed (rule assms(2))
  then show ?thesis by (auto simp: drain_pending_def)
qed

lemma list_all_map_entry:
  "list_all P m \<Longrightarrow> (\<And>v. P (j, v) \<Longrightarrow> P (j, f v)) \<Longrightarrow> list_all P (AList.map_entry j f m)"
  by (induction m) auto

lemma reply_ok:
  assumes "good g" "te_ok E a k m x te"
  shows "acknowledged (set (hc_calls te)) sq ok \<Longrightarrow> te_ok E a k m x (on_order_reported l g sq ok te)"
    "te_ok E a k m x (on_position l g sy client ok nt te)" "te_ok E a k m x (on_pull l g sy s os te)"
    "te_ok E a k m x (on_watermarks cb ok max_id max_rank te)"
proof -
  show "te_ok E a k m x (on_order_reported l g sq ok te)" if ack: "acknowledged (set (hc_calls te)) sq ok"
  proof -
    let ?m = "AList.map_entry sq (\<lambda>p. p\<lparr>pe_acked := True, pe_ok := ok\<rparr>) (te_pending te)"
    have "te_ok E a k m x (te\<lparr>te_pending := ?m\<rparr>)" using assms(2) ack
      by (auto simp: te_ok_def te_inv_def keys_map_entry intro!: list_all_map_entry)
    then show ?thesis using assms by (simp add: on_order_reported_def drain_ok)
  qed
  let ?f = "\<lambda>(sq, p). (sq, if pe_client p = client \<and> pe_symbol p = sy then p\<lparr>pe_pos_ready := True\<rparr> else p)"
  have ready: "te_ok E a k m x (te\<lparr>te_pending := map ?f (te_pending te)\<rparr>)" if "te_ok E a k m x te" for te
    using that by (auto simp: te_ok_def te_inv_def list_all_iff split_def comp_def)
  let ?te = "if ok then te\<lparr>te_matching := engine_seed_position sy client nt (te_matching te)\<rparr> else te"
  have "te_ok E a k m x (?te\<lparr>position_loading := removeAll (sy, client) (position_loading ?te),
      position_loaded := List.insert (sy, client) (position_loaded ?te)\<rparr>)" using assms(2) by simp
  from drain_ok [OF assms(1) ready [OF this]] show "te_ok E a k m x (on_position l g sy client ok nt te)"
    by (simp add: on_position_def Let_def)
  have "te_ok E a k m x (fold (materialize sy s) os te)" by (rule te_ok_pulled [OF assms])
  then show "te_ok E a k m x (on_pull l g sy s os te)" using assms(1) by (simp add: on_pull_def Let_def drain_ok)
  show "te_ok E a k m x (on_watermarks cb ok max_id max_rank te)" by (rule te_ok_watermarks [OF assms])
qed

subsection \<open>The engine as the owner of its storage client\<close>

lemma storage_reply_answer: "snd (storage_reply k ok msg ob) = snd (storage_reply k ok msg [])"
  by (simp add: storage_reply_def Let_def split: StorageCb.split)

lemma storage_reply_reported: "snd (storage_reply k ok msg ob) = Some (r, Reported ok') \<Longrightarrow> ok' = ok"
  by (auto simp: storage_reply_def Let_def split: StorageCb.splits)

lemma engine_reply_ok:
  assumes "good g" "te_ok E a k m x te" "\<And>sq ok. c = OrderReported sq \<Longrightarrow> rep = Reported ok \<Longrightarrow> acknowledged (set (hc_calls te)) sq ok"
  shows "te_ok E a k m x (engine_reply l g c rep te)"
  using assms(3) by (cases "(l, g, c, rep, te)" rule: engine_reply.cases) (auto simp: reply_ok [OF assms(1,2)] assms(2))

lemma engine_reply_good:
  assumes "good g"
  shows "good (engine_reply l g)"
proof -
  have "te_ok E a k m x (storage_cb (engine_reply l g) c ok msg te)"
    if log: "(i, c, ok, msg) \<in> set (hc_calls te)" and te: "te_ok E a k m x te" for E a k m x c ok msg te i
  proof -
    obtain ob r where r: "storage_reply c ok msg (outbox te) = (ob, r)" by fastforce
    then have r': "r = snd (storage_reply c ok msg [])" using storage_reply_answer [of c ok msg "outbox te"] by simp
    show ?thesis
    proof (cases r)
      case None
      then show ?thesis using te r by (simp add: storage_cb_def)
    next
      case (Some kr)
      obtain c' rep where kr: "kr = (c', rep)" by (cases kr)
      have "te_ok E a k m x (engine_reply l g c' rep (te\<lparr>outbox := ob\<rparr>))"
      proof (rule engine_reply_ok [OF assms])
        fix sq ok' assume "c' = OrderReported sq" "rep = Reported ok'"
        then have "snd (storage_reply c ok msg []) = Some (OrderReported sq, Reported ok')" using Some kr r' by simp
        moreover from storage_reply_reported [OF this] have "ok' = ok" .
        ultimately show "acknowledged (set (hc_calls (te\<lparr>outbox := ob\<rparr>))) sq ok'" using log by (auto simp: acknowledged_def)
      qed (use te in simp)
      then show ?thesis using Some kr r by (simp add: storage_cb_def)
    qed
  qed
  then show ?thesis unfolding good_def keeps_log_def holds_te_prop using te_prop_mono by blast
qed

lemma te_owner_good: "good (te_owner l n)"
proof (induction n)
  case 0
  have "te_ok E a k m x (storage_cb (te_owner l 0) c ok msg te)" if "te_ok E a k m x te" for E a k m x c ok msg te
    using that te_ok_fault by (simp add: storage_cb_def split_def Let_def split: option.split)
  then show ?case unfolding good_def keeps_log_def holds_te_prop using te_prop_mono by blast
qed (simp add: engine_reply_good)

interpretation te_frame: engine_pred "te_ok E a k m x" l "te_owner l n" for E a k m x l n
  by (rule te_ok_pred [OF te_owner_good])

subsection \<open>Steps and runs\<close>

lemma map_emplace_last: "list_all (\<lambda>j. j < i) (map fst m) \<Longrightarrow> map_emplace i v m = m @ [(i, v)]"
proof -
  assume a: "list_all (\<lambda>j. j < i) (map fst m)"
  then have "map_of m i = None" by (auto simp: map_of_eq_None_iff list_all_iff)
  moreover from a have "insort_key fst (i, v) m = m @ [(i, v)]" by (induction m) auto
  ultimately show ?thesis by (simp add: map_emplace_def)
qed

lemma te_ok_mono: "te_ok E a k m x te \<Longrightarrow> E \<subseteq> F \<Longrightarrow> te_ok F a k m x te"
  unfolding te_ok_def te_inv_def by (auto simp: list_all_iff)

lemma te_submit_ok:
  assumes "good g" "te_ok E a a m [] te"
  shows "te_ok (insert (uuid, owner) E) (Suc a) (Suc a) m [] (submit_order l g sy owner order0 uuid cb te)"
proof -
  define y where "y = (if oid order0 = 0 then (order0\<lparr>oid := next_order_id te\<rparr>, te\<lparr>next_order_id := Suc (next_order_id te)\<rparr>) else (order0, te))"
  define c where "c = client_for owner (snd y)"
  define te3 where "te3 = (snd c)\<lparr>next_assign_seq := Suc (next_assign_seq (snd c))\<rparr>"
  define e where "e = ensure_position l g sy owner (fst c) te3"
  define p where "p = \<lparr>pe_symbol = sy, pe_owner = owner, pe_uuid = uuid, pe_order = (fst y)\<lparr>client_id := fst c\<rparr>, pe_cb = cb,
    pe_client = fst c, pe_acked = False, pe_ok = False, pe_pos_ready = fst e\<rparr>"
  have 1: "te_ok E a a m [] (snd y)" using assms(2) by (simp add: y_def)
  then have 2: "te_ok E a a m [] (snd c)" unfolding c_def by (rule te_ok_client [OF assms(1)])
  then have sq: "next_assign_seq (snd c) = a" by (simp add: te_ok_def te_inv_def)
  have 3: "te_ok E (Suc a) a m [] te3" using 2 by (simp add: te3_def te_ok_def te_inv_def)
  then have 4: "te_ok E (Suc a) a m [] (snd e)" unfolding e_def by (rule te_ok_position [OF assms(1)])
  then have keys: "map fst (te_pending (snd e)) = [next_place_seq (snd e)..<a]" "next_place_seq (snd e) \<le> a"
    by (simp_all add: te_ok_def te_inv_def)
  then have emp: "map_emplace a p (te_pending (snd e)) = te_pending (snd e) @ [(a, p)]"
    by (intro map_emplace_last) (simp add: list_all_iff)
  have 5: "te_ok (insert (uuid, owner) E) (Suc a) a m [] (snd e)" using 4 by (rule te_ok_mono) blast
  have 6: "te_ok (insert (uuid, owner) E) (Suc a) (Suc a) m [] ((snd e)\<lparr>te_pending := map_emplace a p (te_pending (snd e))\<rparr>)"
    using 5 keys unfolding te_ok_def te_inv_def emp by (simp add: p_def)
  have "submit_order l g sy owner order0 uuid cb te = report_order l g (OrderFields sy owner (pe_order p)) (Some (OrderReported a))
      ((snd e)\<lparr>te_pending := map_emplace a p (te_pending (snd e))\<rparr>)"
    by (simp add: submit_order_def split_def Let_def p_def e_def te3_def [folded sq] c_def y_def [symmetric] sq [unfolded c_def])
  then show ?thesis using te_ok_sends(7) [OF assms(1) 6] by simp
qed

lemma te_cancel_ok:
  assumes "good g" "te_ok E a k m x te"
  shows "te_ok E a k m x (snd (cancel_order l g uuid requester te))"
proof -
  have del: "te_ok E a k m x (te\<lparr>id_uuid := iu, handles := AList.delete u (handles te)\<rparr>)"
      "te_ok E a k m x (te\<lparr>pull_ignore := pi, id_uuid := iu, handles := AList.delete u (handles te)\<rparr>)" if "te_ok E a k m x te" for pi iu u te
    using that by (simp_all add: te_ok_def te_inv_def delete_sub)
  show ?thesis using assms te_ok_fault by (auto simp: cancel_order_def Let_def te_ok_sends te_ok_reports del split: option.split)
qed

lemma auction_ok: "good g \<Longrightarrow> te_ok E a k m x te \<Longrightarrow> te_ok E a k m x (run_auction l g sy is_opening cb te)"
  by (simp add: run_auction_def Let_def te_ok_reports te_ok_fault split: option.split)

definition sequenced :: "(string \<times> string) set \<Rightarrow> TradingEngine \<Rightarrow> bool" where
  "sequenced E te \<longleftrightarrow> te_ok E (next_assign_seq te) (next_assign_seq te) 1 [] te"

lemma te_ok_sequenced: "te_ok E a a 1 [] te \<Longrightarrow> sequenced E te"
  by (simp add: sequenced_def te_ok_def te_inv_def)

lemma step_sequenced:
  assumes "sequenced E te" "te_step n e te = Some te'"
  shows "sequenced (submission_of e \<union> E) te'"
proof -
  obtain l ev where e: "e = (l, ev)" by (cases e)
  note te = assms(1) [unfolded sequenced_def] and g = te_owner_good [of l n]
  have kept: "sequenced E t" if "te_ok E (next_assign_seq te) (next_assign_seq te) 1 [] t" for t
    using that by (rule te_ok_sequenced)
  have cb: "keeps_log (te_prop E a k m x) (storage_cb (te_owner l n))" for a k m x using g by (simp add: good_def)
  show ?thesis
  proof (cases ev)
    case (TeSubmit sy owner y uuid cb)
    then show ?thesis using assms(2) e te_ok_sequenced [OF te_submit_ok [OF g te]] by auto
  next
    case TeCancel
    then show ?thesis using assms(2) e kept [OF te_cancel_ok [OF g te]] by auto
  next
    case TeAuction
    then show ?thesis using assms(2) e kept [OF auction_ok [OF g te]] by auto
  next
    case TeSeed
    then show ?thesis using assms(2) e kept [OF te_frame.keeps_sends(3) [OF te]] by (auto simp: seed_from_storage_def)
  next
    case TeCommit
    then show ?thesis using assms(2) e kept [OF te_frame.keeps_sends(6) [OF te]] by (auto simp: commit_engine_def)
  next
    case TeIo
    then show ?thesis using assms(2) e kept on_io_ready_holds [OF cb te [folded holds_te_prop]] by (auto simp: holds_te_prop)
  next
    case TeTimer
    then show ?thesis using assms(2) e kept on_timer_holds [OF cb te [folded holds_te_prop]] by (auto simp: holds_te_prop)
  qed
qed

lemma run_sequenced:
  "sequenced E te \<Longrightarrow> te_run n es te = Some te' \<Longrightarrow> sequenced (submissions es \<union> E) te'"
proof (induction es arbitrary: E te)
  case (Cons e es)
  then obtain te1 where te1: "te_step n e te = Some te1" "te_run n es te1 = Some te'" by (auto simp: bind_eq_Some_conv)
  from Cons.IH [OF step_sequenced [OF Cons.prems(1) te1(1)] te1(2)] show ?case by (simp add: submissions_def Un_ac)
qed (simp add: submissions_def)

lemma new_sequenced: "sequenced {} (new_TradingEngine M mem rfd wfd timeout)"
  by (simp add: sequenced_def te_ok_def te_inv_def new_TradingEngine_def new_HelperClient_def)

subsection \<open>Runs return\<close>

definition tidy :: "HelperCodec \<Rightarrow> (nat \<times> EngineCb StorageCb) list \<Rightarrow> bytes \<Rightarrow> bool \<Rightarrow> TradingEngine \<Rightarrow> bool" where
  "tidy codec x v b te \<longleftrightarrow> accounted codec x te \<and> hc_in te = v \<and> (b \<longrightarrow> hc_closed te)"

lemma tidy_ext:
  "HelperClient.truncate te = HelperClient.truncate te' \<Longrightarrow> tidy codec x v b te = tidy codec x v b te'"
  by (cases te; cases te') (simp add: tidy_def accounted_def answered_def awaiting_def HelperClient.defs)

lemma tidy_pred:
  assumes "owner_ok (link_codec l) (storage_cb g)"
  shows "helper_pred (tidy (link_codec l) x v b) l g"
proof unfold_locales
  fix te ty flds cb assume "tidy (link_codec l) x v b te"
  then show "tidy (link_codec l) x v b (storage_send l g ty flds cb te)"
    using send_ok [OF assms, of x te] by (simp add: tidy_def storage_send_def)
qed (rule tidy_ext, simp add: HelperClient.defs)+

lemma te_owner_accounts: "owner_ok (link_codec l) (storage_cb (te_owner l n))"
proof (induction n)
  case 0
  have "tidy codec x v b (storage_cb (te_owner l 0) k ok msg te) = tidy codec x v b te" for codec x v b k ok msg te
    by (rule tidy_ext) (simp add: storage_cb_def split_def Let_def HelperClient.defs split: option.split)
  then show ?case unfolding owner_ok_def tidy_def by blast
next
  case (Suc n)
  have "tidy (link_codec l) x v b (storage_cb (te_owner l (Suc n)) k ok msg te)" if "tidy (link_codec l) x v b te" for x v b k ok msg te
    using that helper_pred.keeps_replies [OF tidy_pred [OF Suc]] engine_pred.other(1) [OF helper_pred.axioms(1) [OF tidy_pred [OF Suc]]]
    by (simp add: storage_cb_def split_def Let_def split: option.split)
  then show ?case unfolding owner_ok_def tidy_def by blast
qed

interpretation te_account: helper_pred "tidy (link_codec l) x v b" l "te_owner l n" for l n x v b
  by (rule tidy_pred [OF te_owner_accounts])

definition uses_codec :: "HelperCodec \<Rightarrow> (Link \<times> TeEvent) list \<Rightarrow> bool" where
  "uses_codec codec es = list_all (\<lambda>(l, ev). link_codec l = codec) es"

lemma step_returns:
  assumes "takes_bytes (link_codec l)" "accounted (link_codec l) [] te"
  shows "\<exists>te'. te_step n (l, ev) te = Some te' \<and> accounted (link_codec l) [] te'"
proof -
  have te: "tidy (link_codec l) [] (hc_in te) (hc_closed te) te" using assms(2) by (simp add: tidy_def)
  note ok = te_owner_accounts [of l n]
  show ?thesis
  proof (cases ev)
    case TeSubmit
    then show ?thesis using te_account.keeps_submits [OF te] by (simp add: tidy_def)
  next
    case TeCancel
    then show ?thesis using te_account.keeps_cancels [OF te] by (simp add: tidy_def)
  next
    case TeAuction
    then show ?thesis using te_account.keeps_auctions [OF te] by (simp add: tidy_def)
  next
    case TeSeed
    then show ?thesis using te_account.keeps_sends(3) [OF te] by (simp add: tidy_def seed_from_storage_def)
  next
    case TeCommit
    then show ?thesis using te_account.keeps_sends(6) [OF te] by (simp add: tidy_def commit_engine_def)
  next
    case TeIo
    then show ?thesis using on_io_ready_ok [OF ok assms] by simp
  next
    case TeTimer
    then show ?thesis using on_timer_ok [OF ok assms(2)] by simp
  qed
qed

lemma run_returns:
  "takes_bytes codec \<Longrightarrow> uses_codec codec es \<Longrightarrow> accounted codec [] te
    \<Longrightarrow> \<exists>te'. te_run n es te = Some te' \<and> accounted codec [] te'"
proof (induction es arbitrary: te)
  case (Cons e es)
  obtain l ev where e: "e = (l, ev)" by (cases e)
  then have l: "link_codec l = codec" "uses_codec codec es" using Cons.prems(2) by (simp_all add: uses_codec_def)
  then obtain te1 where "te_step n e te = Some te1" "accounted codec [] te1" using step_returns [of l te n ev] Cons.prems e by auto
  then show ?case using Cons.IH [OF Cons.prems(1) l(2)] by simp
qed simp

lemma new_te_accounted: "accounted codec [] (new_TradingEngine M mem rfd wfd timeout)"
  unfolding new_TradingEngine_def by (rule new_accounted)

subsection \<open>Parked orders\<close>

text \<open>The head of the queue is ready for placing but for the depth of the window.\<close>

definition parked :: "PendingOrder \<Rightarrow> TradingEngine \<Rightarrow> bool" where
  "parked p te \<longleftrightarrow> map_of (te_pending te) (next_place_seq te) = Some p \<and> pe_acked p \<and> pe_pos_ready p
     \<and> 0 < te_mem_levels te \<and> pe_symbol p \<in> set (warmed te)
     \<and> needs_deep (pe_symbol p) (pe_order p) (Opposite (side (pe_order p))) te"

definition writes_ok :: "WriteResult list \<Rightarrow> bool" where
  "writes_ok ws = list_all (\<lambda>w. w \<noteq> WriteFail \<and> w \<noteq> WroteSome 0) ws"

lemma writes_ok_loop: "writes_ok ws \<Longrightarrow> \<not> snd (write_loop ws out)"
  by (induction ws out rule: write_loop.induct) (auto simp: writes_ok_def)

lemma more_fields:
  fixes te te' :: TradingEngine
  assumes "HelperClient.more te' = HelperClient.more te"
  shows "te_pending te' = te_pending te" "next_place_seq te' = next_place_seq te" "te_mem_levels te' = te_mem_levels te"
    "warmed te' = warmed te" "te_matching te' = te_matching te" "depth_pulls te' = depth_pulls te"
    "te_placed te' = te_placed te" "te_results te' = te_results te" "te_fault te' = te_fault te"
  using assms by (cases te; cases te'; simp)+

lemma parked_cong:
  "te_pending te' = te_pending te \<Longrightarrow> next_place_seq te' = next_place_seq te \<Longrightarrow> te_mem_levels te' = te_mem_levels te
    \<Longrightarrow> warmed te' = warmed te \<Longrightarrow> te_matching te' = te_matching te \<Longrightarrow> parked p te' = parked p te"
  by (simp add: parked_def needs_deep_def)

lemma parked_depth:
  assumes "parked p te" "depth_pulls te = 0"
  defines "s \<equiv> Opposite (side (pe_order p))"
  shows "\<exists>px. drain_pending l g te = pull_levels l g (pe_symbol p) (SideName s) px (int (te_mem_levels te))
    (Some (LevelsPulled (pe_symbol p) s)) (te\<lparr>depth_pulls := 1\<rparr>)"
proof -
  obtain te1 where te1: "ensure_depth l g (pe_symbol p) (pe_order p) te = (False, te1)" "\<exists>px. te1 = pull_levels l g (pe_symbol p) (SideName s) px
      (int (te_mem_levels te)) (Some (LevelsPulled (pe_symbol p) s)) (te\<lparr>depth_pulls := 1\<rparr>)"
    using assms(1,2) by (auto simp: ensure_depth_def parked_def Let_def s_def)
  have "drain_head l g te = Some (Inr te1)" using assms(1) te1(1) by (simp add: drain_head_def parked_def)
  then show ?thesis using te1(2) by (auto simp: drain_pending_def iter_Inr)
qed

lemma pull_open:
  assumes "te' = pull_levels l g sy sn px n cb te" "\<not> hc_closed te" "writes_ok (link_ws l)"
  shows "HelperClient.more te' = HelperClient.more te" "\<not> hc_closed te'" "length (hc_requests te') = Suc (length (hc_requests te))"
proof -
  let ?send = "\<lambda>ty flds k. helper_send (link_codec l) (storage_cb g) ty flds (Some k) (link_now l) (link_ws l) te"
  have q: "HelperClient.more (?send ty flds k) = HelperClient.more te \<and> \<not> hc_closed (?send ty flds k)" for ty flds k
    using assms(2) by (intro send_quiet) (simp_all add: writes_ok_loop [OF assms(3)])
  have r: "length (hc_requests (?send ty flds k)) = Suc (length (hc_requests te))" for ty flds k
    using assms(2) writes_ok_loop [OF assms(3)]
    by (simp add: helper_send_def hc_on_writable_def set_write_interest_def Let_def split_def)
  show "HelperClient.more te' = HelperClient.more te" "\<not> hc_closed te'" "length (hc_requests te') = Suc (length (hc_requests te))"
    using q r by (simp_all add: assms(1) pull_levels_def storage_send_def)
qed

lemma insert_resident_deep:
  assumes "engine_has_deep sy s M"
  shows "engine_has_deep sy s (engine_insert_resident sy y M)"
proof -
  obtain b where b: "map_of (books M) sy = Some b" "has_deep b s"
    using assms by (auto simp: engine_has_deep_def book_of_def split: option.splits)
  have feed: "books (fold engine_on_event evs M) = books M" for evs M
    by (induction evs arbitrary: M) (simp_all add: engine_on_event_def Let_def)
  have "deep_of (place y b) s = deep_of b s" by (simp add: place_def Let_def deep_of_def upd_ladder_def)
  then show ?thesis using b
    by (simp add: engine_has_deep_def book_of_def engine_insert_resident_def insert_resident_def book_for_def store_book_def feed
        update_conv has_deep_def deep_of_def split: if_splits)
qed

lemma market_needs: "otype y = Market \<Longrightarrow> needs_deep sy y s te = engine_has_deep sy s (te_matching te)"
  by (simp add: needs_deep_def split: option.split)

lemma pulled_parked:
  fixes s :: Side
  assumes "parked p te" "otype (pe_order p) = Market \<or> os = []"
  defines "te' \<equiv> fold (materialize (pe_symbol p) s) os te"
  shows "parked p te' \<and> te_pending te' = te_pending te \<and> te_placed te' = te_placed te \<and> te_results te' = te_results te
    \<and> depth_pulls te' = depth_pulls te \<and> hc_closed te' = hc_closed te \<and> hc_requests te' = hc_requests te"
  using assms(1,2) unfolding te'_def
proof (induction os arbitrary: te)
  case (Cons po os)
  then have m: "otype (pe_order p) = Market" by simp
  let ?te = "materialize (pe_symbol p) s po te"
  have "parked p ?te" using Cons.prems(1) insert_resident_deep by (auto simp: parked_def market_needs [OF m] materialize_def)
  with Cons.IH [OF this] m show ?case by (simp add: materialize_def)
qed simp

lemma parked_reply:
  fixes g :: te_owner_fn and ok :: bool
  assumes "parked p te" "otype (pe_order p) = Market \<or> os = []" "depth_pulls te = 1" "\<not> hc_closed te" "writes_ok (link_ws l)"
  defines "te' \<equiv> engine_reply l g (LevelsPulled (pe_symbol p) (Opposite (side (pe_order p)))) (Pulled ok os) te"
  shows "parked p te' \<and> depth_pulls te' = 1 \<and> \<not> hc_closed te' \<and> te_pending te' = te_pending te \<and> te_placed te' = te_placed te
    \<and> te_results te' = te_results te \<and> length (hc_requests te') = Suc (length (hc_requests te))"
proof -
  let ?s = "Opposite (side (pe_order p))" and ?os = "if ok then os else []"
  define te1 where "te1 = fold (materialize (pe_symbol p) ?s) ?os te"
  have te1: "parked p te1" "te_pending te1 = te_pending te" "te_placed te1 = te_placed te" "te_results te1 = te_results te"
    "depth_pulls te1 = 1" "\<not> hc_closed te1" "hc_requests te1 = hc_requests te"
    using pulled_parked [OF assms(1), of ?os ?s] assms(2-4) by (auto simp: te1_def)
  let ?te2 = "te1\<lparr>depth_pulls := 0, pull_ignore := []\<rparr>"
  have te2: "parked p ?te2" using te1(1) by (simp cong: parked_cong)
  obtain px where te': "te' = pull_levels l g (pe_symbol p) (SideName ?s) px (int (te_mem_levels te1))
      (Some (LevelsPulled (pe_symbol p) ?s)) (?te2\<lparr>depth_pulls := 1\<rparr>)"
    using parked_depth [OF te2, of l g] te1(5) by (auto simp: te'_def on_pull_def te1_def Let_def)
  note o = pull_open [OF te', simplified, OF te1(6) assms(5)]
  have f: "te_pending te' = te_pending te1" "next_place_seq te' = next_place_seq te1" "te_mem_levels te' = te_mem_levels te1"
    "warmed te' = warmed te1" "te_matching te' = te_matching te1" "depth_pulls te' = 1"
    "te_placed te' = te_placed te1" "te_results te' = te_results te1"
    using more_fields [of te' "?te2\<lparr>depth_pulls := 1\<rparr>"] o(1) by simp_all
  then show ?thesis using te1 o parked_cong [OF f(1-5), of p] by simp
qed

lemma closed_send:
  fixes te :: TradingEngine
  assumes "hc_closed te" "snd (storage_reply k False new_HelperMessage (outbox te)) = Some (c, rep)"
  shows "\<exists>te'. storage_send l g ty flds k te = g c rep te' \<and> hc_closed te'
    \<and> (\<exists>ob. HelperClient.more te' = HelperClient.more (te\<lparr>outbox := ob\<rparr>))"
proof -
  let ?i = "next_req_id te" and ?ob = "fst (storage_reply k False new_HelperMessage (outbox te))"
  let ?te = "te\<lparr>next_req_id := Suc ?i, hc_asked := hc_asked te @ [(?i, k)],
    hc_calls := hc_calls te @ [(?i, k, False, new_HelperMessage)], outbox := ?ob\<rparr>"
  have "storage_send l g ty flds k te = g c rep ?te"
    using assms by (simp add: storage_send_def helper_send_def hc_call_def storage_cb_def split_def Let_def)
  moreover have "HelperClient.more ?te = HelperClient.more (te\<lparr>outbox := ?ob\<rparr>)" by (cases te) simp
  ultimately show ?thesis using assms(1) by (intro exI [of _ ?te]) auto
qed

lemma closed_drain:
  assumes "parked p te" "depth_pulls te = 0" "hc_closed te"
  shows "\<exists>te'. drain_pending l g te = g (LevelsPulled (pe_symbol p) (Opposite (side (pe_order p)))) (Pulled False []) te'
    \<and> hc_closed te' \<and> depth_pulls te' = 1 \<and> parked p te'"
proof -
  let ?s = "Opposite (side (pe_order p))" and ?te = "te\<lparr>depth_pulls := 1\<rparr>"
  let ?k = "PullCb (Some (LevelsPulled (pe_symbol p) ?s))"
  obtain px where d: "drain_pending l g te = pull_levels l g (pe_symbol p) (SideName ?s) px
      (int (te_mem_levels te)) (Some (LevelsPulled (pe_symbol p) ?s)) ?te"
    using parked_depth [OF assms(1,2)] by blast
  have r: "snd (storage_reply ?k False new_HelperMessage (outbox ?te)) = Some (LevelsPulled (pe_symbol p) ?s, Pulled False [])"
    by (simp add: storage_reply_def)
  have c: "hc_closed ?te" using assms(3) by simp
  obtain te' ob where te': "drain_pending l g te = g (LevelsPulled (pe_symbol p) ?s) (Pulled False []) te'"
    "hc_closed te'" "HelperClient.more te' = HelperClient.more (?te\<lparr>outbox := ob\<rparr>)"
    using closed_send [OF c r, of l g] unfolding d pull_levels_def by metis
  have f: "te_pending te' = te_pending te" "next_place_seq te' = next_place_seq te" "te_mem_levels te' = te_mem_levels te"
    "warmed te' = warmed te" "te_matching te' = te_matching te" "depth_pulls te' = 1"
    using more_fields [OF te'(3)] by simp_all
  show ?thesis using te'(1,2) f(6) assms(1) parked_cong [OF f(1-5), of p] by blast
qed

lemma closed_parked:
  "parked p te \<Longrightarrow> depth_pulls te = 0 \<Longrightarrow> hc_closed te \<Longrightarrow> te_fault (drain_pending l (te_owner l n) te)"
proof (induction n arbitrary: te)
  case (0 te)
  then show ?case using closed_drain [OF 0, of l "te_owner l 0"] by auto
next
  case (Suc n te)
  obtain te' where te': "drain_pending l (te_owner l (Suc n)) te
      = te_owner l (Suc n) (LevelsPulled (pe_symbol p) (Opposite (side (pe_order p)))) (Pulled False []) te'"
    "hc_closed te'" "depth_pulls te' = 1" "parked p te'" using closed_drain [OF Suc.prems] by blast
  have "parked p (te'\<lparr>depth_pulls := 0, pull_ignore := []\<rparr>)" using te'(4) by (simp cong: parked_cong)
  from Suc.IH [OF this] show ?case using te'(1-3) by (simp add: on_pull_def Let_def)
qed

text \<open>The head of the queue waits for a position that counts as loaded: nothing will load it again.\<close>

definition stranded :: "TradingEngine \<Rightarrow> bool" where
  "stranded te \<longleftrightarrow> hc_closed te \<and> (case map_of (te_pending te) (next_place_seq te) of None \<Rightarrow> False
     | Some p \<Rightarrow> \<not> pe_pos_ready p \<and> (pe_symbol p, pe_client p) \<in> set (position_loaded te))"

fun is_submit :: "Link \<times> TeEvent \<Rightarrow> bool" where
  "is_submit (l, TeSubmit sy owner x uuid cb) = True"
| "is_submit e = False"

lemma stranded_drain: "stranded te \<Longrightarrow> drain_pending l g te = te"
  by (auto simp: stranded_def drain_pending_def drain_head_def split: option.splits)

lemma stranded_cong:
  "hc_closed te' = hc_closed te \<Longrightarrow> te_pending te' = te_pending te \<Longrightarrow> next_place_seq te' = next_place_seq te
    \<Longrightarrow> position_loaded te' = position_loaded te \<Longrightarrow> stranded te' = stranded te"
  by (simp add: stranded_def cong: option.case_cong)

lemma more_queue:
  fixes te te' :: TradingEngine
  assumes "HelperClient.more te' = HelperClient.more te"
  shows "te_pending te' = te_pending te" "next_place_seq te' = next_place_seq te" "position_loaded te' = position_loaded te"
    "position_loading te' = position_loading te" "te_results te' = te_results te"
  using assms by (cases te; cases te'; simp)+

lemma map_of_map_entry: "map_of (AList.map_entry k f m) = (map_of m)(k := map_option f (map_of m k))"
  by (induction m) (auto simp: fun_eq_iff)

lemma stranded_reported:
  assumes "stranded te"
  shows "stranded (on_order_reported l g sq ok te) \<and> te_results (on_order_reported l g sq ok te) = te_results te"
proof (cases "map_of (te_pending te) sq")
  case (Some q)
  let ?te = "te\<lparr>te_pending := AList.map_entry sq (\<lambda>p. p\<lparr>pe_acked := True, pe_ok := ok\<rparr>) (te_pending te)\<rparr>"
  have "stranded ?te" using assms by (auto simp: stranded_def map_of_map_entry split: option.splits)
  then show ?thesis using Some stranded_drain [of ?te l g] by (simp add: on_order_reported_def)
qed (use assms in \<open>simp add: on_order_reported_def\<close>)

lemma stranded_position:
  assumes "stranded te" "(sy, c) \<notin> set (position_loaded te)"
  shows "stranded (on_position l g sy c ok nt te) \<and> te_results (on_position l g sy c ok nt te) = te_results te"
proof -
  let ?f = "\<lambda>(sq, p). (sq, if pe_client p = c \<and> pe_symbol p = sy then p\<lparr>pe_pos_ready := True\<rparr> else p)"
  have m: "map_of (map ?f m) j = Some p" if "map_of m j = Some p" "(pe_symbol p, pe_client p) \<noteq> (sy, c)" for m j p
    using that by (induction m) auto
  define te0 where "te0 = (if ok then te\<lparr>te_matching := engine_seed_position sy c nt (te_matching te)\<rparr> else te)"
  have te0: "te_pending te0 = te_pending te" "next_place_seq te0 = next_place_seq te" "position_loaded te0 = position_loaded te"
    "hc_closed te0 = hc_closed te" "te_results te0 = te_results te" by (simp_all add: te0_def)
  define te1 where "te1 = te0\<lparr>position_loading := removeAll (sy, c) (position_loading te0),
    position_loaded := List.insert (sy, c) (position_loaded te0), te_pending := map ?f (te_pending te0)\<rparr>"
  obtain p where p: "map_of (te_pending te) (next_place_seq te) = Some p" "\<not> pe_pos_ready p"
    "(pe_symbol p, pe_client p) \<in> set (position_loaded te)" "hc_closed te"
    using assms(1) by (auto simp: stranded_def split: option.splits)
  have ne: "(pe_symbol p, pe_client p) \<noteq> (sy, c)" using p(3) assms(2) by metis
  have "stranded te1" using m [OF p(1) ne] p te0 by (simp add: stranded_def te1_def)
  moreover have "on_position l g sy c ok nt te = drain_pending l g te1" by (simp add: on_position_def Let_def te1_def te0_def)
  moreover have "te_results te1 = te_results te" using te0 by (simp add: te1_def)
  ultimately show ?thesis using stranded_drain [of te1 l g] by simp
qed

lemma stranded_more:
  assumes "stranded te" "hc_closed te'" "HelperClient.more te' = HelperClient.more (te\<lparr>outbox := ob\<rparr>)"
  shows "stranded te'" "te_results te' = te_results te" "position_loaded te' = position_loaded te"
  using more_queue [OF assms(3)] assms(1,2) by (simp_all add: stranded_def cong: option.case_cong)

lemma stranded_ensure:
  assumes "stranded te"
  shows "stranded (snd (ensure_position l (te_owner l (Suc n)) sy u c te))
    \<and> te_results (snd (ensure_position l (te_owner l (Suc n)) sy u c te)) = te_results te"
proof (cases "c = 0 \<or> (sy, c) \<in> set (position_loaded te) \<or> (sy, c) \<in> set (position_loading te)")
  case True
  then show ?thesis using assms by (auto simp: ensure_position_def)
next
  case False
  let ?te = "te\<lparr>position_loading := List.insert (sy, c) (position_loading te)\<rparr>"
  let ?k = "PositionCb (Some (PositionPulled sy c))"
  have te: "stranded ?te" "hc_closed ?te" using assms by (simp_all add: stranded_def cong: option.case_cong)
  have r: "snd (storage_reply ?k False new_HelperMessage (outbox ?te)) = Some (PositionPulled sy c, Position False 0)"
    by (simp add: storage_reply_def)
  obtain te' ob where te': "snd (ensure_position l (te_owner l (Suc n)) sy u c te) = te_owner l (Suc n) (PositionPulled sy c) (Position False 0) te'"
    "hc_closed te'" "HelperClient.more te' = HelperClient.more (?te\<lparr>outbox := ob\<rparr>)"
    using closed_send [OF te(2) r, of l "te_owner l (Suc n)"] False by (simp del: te_owner.simps add: ensure_position_def pull_position_def) metis
  note m = stranded_more [OF te(1) te'(2,3)]
  show ?thesis using stranded_position [OF m(1), of sy c l "te_owner l n" False 0] False m(2,3) te'(1) by simp
qed

lemma stranded_report:
  assumes "stranded te"
  shows "stranded (report_order l (te_owner l (Suc n)) flds (Some (OrderReported sq)) te)
    \<and> te_results (report_order l (te_owner l (Suc n)) flds (Some (OrderReported sq)) te) = te_results te"
proof -
  let ?k = "ReportCb (Some (OrderReported sq))"
  have c: "hc_closed te" using assms by (simp add: stranded_def)
  have r: "snd (storage_reply ?k False new_HelperMessage (outbox te)) = Some (OrderReported sq, Reported False)"
    by (simp add: storage_reply_def)
  obtain te' ob where te': "storage_send l (te_owner l (Suc n)) ''report_order'' flds ?k te = te_owner l (Suc n) (OrderReported sq) (Reported False) te'"
    "hc_closed te'" "HelperClient.more te' = HelperClient.more (te\<lparr>outbox := ob\<rparr>)"
    using closed_send [OF c r, of l "te_owner l (Suc n)" "''report_order''" flds] by metis
  note m = stranded_more [OF assms te'(2,3)]
  have "stranded (t\<lparr>outbox := z\<rparr>) = stranded t" for t :: TradingEngine and z by (rule stranded_cong) simp_all
  then show ?thesis using stranded_reported [OF m(1), of l "te_owner l n" sq False] m(2) te'(1)
    by (simp add: report_order_def report_def Let_def)
qed

lemma map_of_map_emplace: "map_of (map_emplace i v m) = (map_of m)(i \<mapsto> case map_of m i of None \<Rightarrow> v | Some w \<Rightarrow> w)"
  by (auto simp: map_emplace_def map_of_insort fun_eq_iff split: option.split)

lemma client_queue:
  "te_pending (snd (client_for u te)) = te_pending te" "next_place_seq (snd (client_for u te)) = next_place_seq te"
  "position_loaded (snd (client_for u te)) = position_loaded te" "position_loading (snd (client_for u te)) = position_loading te"
  "te_results (snd (client_for u te)) = te_results te" "hc_closed (snd (client_for u te)) = hc_closed te"
  "next_assign_seq (snd (client_for u te)) = next_assign_seq te"
  by (simp_all add: client_for_def Let_def split: option.split)

text \<open>What a submission does up to storing the order in the queue.\<close>

lemma submit_stages:
  obtains te3 flds p where "te_pending te3 = te_pending te" "next_place_seq te3 = next_place_seq te" "position_loaded te3 = position_loaded te"
    "position_loading te3 = position_loading te" "te_results te3 = te_results te" "hc_closed te3 = hc_closed te"
    "pe_symbol p = sy" "pe_client p = fst (client_for owner te)"
    "pe_pos_ready p = fst (ensure_position l g sy owner (fst (client_for owner te)) te3)"
    "submit_order l g sy owner y uuid cb te = report_order l g flds (Some (OrderReported (next_assign_seq te)))
       ((snd (ensure_position l g sy owner (fst (client_for owner te)) te3))\<lparr>te_pending := map_emplace (next_assign_seq te) p
         (te_pending (snd (ensure_position l g sy owner (fst (client_for owner te)) te3)))\<rparr>)"
proof -
  define x where "x = (if oid y = 0 then (y\<lparr>oid := next_order_id te\<rparr>, te\<lparr>next_order_id := Suc (next_order_id te)\<rparr>) else (y, te))"
  define c where "c = client_for owner (snd x)"
  have c: "fst c = fst (client_for owner te)" by (simp add: c_def x_def client_for_def Let_def split: option.split)
  define te3 where "te3 = (snd c)\<lparr>next_assign_seq := Suc (next_assign_seq te)\<rparr>"
  define e where "e = ensure_position l g sy owner (fst c) te3"
  let ?p = "\<lparr>pe_symbol = sy, pe_owner = owner, pe_uuid = uuid, pe_order = (fst x)\<lparr>client_id := fst c\<rparr>, pe_cb = cb,
    pe_client = fst c, pe_acked = False, pe_ok = False, pe_pos_ready = fst e\<rparr>"
  have sq: "next_assign_seq (snd c) = next_assign_seq te" by (simp add: c_def client_queue x_def)
  show thesis
  proof (rule that [of te3 ?p "OrderFields sy owner (pe_order ?p)"])
    show "submit_order l g sy owner y uuid cb te = report_order l g (OrderFields sy owner (pe_order ?p)) (Some (OrderReported (next_assign_seq te)))
       ((snd (ensure_position l g sy owner (fst (client_for owner te)) te3))\<lparr>te_pending := map_emplace (next_assign_seq te) ?p
         (te_pending (snd (ensure_position l g sy owner (fst (client_for owner te)) te3)))\<rparr>)"
      by (simp add: submit_order_def split_def Let_def x_def [symmetric] c_def [symmetric] c [symmetric] sq te3_def [symmetric] e_def [symmetric])
  qed (simp_all add: e_def c, simp_all add: te3_def c_def client_queue x_def)
qed

lemma stranded_submit:
  assumes "stranded te" and te'_def: "te' = submit_order l (te_owner l (Suc n)) sy owner y uuid cb te"
  shows "stranded te' \<and> te_results te' = te_results te"
proof -
  let ?g = "te_owner l (Suc n)" and ?c = "fst (client_for owner te)"
  obtain te3 flds p where s: "te_pending te3 = te_pending te" "next_place_seq te3 = next_place_seq te" "position_loaded te3 = position_loaded te"
      "te_results te3 = te_results te" "hc_closed te3 = hc_closed te"
      "te' = report_order l ?g flds (Some (OrderReported (next_assign_seq te)))
       ((snd (ensure_position l ?g sy owner ?c te3))\<lparr>te_pending := map_emplace (next_assign_seq te) p
         (te_pending (snd (ensure_position l ?g sy owner ?c te3)))\<rparr>)"
    unfolding te'_def by (rule submit_stages) blast
  have "stranded te3" using assms(1) s(1-5) stranded_cong [of te3 te] by simp
  note e = stranded_ensure [OF this, of l n sy owner ?c]
  have emp: "stranded (t\<lparr>te_pending := map_emplace i p (te_pending t)\<rparr>)" if "stranded t" for t i
    using that by (auto simp: stranded_def map_of_map_emplace split: option.splits)
  show ?thesis using stranded_report [OF emp [of "snd (ensure_position l ?g sy owner ?c te3)"], of l n flds] e s(4,6) by simp
qed

lemma first_stranded:
  assumes "hc_closed te" "te_pending te = []" "next_place_seq te = next_assign_seq te"
    "fst (client_for owner te) \<noteq> 0" "(sy, fst (client_for owner te)) \<notin> set (position_loaded te) \<union> set (position_loading te)"
    and te'_def: "te' = submit_order l (te_owner l (Suc n)) sy owner y uuid cb te"
  shows "stranded te' \<and> te_results te' = te_results te"
proof -
  let ?g = "te_owner l (Suc n)" and ?c = "fst (client_for owner te)"
  obtain te3 flds p where s: "te_pending te3 = te_pending te" "next_place_seq te3 = next_place_seq te" "position_loaded te3 = position_loaded te"
      "position_loading te3 = position_loading te" "te_results te3 = te_results te" "hc_closed te3 = hc_closed te"
      "pe_symbol p = sy" "pe_client p = ?c" "pe_pos_ready p = fst (ensure_position l ?g sy owner ?c te3)"
      "te' = report_order l ?g flds (Some (OrderReported (next_assign_seq te)))
       ((snd (ensure_position l ?g sy owner ?c te3))\<lparr>te_pending := map_emplace (next_assign_seq te) p
         (te_pending (snd (ensure_position l ?g sy owner ?c te3)))\<rparr>)"
    unfolding te'_def by (rule submit_stages) blast
  let ?te = "te3\<lparr>position_loading := List.insert (sy, ?c) (position_loading te3)\<rparr>"
  let ?k = "PositionCb (Some (PositionPulled sy ?c))"
  have r: "snd (storage_reply ?k False new_HelperMessage (outbox ?te)) = Some (PositionPulled sy ?c, Position False 0)"
    by (simp add: storage_reply_def)
  have c: "hc_closed ?te" using assms(1) s(6) by simp
  have e: "ensure_position l ?g sy owner ?c te3 = (False, pull_position l ?g owner sy (Some (PositionPulled sy ?c)) ?te)"
    using assms(4,5) s(3,4) by (simp add: ensure_position_def del: te_owner.simps)
  obtain te4 ob where te4: "snd (ensure_position l ?g sy owner ?c te3) = ?g (PositionPulled sy ?c) (Position False 0) te4"
    "hc_closed te4" "HelperClient.more te4 = HelperClient.more (?te\<lparr>outbox := ob\<rparr>)"
    using closed_send [OF c r, of l ?g] unfolding e by (simp del: te_owner.simps add: pull_position_def) metis
  have q: "te_pending te4 = []" "next_place_seq te4 = next_assign_seq te" "te_results te4 = te_results te"
    using more_queue [OF te4(3)] assms(2,3) s(1,2,5) by simp_all
  let ?te5 = "te4\<lparr>position_loading := removeAll (sy, ?c) (position_loading te4), position_loaded := List.insert (sy, ?c) (position_loaded te4),
    te_pending := []\<rparr>"
  have "drain_head l g ?te5 = Some (Inr ?te5)" for g using q by (simp add: drain_head_def)
  then have d: "drain_pending l g ?te5 = ?te5" for g by (simp add: drain_pending_def)
  then have five: "snd (ensure_position l ?g sy owner ?c te3) = ?te5" unfolding te4(1) using q by (simp add: on_position_def)
  have "stranded (?te5\<lparr>te_pending := map_emplace (next_assign_seq te) p (te_pending ?te5)\<rparr>)"
    using te4(2) q s(7-9) e by (simp add: stranded_def map_emplace_def)
  from stranded_report [OF this] show ?thesis unfolding s(10) five using q by simp
qed

text \<open>Callbacks nobody waits for.\<close>

definition silent :: "EngineCb StorageCb Pending \<Rightarrow> bool" where
  "silent r \<longleftrightarrow> snd (storage_reply (pend_cb r) False new_HelperMessage []) = None"

lemma silent_fails:
  fixes te :: TradingEngine and g :: te_owner_fn
  assumes "list_all (\<lambda>(i, r). silent r) ps"
  defines "te' \<equiv> fold (\<lambda>(i, p). hc_call (storage_cb g) i (pend_cb p) False new_HelperMessage) ps te"
  shows "\<exists>ob. HelperClient.more te' = HelperClient.more (te\<lparr>outbox := ob\<rparr>)" "hc_closed te' = hc_closed te"
proof -
  have c: "\<exists>ob. hc_call (storage_cb g) i (pend_cb r) False new_HelperMessage t
      = t\<lparr>hc_calls := hc_calls t @ [(i, pend_cb r, False, new_HelperMessage)], outbox := ob\<rparr>" if "silent r" for i r and t :: TradingEngine
    using that storage_reply_answer [of "pend_cb r" False new_HelperMessage "outbox t"]
    by (auto simp: silent_def hc_call_def storage_cb_def split_def Let_def)
  have "(\<exists>ob. HelperClient.more te' = HelperClient.more (te\<lparr>outbox := ob\<rparr>)) \<and> hc_closed te' = hc_closed te"
    using assms(1) unfolding te'_def
  proof (induction ps arbitrary: te)
    case Nil
    show ?case by (simp, rule exI [of _ "outbox te"]) simp
  next
    case (Cons ir ps)
    obtain i r where ir: "ir = (i, r)" by (cases ir)
    obtain ob where ob: "hc_call (storage_cb g) i (pend_cb r) False new_HelperMessage te
      = te\<lparr>hc_calls := hc_calls te @ [(i, pend_cb r, False, new_HelperMessage)], outbox := ob\<rparr>" (is "_ = ?te")
      using c [of r i te] Cons.prems ir by auto
    have "HelperClient.more (?te\<lparr>outbox := z\<rparr>) = HelperClient.more (te\<lparr>outbox := z\<rparr>)" for z by (cases te) simp
    then show ?case using Cons.IH [of ?te] Cons.prems ir ob by simp
  qed
  then show "\<exists>ob. HelperClient.more te' = HelperClient.more (te\<lparr>outbox := ob\<rparr>)" "hc_closed te' = hc_closed te" by blast+
qed

subsection \<open>A session\<close>

text \<open>A session on a window of one level: two sell orders, the second beyond the window, then a market buy.\<close>

definition sample_link :: Link where
  "sample_link = \<lparr>link_codec = text_codec, link_now = 0, link_ws = []\<rparr>"

definition storage_answers :: "nat list \<Rightarrow> Link \<times> TeEvent" where
  "storage_answers is = (sample_link, TeIo 5 True False False
     [ReadSome (concat (map (\<lambda>i. text_encode \<lparr>req_id = i, msg_type = ''ok'', msg_fields = []\<rparr>) is))] [])"

definition sample_session :: "(Link \<times> TeEvent) list" where
  "sample_session =
     [(sample_link, TeSubmit ''X'' [] (default_Order\<lparr>side := Sell, otype := Limit, price := 10, qty := 3\<rparr>) ''u1'' (Some 1)),
      storage_answers [1], storage_answers [2, 3],
      (sample_link, TeSubmit ''X'' [] (default_Order\<lparr>side := Sell, otype := Limit, price := 11, qty := 3\<rparr>) ''u2'' (Some 2)),
      storage_answers [5],
      (sample_link, TeSubmit ''X'' [] (default_Order\<lparr>side := Buy, otype := Market, qty := 2\<rparr>) ''u3'' (Some 3)),
      storage_answers [7]]"

text \<open>Where that session leaves the queue: the market order is acknowledged and waits for its pull.\<close>

definition waiting_market :: PendingOrder where
  "waiting_market = \<lparr>pe_symbol = ''X'', pe_owner = [], pe_uuid = ''u3'', pe_order = default_Order\<lparr>oid := 3, side := Buy, otype := Market, qty := 2\<rparr>,
     pe_cb = Some 3, pe_client = 0, pe_acked = True, pe_ok = True, pe_pos_ready = True\<rparr>"

definition waiting_engine :: TradingEngine where
  "waiting_engine = (new_TradingEngine (new_Engine kStpNone 1\<lparr>books := [(''X'', new_Book kStpNone 1\<lparr>deep_ask := \<lparr>d_has = True, d_boundary = 11\<rparr>\<rparr>)]\<rparr>)
       1 5 5 0)
     \<lparr>te_pending := [(3, waiting_market)], next_assign_seq := 4, next_place_seq := 3, warmed := [''X''], depth_pulls := 1,
      hc_pending := [(6, \<lparr>pend_cb = RestCb None, pend_deadline = 0\<rparr>),
        (8, \<lparr>pend_cb = PullCb (Some (LevelsPulled ''X'' Sell)), pend_deadline = 0\<rparr>)]\<rparr>"

lemma waiting_parked: "parked waiting_market waiting_engine"
  by (simp add: parked_def waiting_market_def waiting_engine_def new_TradingEngine_def new_HelperClient_def needs_deep_def
      engine_has_deep_def engine_worst_resident_def book_of_def has_deep_def deep_of_def split: option.split)

subsection \<open>Properties\<close>



text \<open>C15. An order is cancelled only by its owner: a cancel request that is granted names a handle under
  which that very requester submitted an order earlier; a request that is not granted changes nothing.\<close>

theorem cancel_only_owner:
  assumes "te_run n es (new_TradingEngine M mem rfd wfd timeout) = Some te"
  shows "if fst (fst (cancel_order l g uuid requester te)) = kOk then (uuid, requester) \<in> submissions es
    else snd (cancel_order l g uuid requester te) = te"
proof -
  have h: "list_all (\<lambda>(u, h). (u, h_owner h) \<in> submissions es) (handles te)"
    using run_sequenced [OF new_sequenced assms] by (simp add: sequenced_def te_ok_def te_inv_def)
  then have "(uuid, h_owner h) \<in> submissions es" if "map_of (handles te) uuid = Some h" for h
    using map_of_SomeD [OF that] by (fastforce simp: list_all_iff)
  then show ?thesis by (auto simp: cancel_order_def Let_def split: option.splits)
qed

theorem cancel_only_owner_witness:
  "\<exists>te. te_run 2 sample_session (new_TradingEngine (new_Engine kStpNone 1) 1 5 5 0) = Some te
    \<and> (if fst (fst (cancel_order sample_link (te_owner sample_link 2) ''u1'' ''eve'' te)) = kOk then (''u1'', ''eve'') \<in> submissions sample_session
        else snd (cancel_order sample_link (te_owner sample_link 2) ''u1'' ''eve'' te) = te)
    \<and> (''u1'', ''eve'') \<notin> submissions sample_session"
proof -
  have "uses_codec text_codec sample_session" by (simp add: uses_codec_def sample_session_def storage_answers_def sample_link_def)
  then obtain te where te: "te_run 2 sample_session (new_TradingEngine (new_Engine kStpNone 1) 1 5 5 0) = Some te"
    using run_returns [OF codecs_take_bytes(1) _ new_te_accounted] by blast
  have "(''u1'', ''eve'') \<notin> submissions sample_session" by (simp add: submissions_def sample_session_def storage_answers_def)
  then show ?thesis using te cancel_only_owner [OF te] by blast
qed

text \<open>C16. A market order that meets a side with deep levels is never placed: nothing clears the mark that a
  side has deep levels, so every answer of storage, whatever orders it brings, is followed by a
  further pull for the same order, and the order, with everything behind it, stays pending.
  A limit order that reaches beyond the window shares this once storage has nothing further to send.\<close>

theorem deep_pull_never_places:
  fixes g :: te_owner_fn
  assumes "parked p te" "otype (pe_order p) = Market \<or> concat (map snd replies) = []" "depth_pulls te = 1" "\<not> hc_closed te"
    "writes_ok (link_ws l)"
  defines "te' \<equiv> fold (\<lambda>(ok, os). engine_reply l g (LevelsPulled (pe_symbol p) (Opposite (side (pe_order p)))) (Pulled ok os)) replies te"
  shows "parked p te' \<and> depth_pulls te' = 1 \<and> te_pending te' = te_pending te \<and> te_placed te' = te_placed te \<and> te_results te' = te_results te
    \<and> length (hc_requests te') = length (hc_requests te) + length replies"
  using assms(1-4) unfolding te'_def
proof (induction replies arbitrary: te)
  case (Cons r replies)
  obtain ok os where r: "r = (ok, os)" by (cases r)
  let ?te = "engine_reply l g (LevelsPulled (pe_symbol p) (Opposite (side (pe_order p)))) (Pulled ok os) te"
  have "otype (pe_order p) = Market \<or> os = []" using Cons.prems(2) r by auto
  note step = parked_reply [OF Cons.prems(1) this Cons.prems(3,4) assms(5), of g ok]
  have "otype (pe_order p) = Market \<or> concat (map snd replies) = []" using Cons.prems(2) by auto
  with Cons.IH [of ?te] step r show ?case by simp
qed simp

theorem deep_pull_never_places_witness:
  "te_pending (fold (\<lambda>(ok, os). engine_reply sample_link (te_owner sample_link 2) (LevelsPulled ''X'' Sell) (Pulled ok os))
     [(True, [\<lparr>po_id = 2, po_price = 11, po_leaves = 3, po_seq = 2\<rparr>]), (True, []), (True, [])] waiting_engine) = [(3, waiting_market)]"
proof -
  have s: "pe_symbol waiting_market = ''X''" "Opposite (side (pe_order waiting_market)) = Sell" "otype (pe_order waiting_market) = Market"
    by (simp_all add: waiting_market_def)
  have e: "depth_pulls waiting_engine = 1" "\<not> hc_closed waiting_engine" "te_pending waiting_engine = [(3, waiting_market)]"
    by (simp_all add: waiting_engine_def new_TradingEngine_def new_HelperClient_def)
  have "writes_ok (link_ws sample_link)" by (simp add: writes_ok_def sample_link_def)
  from deep_pull_never_places [OF waiting_parked disjI1 [OF s(3)] e(1,2) this, unfolded s(1,2) e(3)] show ?thesis by blast
qed

text \<open>C17. If the storage connection fails while such an order waits for a pull, the engine calls itself
  without end: the failed pull's callback tries to place the order again and pulls again, and on
  the closed connection that pull fails at once, inside the call that issues it. No bound on the
  nesting of callbacks is enough.\<close>

theorem closed_storage_recurses:
  assumes "parked p te" "depth_pulls te = 1" "\<not> hc_closed te"
    "hc_pending te = xs @ (i, \<lparr>pend_cb = PullCb (Some (LevelsPulled (pe_symbol p) (Opposite (side (pe_order p))))), pend_deadline = d\<rparr>) # ys"
    "list_all (\<lambda>(i, r). silent r) (xs @ ys)"
  shows "te_fault (handle_close (storage_cb (te_owner l n)) te)"
proof -
  let ?k = "LevelsPulled (pe_symbol p) (Opposite (side (pe_order p)))" and ?f = "storage_cb (te_owner l n)"
  let ?fail = "fold (\<lambda>(i, p). hc_call ?f i (pend_cb p) False new_HelperMessage)"
  define te0 where "te0 = ?fail xs (te\<lparr>hc_closed := True, write_registered := False, hc_pending := []\<rparr>)"
  define te1 where "te1 = te0\<lparr>hc_calls := hc_calls te0 @ [(i, PullCb (Some ?k), False, new_HelperMessage)]\<rparr>"
  have ps: "list_all (\<lambda>(i, r). silent r) xs" "list_all (\<lambda>(i, r). silent r) ys" using assms(5) by simp_all
  obtain ob where ob: "HelperClient.more te0 = HelperClient.more (te\<lparr>hc_closed := True, write_registered := False, hc_pending := [], outbox := ob\<rparr>)"
    using silent_fails(1) [OF ps(1), of "te_owner l n"] unfolding te0_def by blast
  have "parked p te0" "depth_pulls te0 = 1"
    using more_fields [OF ob] assms(1,2) parked_cong [of te0 te p] by simp_all
  moreover have "hc_closed te0" using silent_fails(2) [OF ps(1), of "te_owner l n"] by (simp add: te0_def)
  ultimately have te1: "parked p (te1\<lparr>depth_pulls := 0, pull_ignore := []\<rparr>)" "hc_closed te1" "depth_pulls te1 = 1"
    using parked_cong [of "te1\<lparr>depth_pulls := 0, pull_ignore := []\<rparr>" te0 p] by (simp_all add: te1_def)
  have call: "hc_call ?f i (PullCb (Some ?k)) False new_HelperMessage te0 = te_owner l n ?k (Pulled False []) te1"
    by (simp add: hc_call_def storage_cb_def storage_reply_def te1_def)
  have close: "handle_close ?f te = ?fail ys (te_owner l n ?k (Pulled False []) te1)"
    using assms(3,4) unfolding call [symmetric] te0_def by (simp add: handle_close_def)
  have "te_fault (te_owner l n ?k (Pulled False []) te1)"
  proof (cases n)
    case (Suc m)
    have "te_owner l n ?k (Pulled False []) te1 = drain_pending l (te_owner l m) (te1\<lparr>depth_pulls := 0, pull_ignore := []\<rparr>)"
      using te1(3) Suc by (simp add: on_pull_def)
    moreover have "te_fault (drain_pending l (te_owner l m) (te1\<lparr>depth_pulls := 0, pull_ignore := []\<rparr>))"
      by (rule closed_parked [OF te1(1)]) (use te1(2) in simp_all)
    ultimately show ?thesis by simp
  qed simp
  moreover have "te_fault (?fail ys t) = te_fault t" for t :: TradingEngine
  proof -
    obtain ob where "HelperClient.more (?fail ys t) = HelperClient.more (t\<lparr>outbox := ob\<rparr>)"
      using silent_fails(1) [OF ps(2), of "te_owner l n" t] by blast
    from more_fields(9) [OF this] show ?thesis by simp
  qed
  ultimately show ?thesis unfolding close by blast
qed

theorem closed_storage_recurses_witness: "te_fault (handle_close (storage_cb (te_owner sample_link 100)) waiting_engine)"
proof (rule closed_storage_recurses [OF waiting_parked])
  show "hc_pending waiting_engine = [(6, \<lparr>pend_cb = RestCb None, pend_deadline = 0\<rparr>)] @ (8, \<lparr>pend_cb = PullCb (Some (LevelsPulled
      (pe_symbol waiting_market) (Opposite (side (pe_order waiting_market))))), pend_deadline = 0\<rparr>) # []"
    by (simp add: waiting_engine_def waiting_market_def)
  show "list_all (\<lambda>(i, r). silent r) ([(6, \<lparr>pend_cb = RestCb None, pend_deadline = 0\<rparr>)] @ [])"
    by (simp add: silent_def storage_reply_def)
qed (simp_all add: waiting_engine_def new_TradingEngine_def new_HelperClient_def)

text \<open>C18. Orders on a closed storage connection get no answer. When an account sends its first order in a
  symbol on such a connection, the position request fails inside the submission, before the order is in the queue,
  so the order is never marked ready, while the position counts as loaded and is not asked
  for again; neither this order nor any order submitted after it, by whatever account, gets a result.\<close>

theorem closed_storage_strands:
  assumes "hc_closed te" "te_pending te = []" "next_place_seq te = next_assign_seq te" "fst (client_for owner te) \<noteq> 0"
    "(sy, fst (client_for owner te)) \<notin> set (position_loaded te) \<union> set (position_loading te)" "list_all is_submit es"
  shows "\<exists>te'. te_run (Suc n) ((l, TeSubmit sy owner y uuid cb) # es) te = Some te' \<and> te_results te' = te_results te"
proof -
  have run: "\<exists>te'. te_run (Suc n) es te1 = Some te' \<and> te_results te' = te_results te1" if "stranded te1" for te1
    using assms(6) that
  proof (induction es arbitrary: te1)
    case (Cons e es)
    then obtain l sy owner y uuid cb where e: "e = (l, TeSubmit sy owner y uuid cb)" by (cases e rule: is_submit.cases) auto
    let ?te = "submit_order l (te_owner l (Suc n)) sy owner y uuid cb te1"
    have "stranded ?te" "te_results ?te = te_results te1" using stranded_submit [OF Cons.prems(2)] by blast+
    then show ?case using Cons.IH [of ?te] Cons.prems(1) e by simp
  qed simp
  let ?te = "submit_order l (te_owner l (Suc n)) sy owner y uuid cb te"
  have "stranded ?te" "te_results ?te = te_results te" using first_stranded [OF assms(1-5)] by blast+
  then show ?thesis using run [of ?te] by simp
qed

theorem closed_storage_strands_witness:
  "\<exists>te'. te_run 1 [(sample_link, TeSubmit ''X'' ''ann'' (default_Order\<lparr>qty := 1\<rparr>) ''u1'' (Some 1)),
       (sample_link, TeSubmit ''Y'' ''bob'' (default_Order\<lparr>qty := 1\<rparr>) ''u2'' (Some 2))]
     ((new_TradingEngine (new_Engine kStpNone 0) 0 5 5 0)\<lparr>hc_closed := True\<rparr>) = Some te' \<and> te_results te' = []"
  using closed_storage_strands [of "(new_TradingEngine (new_Engine kStpNone 0) 0 5 5 0)\<lparr>hc_closed := True\<rparr>" "''ann''" "''X''"
      "[(sample_link, TeSubmit ''Y'' ''bob'' (default_Order\<lparr>qty := 1\<rparr>) ''u2'' (Some 2))]" 0 sample_link
      "default_Order\<lparr>qty := 1\<rparr>" "''u1''" "Some 1"]
  by (simp add: new_TradingEngine_def new_HelperClient_def client_for_def del: te_run.simps)

end
