(* ===== verification/Spec2Isabelle.thy ===== *)
theory Spec2Isabelle
  imports Prelude Types Ladder Book Book_Inv Book_Steps Resting Matching Stops Pegs Auction Order_Book Cancel Submit Replica Matching_Engine Book_Properties Submit_Properties Engine_Properties Bytes Byte_Buffer Stream_Codec Feed_Wire Helper_Codec Ws_Frame Http_Message Http_Parser Token_Cache Ws_Handshake Io Websocket Helper_Client Storage_Client Storage_Helper Trading_Engine Trading_Properties
begin

text \<open>
  This development verifies \<open>codicis\<close>, a central limit order book: a matching engine with
  price-time priority, auctions, stops, pegs and contingent orders; a market data feed; helper processes for
  storage, authentication and ingress behind one message protocol; and HTTP and WebSocket front ends on
  one event loop. Definitions keep the names of the C++ source; each theory opens with the files
  it models.

  \<^bold>\<open>Parts and theories.\<close>

  \<^item> Order book (core/order.h, core/order\_book.cc). \<open>Types\<close> has the order, its enums, trades, events and outcomes.
    \<open>Ladder\<close> is one side's price levels with the best-price cache. \<open>Book\<close> is the state
    (\<open>OrderBook::Impl\<close>) and the elementary updates. \<open>Matching\<close>, \<open>Resting\<close>, \<open>Stops\<close>,
    \<open>Pegs\<close> and \<open>Auction\<close> are the routines of those names, \<open>Order_Book\<close> composes them into submit, cancel,
    expire and the session auctions. \<open>Book_Inv\<close>, \<open>Book_Steps\<close>, \<open>Cancel\<close> and \<open>Submit\<close> hold
    the invariant \<open>book_ok\<close> and that every operation keeps it; \<open>Book_Properties\<close> and
    \<open>Submit_Properties\<close> the properties: priority and completeness of matching, all-or-none, the optimal
    clearing price, termination of the stop cascade and of the recursion through released children, exactness
    of cancel and expire, the resident window, pegs, reduce-only orders and reservations.
  \<^item> Matching engine and feed (core/matching\_engine.cc, feed/book\_replica.cc, feed/feed\_wire.cc).
    \<open>Matching_Engine\<close> routes to one book per symbol and numbers the events, \<open>Replica\<close> is the
    consumer's copy. \<open>Engine_Properties\<close> relates the two: the replica mirrors every book after any
    sequence of engine operations (an inductive step relation).
  \<^item> Bytes and protocols. \<open>Bytes\<close>, \<open>Byte_Buffer\<close> (util/buffer.h, a queue of bytes: locale \<open>byte_queue\<close>),
    \<open>Stream_Codec\<close> (locale \<open>stream_codec\<close>: a decoder that never changes its verdict recovers the messages however
    the stream is cut into reads), interpreted by \<open>Feed_Wire\<close>, \<open>Helper_Codec\<close> (text and binary,
    ipc/helper\_codec.cc) and \<open>Ws_Frame\<close> (net/ws\_frame.cc). \<open>Ws_Handshake\<close> has SHA-1, Base64
    and the handshake response. \<open>Http_Message\<close> and \<open>Http_Parser\<close> are net/http\_message.cc,
    net/router.cc and net/http\_parser.cc.
  \<^item> Connections. \<open>Io\<close> models non-blocking read and write loops, with the results of the system calls
    as arguments. \<open>Websocket\<close> is net/websocket.cc: handshake, frames, reassembly, output and the table of
    connections.
  \<^item> Authentication cache. \<open>Token_Cache\<close> (auth/token\_cache.cc): the intrusive list and index refine a
    list of entries from hot to cold.
  \<^item> Helper processes and storage. \<open>Helper_Client\<close> (ipc/helper\_client.cc) is the pipelined request client;
    \<open>Storage_Client\<close> (ipc/storage\_client.cc) and \<open>Trading_Engine\<close> (engine/trading\_engine.cc) extend its
    record with their own state, so that a callback that runs inside a handler of the client acts on the
    whole state, as in the code. \<open>Storage_Helper\<close> (tools/storage\_helper/main.cc) is the process at
    the other end. \<open>Trading_Properties\<close> has the sequencing theorems; the locales \<open>engine_pred\<close> and
    \<open>helper_pred\<close> carry a predicate through everything the engine does once it is kept by
    sending one request.

  \<^bold>\<open>Conventions.\<close> A C++ object is a record; a function that changes it returns the new record; a loop is
  \<open>iter\<close> (a \<open>partial_function\<close>, so that not returning is \<open>None\<close>) and every property about an operation with such a loop shows that it
  returns. Exceptions and asserted conditions are \<open>None\<close> or an error value. Prices, quantities and ranks are
  \<open>int\<close> and \<open>nat\<close>; where the code's width matters (\<open>as_u64\<close>, the lengths of the wire formats, the HTTP chunk
  sizes, SHA-1) the wrap-around is written out. Unordered maps are association lists and no property depends
  on their order. Callbacks are values of a datatype, run by the owner of the client.

  \<^bold>\<open>Bounds.\<close> The recursion of \<open>submit\<close> through released children takes the number of held orders as fuel, which
  \<open>submit_depth_enough\<close> shows to be enough. Callbacks of the trading engine nest to a given depth \<open>n\<close>; deeper
  nesting sets \<open>te_fault\<close>, and the properties hold for every \<open>n\<close>; \<open>closed_storage_recurses\<close> shows
  a situation for which no \<open>n\<close> is enough.

  \<^bold>\<open>Defects shown.\<close> \<open>chunk_limit_wraps\<close>: the body limit of the HTTP parser is lost when the sum of the chunk
  sizes wraps around. \<open>deep_pull_never_places\<close>: a market order against a side marked deep is pulled for
  without end. \<open>closed_storage_recurses\<close> and \<open>closed_storage_strands\<close>: what a failed storage connection does
  to the engine.

  \<^bold>\<open>Not modelled.\<close> The event loop and its epoll and kqueue back ends, sockets, process spawning, logging and clocks
  are system calls; their results are arguments of the handlers. The HTTP server's connection I/O, the
  authentication client, the feed publisher and the ingress helpers are plumbing around parts that are modelled. The
  application server (routes, JSON rendering), configuration and option parsing are start-up and presentation code.
  The auth and feed helper tools and the Go helpers are separate processes behind the modelled protocols. A caller's
  own callback is recorded, not run: what a server does in it is a later event.
\<close>

end
